(* ===== verification/Prelude.thy ===== *)
theory Prelude
  imports Main "HOL-Library.Word" "HOL-Library.Stream"
begin

text \<open>
  What the components share: the types the sources use (\<open>std::string\<close> as a list of
  bytes, \<open>Args\<close>, connection handles), the C character classification functions, the
  \<open>std::int64_t\<close> range and its two's complement wrap, \<open>std::to_string\<close>, and the
  search for a CRLF. The lemma collections used by the component proofs are declared here.
\<close>

named_theorems ascii_simps \<open>the C character functions, unfolded\<close>
named_theorems len_simps \<open>lengths of encoded and printed strings\<close>

type_synonym args = "string list"
type_synonym link = nat
type_synonym path = string
type_synonym fs = "path \<rightharpoonup> string"

section \<open>Bytes and characters\<close>

definition code :: "char \<Rightarrow> nat" where
  "code c = of_char c"

abbreviation CR :: char where "CR \<equiv> CHR 0x0D"
abbreviation LF :: char where "LF \<equiv> CHR 0x0A"

definition isdigit :: "char \<Rightarrow> bool" where
  "isdigit c \<longleftrightarrow> 48 \<le> code c \<and> code c \<le> 57"

definition isspace :: "char \<Rightarrow> bool" where
  "isspace c \<longleftrightarrow> code c = 32 \<or> (9 \<le> code c \<and> code c \<le> 13)"

definition toupper :: "char \<Rightarrow> char" where
  "toupper c = (if 97 \<le> code c \<and> code c \<le> 122 then char_of (code c - 32) else c)"

text \<open>\<open>char\<close> is signed on the platforms the build targets.\<close>

definition schar :: "char \<Rightarrow> int" where
  "schar c = (if code c < 128 then int (code c) else int (code c) - 256)"

lemmas [ascii_simps] = code_def isdigit_def isspace_def toupper_def schar_def

lemma code_less [simp]: "code c < 256"
  by (simp add: code_def)

lemma code_char_of [simp]: "n < 256 \<Longrightarrow> code (char_of n) = n"
  by (simp add: code_def)

lemma char_of_code [simp]: "char_of (code c) = c"
  by (simp add: code_def)

lemma code_inject [simp]: "code a = code b \<longleftrightarrow> a = b"
  by (metis char_of_code)

section \<open>Machine integers\<close>

text \<open>
  Sizes and counters are natural numbers. \<open>std::int64_t\<close> values are integers; where the
  sources compute with them and the result may leave the range, \<open>wrap64\<close> gives the
  two's complement value the compiled addition produces.
\<close>

definition int64_max :: int where "int64_max = 9223372036854775807"
definition int64_min :: int where "int64_min = -9223372036854775808"

definition in_int64 :: "int \<Rightarrow> bool" where
  "in_int64 x \<longleftrightarrow> int64_min \<le> x \<and> x \<le> int64_max"

definition wrap64 :: "int \<Rightarrow> int" where
  "wrap64 x = (x + 9223372036854775808) mod 18446744073709551616 - 9223372036854775808"

text \<open>Division of signed integers truncates towards zero.\<close>

definition cdiv :: "int \<Rightarrow> int \<Rightarrow> int" where
  "cdiv a b = (if a < 0 then - (- a div b) else a div b)"

lemmas int64_defs = int64_max_def int64_min_def in_int64_def

lemma wrap64_id: "in_int64 x \<Longrightarrow> wrap64 x = x"
  by (simp add: wrap64_def int64_defs)

lemma wrap64_range: "in_int64 (wrap64 x)"
proof -
  have "0 \<le> (x + 9223372036854775808) mod 18446744073709551616"
    and "(x + 9223372036854775808) mod 18446744073709551616 < (18446744073709551616 :: int)"
    by simp_all
  then show ?thesis by (simp add: wrap64_def int64_defs)
qed

section \<open>std::to_string\<close>

definition digit_char :: "nat \<Rightarrow> char" where
  "digit_char d = char_of (48 + d)"

fun to_string_nat :: "nat \<Rightarrow> string" where
  "to_string_nat n =
     (if n < 10 then [digit_char n] else to_string_nat (n div 10) @ [digit_char (n mod 10)])"

declare to_string_nat.simps [simp del]

definition to_string :: "int \<Rightarrow> string" where
  "to_string v = (if v < 0 then CHR ''-'' # to_string_nat (nat (- v)) else to_string_nat (nat v))"

lemma code_digit_char [simp]: "d < 10 \<Longrightarrow> code (digit_char d) = 48 + d"
  by (simp add: digit_char_def)

lemma isdigit_digit_char [simp]: "d < 10 \<Longrightarrow> isdigit (digit_char d)"
  by (simp add: isdigit_def)

lemma to_string_nat_isdigit: "c \<in> set (to_string_nat n) \<Longrightarrow> isdigit c"
proof (induction n rule: to_string_nat.induct)
  case (1 n)
  show ?case
  proof (cases "n < 10")
    case True
    with "1.prems" show ?thesis by (subst (asm) to_string_nat.simps) simp
  next
    case False
    with "1.prems" have "c \<in> set (to_string_nat (n div 10)) \<or> c = digit_char (n mod 10)"
      by (subst (asm) to_string_nat.simps) auto
    with False "1.IH" show ?thesis by auto
  qed
qed

lemma to_string_nat_nonempty [simp]: "to_string_nat n \<noteq> []"
  by (subst to_string_nat.simps) simp

text \<open>The value a string of decimal digits denotes, read from the left with accumulator \<open>v\<close>.\<close>

fun dec_value :: "nat \<Rightarrow> string \<Rightarrow> nat" where
  "dec_value v [] = v"
| "dec_value v (c # cs) = dec_value (v * 10 + (code c - 48)) cs"

lemma dec_value_append: "dec_value v (xs @ ys) = dec_value (dec_value v xs) ys"
  by (induction xs arbitrary: v) auto

lemma dec_value_ge: "v \<le> dec_value v cs"
proof (induction cs arbitrary: v)
  case (Cons c cs)
  have "v \<le> v * 10 + (code c - 48)" by simp
  also have "\<dots> \<le> dec_value (v * 10 + (code c - 48)) cs" by (rule Cons.IH)
  finally show ?case by simp
qed simp

lemma dec_value_to_string_nat [simp]: "dec_value 0 (to_string_nat n) = n"
proof (induction n rule: to_string_nat.induct)
  case (1 n)
  show ?case
  proof (cases "n < 10")
    case True
    then show ?thesis by (subst to_string_nat.simps) simp
  next
    case False
    with "1.IH" show ?thesis by (subst to_string_nat.simps) (simp add: dec_value_append)
  qed
qed

lemma to_string_nat_bound: "n < 10 ^ k \<Longrightarrow> 0 < k \<Longrightarrow> length (to_string_nat n) \<le> k"
proof (induction n arbitrary: k rule: to_string_nat.induct)
  case (1 n)
  show ?case
  proof (cases "n < 10")
    case True
    with "1.prems" show ?thesis by (subst to_string_nat.simps) simp
  next
    case False
    with "1.prems" obtain j where k: "k = Suc j" "0 < j"
      by (metis One_nat_def Suc_pred gr0I power_one_right)
    have "n div 10 < 10 ^ j"
      using "1.prems"(1) k by (simp add: less_mult_imp_div_less mult.commute)
    with False k "1.IH" have "length (to_string_nat (n div 10)) \<le> j" by simp
    with False k show ?thesis by (subst to_string_nat.simps) simp
  qed
qed

section \<open>Searching for CRLF\<close>

definition kCrlf :: string where "kCrlf = [CR, LF]"

text \<open>\<open>std::string_view::find("\r\n", pos)\<close>; \<open>None\<close> is \<open>npos\<close>.\<close>

fun find_crlf :: "string \<Rightarrow> nat option" where
  "find_crlf (a # b # r) =
     (if a = CR \<and> b = LF then Some 0 else map_option Suc (find_crlf (b # r)))"
| "find_crlf _ = None"

definition find_crlf_from :: "string \<Rightarrow> nat \<Rightarrow> nat option" where
  "find_crlf_from s pos = map_option (\<lambda>i. pos + i) (find_crlf (drop pos s))"

text \<open>\<open>substr(pos, n)\<close>, which throws \<open>std::out_of_range\<close> beyond the end, and indexing.\<close>

definition substr :: "string \<Rightarrow> nat \<Rightarrow> nat \<Rightarrow> string option" where
  "substr s pos n = (if pos \<le> length s then Some (take n (drop pos s)) else None)"

definition char_at :: "string \<Rightarrow> nat \<Rightarrow> char option" where
  "char_at s i = (if i < length s then Some (s ! i) else None)"

lemma find_crlf_SomeD: "find_crlf s = Some i \<Longrightarrow> s = take i s @ kCrlf @ drop (i + 2) s"
proof (induction s arbitrary: i rule: find_crlf.induct)
  case (1 a b r)
  then show ?case by (auto simp: kCrlf_def split: if_splits)
qed auto

lemma find_crlf_bound: "find_crlf s = Some i \<Longrightarrow> i + 2 \<le> length s"
proof (induction s arbitrary: i rule: find_crlf.induct)
  case (1 a b r)
  then show ?case by (fastforce split: if_splits)
qed auto

lemma find_crlf_no_cr: "CR \<notin> set p \<Longrightarrow> find_crlf (p @ kCrlf @ q) = Some (length p)"
proof (induction p)
  case Nil
  show ?case by (simp add: kCrlf_def)
next
  case (Cons a p)
  then show ?case by (cases "p @ kCrlf @ q") (auto simp: kCrlf_def)
qed

lemma find_crlf_None_no_cr: "CR \<notin> set p \<Longrightarrow> find_crlf p = None"
  by (induction p rule: find_crlf.induct) auto

lemma find_crlf_None_cr_end: "CR \<notin> set p \<Longrightarrow> find_crlf (p @ [CR]) = None"
proof (induction p)
  case (Cons a p)
  then show ?case by (cases "p @ [CR]") auto
qed simp

lemma find_crlf_extend: "find_crlf s = Some i \<Longrightarrow> find_crlf (s @ t) = Some i"
proof (induction s arbitrary: i rule: find_crlf.induct)
  case (1 a b r)
  then show ?case by (fastforce split: if_splits)
qed auto

end
