(* ===== verification/Buffer.thy ===== *)
theory Buffer
  imports Prelude
begin

text \<open>
  \<open>rp::Buffer\<close> (\<open>include/rp/buffer.hpp\<close>): a growable byte vector with a read cursor. The
  locale \<open>byte_queue\<close> is what the connection layer and the handlers rely on; it is
  interpreted on the buffer, and the lemmas about traces of operations are its clients.
\<close>

record buffer =
  buf_data :: string
  buf_pos :: nat

definition buf_new :: buffer where
  "buf_new = \<lparr>buf_data = [], buf_pos = 0\<rparr>"

definition kReclaimThreshold :: nat where
  "kReclaimThreshold = 8 * 1024"

definition buf_size :: "buffer \<Rightarrow> nat" where
  "buf_size b = length (buf_data b) - buf_pos b"

definition buf_empty :: "buffer \<Rightarrow> bool" where
  "buf_empty b \<longleftrightarrow> buf_size b = 0"

definition buf_clear :: "buffer \<Rightarrow> buffer" where
  "buf_clear b = b\<lparr>buf_data := [], buf_pos := 0\<rparr>"

text \<open>\<open>memmove\<close> copies the unread bytes to the front, \<open>resize\<close> cuts the vector after them.\<close>

definition buf_reclaim :: "buffer \<Rightarrow> buffer" where
  "buf_reclaim b =
     (if buf_pos b = 0 then b
      else if buf_pos b < length (buf_data b) div 2 \<and> buf_pos b < kReclaimThreshold then b
      else
        (let remaining = buf_size b;
             moved = (if remaining > 0
                      then take remaining (drop (buf_pos b) (buf_data b)) @ drop remaining (buf_data b)
                      else buf_data b)
         in b\<lparr>buf_data := take remaining moved, buf_pos := 0\<rparr>))"

definition buf_append :: "buffer \<Rightarrow> string \<Rightarrow> buffer" where
  "buf_append b s =
     (if s = [] then b else (let c = buf_reclaim b in c\<lparr>buf_data := buf_data c @ s\<rparr>))"

definition buf_readable :: "buffer \<Rightarrow> string" where
  "buf_readable b = take (buf_size b) (drop (buf_pos b) (buf_data b))"

definition buf_consume :: "buffer \<Rightarrow> nat \<Rightarrow> buffer" where
  "buf_consume b n =
     (let c = b\<lparr>buf_pos := buf_pos b + (if n > buf_size b then buf_size b else n)\<rparr>
      in if buf_pos c = length (buf_data c) then buf_clear c else c)"

definition buf_inv :: "buffer \<Rightarrow> bool" where
  "buf_inv b \<longleftrightarrow> buf_pos b \<le> length (buf_data b)"

section \<open>The interface of a byte queue\<close>

datatype 'b queue_op = Append 'b | Consume nat | Clear

locale byte_queue =
  fixes content :: "'q \<Rightarrow> string"
    and append :: "'q \<Rightarrow> string \<Rightarrow> 'q"
    and consume :: "'q \<Rightarrow> nat \<Rightarrow> 'q"
    and clear :: "'q \<Rightarrow> 'q"
    and size :: "'q \<Rightarrow> nat"
    and invar :: "'q \<Rightarrow> bool"
  assumes content_append [simp]: "invar q \<Longrightarrow> content (append q s) = content q @ s"
    and content_consume [simp]: "invar q \<Longrightarrow> content (consume q n) = drop n (content q)"
    and content_clear [simp]: "content (clear q) = []"
    and size_content: "invar q \<Longrightarrow> size q = length (content q)"
    and invar_append [simp]: "invar q \<Longrightarrow> invar (append q s)"
    and invar_consume [simp]: "invar q \<Longrightarrow> invar (consume q n)"
    and invar_clear [simp]: "invar (clear q)"
begin

primrec step :: "'q \<Rightarrow> string queue_op \<Rightarrow> 'q" where
  "step q (Append s) = append q s"
| "step q (Consume n) = consume q n"
| "step q Clear = clear q"

lemma invar_step [simp]: "invar q \<Longrightarrow> invar (step q x)"
  by (cases x) simp_all

lemma invar_run: "invar q \<Longrightarrow> invar (foldl step q xs)"
  by (induction xs arbitrary: q) simp_all

lemma content_append_all: "invar q \<Longrightarrow> content (foldl append q ss) = content q @ concat ss"
  by (induction ss arbitrary: q) simp_all

lemma consume_prefix: "invar q \<Longrightarrow> content q = x @ y \<Longrightarrow> content (consume q (length x)) = y"
  by simp

lemma consume_all: "invar q \<Longrightarrow> size q \<le> n \<Longrightarrow> content (consume q n) = []"
  by (simp add: size_content)

end

text \<open>The abstract byte queue: the unread bytes, nothing else.\<close>

primrec queue_step :: "string \<Rightarrow> string queue_op \<Rightarrow> string" where
  "queue_step q (Append s) = q @ s"
| "queue_step q (Consume n) = drop n q"
| "queue_step q Clear = []"

context byte_queue
begin

lemma content_step: "invar q \<Longrightarrow> content (step q x) = queue_step (content q) x"
  by (cases x) simp_all

lemma content_run: "invar q \<Longrightarrow> content (foldl step q xs) = foldl queue_step (content q) xs"
  by (induction xs arbitrary: q) (simp_all add: content_step)

end

section \<open>The buffer provides the interface\<close>

lemma buf_readable_eq: "buf_readable b = drop (buf_pos b) (buf_data b)"
  by (simp add: buf_readable_def buf_size_def)

lemma buf_reclaim_readable: "buf_readable (buf_reclaim b) = buf_readable b"
  by (auto simp: buf_readable_eq buf_reclaim_def buf_size_def Let_def)

lemma buf_reclaim_inv: "buf_inv b \<Longrightarrow> buf_inv (buf_reclaim b)"
  by (auto simp: buf_inv_def buf_reclaim_def Let_def)

lemma buf_append_readable: "buf_inv b \<Longrightarrow> buf_readable (buf_append b s) = buf_readable b @ s"
  using buf_reclaim_readable [of b] buf_reclaim_inv [of b]
  by (auto simp: buf_append_def Let_def buf_readable_eq buf_inv_def)

lemma buf_append_inv: "buf_inv b \<Longrightarrow> buf_inv (buf_append b s)"
  using buf_reclaim_inv [of b] by (auto simp: buf_append_def Let_def buf_inv_def)

lemma buf_consume_readable: "buf_inv b \<Longrightarrow> buf_readable (buf_consume b n) = drop n (buf_readable b)"
  by (auto simp: buf_consume_def Let_def buf_readable_eq buf_inv_def buf_size_def buf_clear_def add.commute)

lemma buf_consume_inv: "buf_inv b \<Longrightarrow> buf_inv (buf_consume b n)"
  by (auto simp: buf_consume_def Let_def buf_inv_def buf_size_def buf_clear_def)

lemma buf_size_readable: "buf_size b = length (buf_readable b)"
  by (simp add: buf_readable_eq buf_size_def)

lemma buf_clear_simps: "buf_readable (buf_clear b) = []" "buf_inv (buf_clear b)"
  by (simp_all add: buf_clear_def buf_readable_eq buf_inv_def)

interpretation buf: byte_queue buf_readable buf_append buf_consume buf_clear buf_size buf_inv
  by unfold_locales
     (simp_all add: buf_append_readable buf_consume_readable buf_append_inv buf_consume_inv
        buf_size_readable buf_clear_simps)

lemma buf_new_simps [simp]: "buf_inv buf_new" "buf_readable buf_new = []"
  by (simp_all add: buf_new_def buf_inv_def buf_readable_eq)

primrec buf_step :: "buffer \<Rightarrow> string queue_op \<Rightarrow> buffer" where
  "buf_step b (Append s) = buf_append b s"
| "buf_step b (Consume n) = buf_consume b n"
| "buf_step b Clear = buf_clear b"

lemma buf_step_eq: "buf_step = buf.step"
proof (intro ext)
  fix b x show "buf_step b x = buf.step b x" by (cases x) simp_all
qed

text \<open>Consumed bytes are never kept beyond the threshold once something is appended.\<close>

lemma buf_reclaim_slack:
  "buf_pos (buf_reclaim b) < kReclaimThreshold \<and>
   (buf_pos (buf_reclaim b) = 0 \<or> buf_pos (buf_reclaim b) < length (buf_data (buf_reclaim b)) div 2)"
  by (auto simp: buf_reclaim_def Let_def kReclaimThreshold_def)

lemma buf_append_slack:
  assumes "s \<noteq> []"
  shows "buf_pos (buf_append b s) < kReclaimThreshold \<and>
     2 * buf_pos (buf_append b s) \<le> length (buf_data (buf_append b s))"
  using buf_reclaim_slack [of b] assms by (auto simp: buf_append_def Let_def)

section \<open>Properties\<close>

text \<open>
  C16: For every sequence of appends, consumes and clears, of any sizes, the unread bytes of the
  buffer are those of a byte queue; reclaiming consumed space is not observable.
\<close>
theorem buffer_refines_queue:
  "buf_readable (foldl buf_step buf_new xs) = foldl queue_step [] xs"
  using buf.content_run [of buf_new xs] by (simp add: buf_step_eq)

text \<open>
  C17: After any non-empty append the consumed bytes still held are fewer than
  \<open>kReclaimThreshold\<close> and at most half of the storage, whatever happened before.
\<close>
theorem buffer_slack_bound:
  assumes "s \<noteq> []"
  shows "buf_pos (buf_append b s) < kReclaimThreshold \<and>
     2 * buf_pos (buf_append b s) \<le> length (buf_data (buf_append b s))"
  using assms by (rule buf_append_slack)

theorem buffer_slack_bound_witness:
  "buf_pos (buf_append \<lparr>buf_data = ''abcdef'', buf_pos = 4\<rparr> ''x'') < kReclaimThreshold \<and>
   buf_data (buf_append \<lparr>buf_data = ''abcdef'', buf_pos = 4\<rparr> ''x'') = ''efx''"
  using buffer_slack_bound [of "''x''" "\<lparr>buf_data = ''abcdef'', buf_pos = 4\<rparr>"]
  by (simp add: buf_append_def buf_reclaim_def buf_size_def Let_def)

end
