(* ===== verification/Resp.thy ===== *)
theory Resp
  imports Prelude "HOL-Library.Monad_Syntax"
begin

text \<open>
  RESP requests and replies (\<open>include/rp/resp.hpp\<close>, \<open>src/resp.cpp\<close>). Every read of the
  input goes through \<open>char_at\<close> and \<open>substr\<close>, whose \<open>None\<close> is an access outside
  the input, so that the parser's freedom from such accesses is a theorem and not a
  feature of the model. The lemmas show that the integer syntax is parsed exactly, that a
  complete request is framed the same way whatever follows it, that parsing inverts the
  encoding, and that every proper prefix of an encoded request is incomplete.
\<close>

section \<open>Results\<close>

datatype parse_status = kOk | kIncomplete | kError

record parse_result =
  status :: parse_status
  consumed :: nat
  res_args :: args
  res_error :: string

definition kMaxMultibulkLength :: int where "kMaxMultibulkLength = 1024 * 1024"
definition kMaxBulkLength :: int where "kMaxBulkLength = 512 * 1024 * 1024"
definition kMaxInlineLength :: nat where "kMaxInlineLength = 64 * 1024"

definition incomplete :: parse_result where
  "incomplete = \<lparr>status = kIncomplete, consumed = 0, res_args = [], res_error = []\<rparr>"

definition protocol_error :: "string \<Rightarrow> parse_result" where
  "protocol_error msg = \<lparr>status = kError, consumed = 0, res_args = [], res_error = msg\<rparr>"

definition request_ok :: "nat \<Rightarrow> args \<Rightarrow> parse_result" where
  "request_ok n as = \<lparr>status = kOk, consumed = n, res_args = as, res_error = []\<rparr>"

section \<open>Integers\<close>

fun parse_int_loop :: "int \<Rightarrow> string \<Rightarrow> int option" where
  "parse_int_loop value [] = Some value"
| "parse_int_loop value (c # cs) =
     (if \<not> isdigit c then None
      else
        (let digit = int (code c) - 48
         in if value > (int64_max - digit) div 10 then None
            else parse_int_loop (value * 10 + digit) cs))"

definition parse_int :: "string \<Rightarrow> int option" where
  "parse_int txt =
     (case txt of
        [] \<Rightarrow> None
      | c # rest \<Rightarrow>
          if c = CHR ''-'' \<or> c = CHR ''+''
          then (if rest = [] then None
                else map_option (\<lambda>v. if c = CHR ''-'' then - v else v) (parse_int_loop 0 rest))
          else parse_int_loop 0 txt)"

section \<open>Inline requests\<close>

lemma inline_args_decreases:
  "line \<noteq> [] \<Longrightarrow>
   length (dropWhile (\<lambda>c. \<not> isspace c) (dropWhile isspace line)) < length line"
proof (cases line)
  case (Cons c cs)
  have "length (dropWhile P xs) \<le> length xs" for P and xs :: string
    by (rule length_dropWhile_le)
  then show ?thesis
    using Cons by (auto intro: le_less_trans order_trans simp: less_Suc_eq_le)
qed simp

function inline_args :: "string \<Rightarrow> args" where
  "inline_args line =
     (if line = [] then []
      else
        (let line1 = dropWhile isspace line;
             arg = takeWhile (\<lambda>c. \<not> isspace c) line1;
             line2 = dropWhile (\<lambda>c. \<not> isspace c) line1
         in if arg \<noteq> [] then arg # inline_args line2 else inline_args line2))"
  by pat_completeness auto

termination
  by (relation "measure length") (use inline_args_decreases in auto)

declare inline_args.simps [simp del]

definition parse_inline :: "string \<Rightarrow> parse_result" where
  "parse_inline inp =
     (case find_crlf_from inp 0 of
        None \<Rightarrow>
          if length inp > kMaxInlineLength
          then protocol_error ''ERR Protocol error: too big inline request''
          else incomplete
      | Some eol \<Rightarrow>
          if eol > kMaxInlineLength
          then protocol_error ''ERR Protocol error: too big inline request''
          else request_ok (eol + length kCrlf) (inline_args (take eol inp)))"

section \<open>Multibulk requests\<close>

fun parse_bulks :: "string \<Rightarrow> nat \<Rightarrow> nat \<Rightarrow> args \<Rightarrow> parse_result option" where
  "parse_bulks inp 0 pos as = Some (request_ok pos as)"
| "parse_bulks inp (Suc i) pos as =
     (if pos \<ge> length inp then Some incomplete
      else do {
        c \<leftarrow> char_at inp pos;
        if c \<noteq> CHR ''$''
        then Some (protocol_error
          (''ERR Protocol error: expected '' @ [CHR 0x27, CHR ''$'', CHR 0x27] @ '', got '' @
           [CHR 0x27, c, CHR 0x27]))
        else
          (case find_crlf_from inp pos of
             None \<Rightarrow>
               if length inp - pos > 64
               then Some (protocol_error ''ERR Protocol error: too big bulk count string'')
               else Some incomplete
           | Some len_end \<Rightarrow> do {
               txt \<leftarrow> substr inp (pos + 1) (len_end - pos - 1);
               (case parse_int txt of
                  None \<Rightarrow> Some (protocol_error ''ERR Protocol error: invalid bulk length'')
                | Some len \<Rightarrow>
                    if len < 0 \<or> len > kMaxBulkLength
                    then Some (protocol_error ''ERR Protocol error: invalid bulk length'')
                    else
                      (let body = len_end + length kCrlf;
                           need = body + nat len + length kCrlf
                       in if length inp < need then Some incomplete
                          else do {
                            trailer \<leftarrow> substr inp (body + nat len) 2;
                            if trailer \<noteq> kCrlf
                            then Some (protocol_error
                              ''ERR Protocol error: unbalanced bulk payload'')
                            else do {
                              arg \<leftarrow> substr inp body (nat len);
                              parse_bulks inp i need (as @ [arg])
                            }
                          }))
             })
      })"

definition parse_request_opt :: "string \<Rightarrow> parse_result option" where
  "parse_request_opt inp =
     (if inp = [] then Some incomplete
      else do {
        c \<leftarrow> char_at inp 0;
        if c \<noteq> CHR ''*'' then Some (parse_inline inp)
        else
          (case find_crlf_from inp 0 of
             None \<Rightarrow>
               if length inp > 64
               then Some (protocol_error ''ERR Protocol error: too big mbulk count string'')
               else Some incomplete
           | Some header_end \<Rightarrow> do {
               txt \<leftarrow> substr inp 1 (header_end - 1);
               (case parse_int txt of
                  None \<Rightarrow> Some (protocol_error ''ERR Protocol error: invalid multibulk length'')
                | Some argc \<Rightarrow>
                    if argc > kMaxMultibulkLength
                    then Some (protocol_error ''ERR Protocol error: invalid multibulk length'')
                    else
                      (let pos = header_end + length kCrlf
                       in if argc \<le> 0 then Some (request_ok pos [])
                          else parse_bulks inp (nat argc) pos []))
             })
      })"

definition parse_request :: "string \<Rightarrow> parse_result" where
  "parse_request inp = the (parse_request_opt inp)"

section \<open>Replies\<close>

definition reply_simple :: "string \<Rightarrow> string" where
  "reply_simple s = ''+'' @ s @ kCrlf"

definition reply_error :: "string \<Rightarrow> string" where
  "reply_error s = ''-'' @ s @ kCrlf"

definition reply_integer :: "int \<Rightarrow> string" where
  "reply_integer v = '':'' @ to_string v @ kCrlf"

definition reply_bulk :: "string \<Rightarrow> string" where
  "reply_bulk s = ''$'' @ to_string_nat (length s) @ kCrlf @ s @ kCrlf"

definition reply_null_bulk :: string where
  "reply_null_bulk = ''$-1'' @ kCrlf"

definition reply_array_header :: "nat \<Rightarrow> string" where
  "reply_array_header n = ''*'' @ to_string_nat n @ kCrlf"

definition reply_empty_array :: string where
  "reply_empty_array = ''*0'' @ kCrlf"

definition reply_ok :: string where
  "reply_ok = ''+OK'' @ kCrlf"

definition reply_wrong_arity :: "string \<Rightarrow> string" where
  "reply_wrong_arity command =
     reply_error (''ERR wrong number of arguments for '' @ [CHR 0x27] @ command @ [CHR 0x27] @
       '' command'')"

section \<open>The integer syntax\<close>

lemma digit_overflow:
  fixes v d :: int
  assumes "0 \<le> v" "0 \<le> d" "d \<le> 9"
  shows "v > (int64_max - d) div 10 \<longleftrightarrow> v * 10 + d > int64_max"
  using assms by (auto simp: int64_max_def)

lemma parse_int_loop_spec:
  assumes "int v \<le> int64_max"
  shows "parse_int_loop (int v) cs =
     (if (\<forall>c \<in> set cs. isdigit c) \<and> int (dec_value v cs) \<le> int64_max
      then Some (int (dec_value v cs)) else None)"
  using assms
proof (induction cs arbitrary: v)
  case (Cons c cs)
  show ?case
  proof (cases "isdigit c")
    case True
    define w where "w = v * 10 + (code c - 48)"
    have w: "int v * 10 + (int (code c) - 48) = int w"
      using True by (simp add: isdigit_def w_def)
    have ov: "int v > (int64_max - (int (code c) - 48)) div 10 \<longleftrightarrow> int w > int64_max"
      unfolding w [symmetric] by (rule digit_overflow) (use True in \<open>auto simp: isdigit_def\<close>)
    have dv: "dec_value v (c # cs) = dec_value w cs" by (simp add: w_def)
    have loop: "parse_int_loop (int v) (c # cs) =
        (if int w > int64_max then None else parse_int_loop (int w) cs)"
      using True ov by (simp add: Let_def w)
    have "int w > int64_max \<Longrightarrow> int (dec_value w cs) > int64_max"
      using dec_value_ge [of w cs] by linarith
    then show ?thesis
      unfolding loop dv using Cons.IH [of w] True by auto
  qed simp
qed simp

text \<open>The numbers the syntax admits: an optional sign, digits, magnitude at most \<open>INT64_MAX\<close>.\<close>

definition int_syntax :: "string \<Rightarrow> bool \<Rightarrow> string \<Rightarrow> bool" where
  "int_syntax s neg ds \<longleftrightarrow>
     ds \<noteq> [] \<and> (\<forall>c \<in> set ds. isdigit c) \<and>
     (s = CHR ''-'' # ds \<and> neg \<or> s = CHR ''+'' # ds \<and> \<not> neg \<or> s = ds \<and> \<not> neg)"

lemma not_digit_signs [simp]: "\<not> isdigit (CHR ''-'')" "\<not> isdigit (CHR ''+'')"
  by (simp_all add: isdigit_def code_def)

lemma parse_int_spec:
  "parse_int s = Some v \<longleftrightarrow>
     (\<exists>neg ds. int_syntax s neg ds \<and> int (dec_value 0 ds) \<le> int64_max \<and>
        v = (if neg then - int (dec_value 0 ds) else int (dec_value 0 ds)))"
proof (cases s)
  case Nil
  then show ?thesis by (simp add: parse_int_def int_syntax_def)
next
  case (Cons c cs)
  have z: "int 0 \<le> int64_max" by (simp add: int64_max_def)
  show ?thesis
    using parse_int_loop_spec [OF z, of cs] parse_int_loop_spec [OF z, of s] Cons
    by (cases "c = CHR ''-''"; cases "c = CHR ''+''")
       (auto simp: parse_int_def int_syntax_def split: if_splits)
qed

lemma parse_int_range: "parse_int s = Some v \<Longrightarrow> - int64_max \<le> v \<and> v \<le> int64_max"
  by (auto simp: parse_int_spec)

lemma parse_int_to_string_nat:
  assumes "int n \<le> int64_max"
  shows "parse_int (to_string_nat n) = Some (int n)"
  unfolding parse_int_spec int_syntax_def
  by (rule exI [of _ False], rule exI [of _ "to_string_nat n"])
     (use assms in \<open>auto dest: to_string_nat_isdigit\<close>)

lemma parse_int_to_string:
  assumes "- int64_max \<le> v" "v \<le> int64_max"
  shows "parse_int (to_string v) = Some v"
proof (cases "v < 0")
  case True
  then show ?thesis
    unfolding parse_int_spec int_syntax_def to_string_def using assms
    by (intro exI [of _ True] exI [of _ "to_string_nat (nat (- v))"])
       (auto dest: to_string_nat_isdigit)
next
  case False
  with assms show ?thesis by (simp add: to_string_def parse_int_to_string_nat)
qed

section \<open>No access outside the input\<close>

lemma find_crlf_fromD:
  assumes "find_crlf_from s p = Some e"
  shows "p \<le> e" and "e + 2 \<le> length s"
proof -
  from assms obtain i where i: "find_crlf (drop p s) = Some i" and e: "e = p + i"
    by (auto simp: find_crlf_from_def)
  from find_crlf_bound [OF i] e show "e + 2 \<le> length s" and "p \<le> e" by auto
qed

lemma find_crlf_from_extend:
  assumes "find_crlf_from s p = Some e" "p \<le> length s"
  shows "find_crlf_from (s @ t) p = Some e"
  using assms find_crlf_extend by (auto simp: find_crlf_from_def)

lemma parse_bulks_total: "\<exists>r. parse_bulks inp n pos as = Some r"
proof (induction n arbitrary: pos as)
  case (Suc n)
  show ?case
  proof (cases "find_crlf_from inp pos")
    case None
    then show ?thesis by (auto simp: char_at_def)
  next
    case (Some e)
    note b = find_crlf_fromD [OF Some]
    have "e + 2 + nat len \<le> length inp" if "\<not> length inp < e + 2 + nat len + 2" for len
      using that by simp
    with Some b Suc.IH show ?thesis
      by (auto simp: char_at_def substr_def kCrlf_def Let_def split: option.split)
  qed
qed simp

lemma parse_request_total: "\<exists>r. parse_request_opt inp = Some r"
proof (cases "find_crlf_from inp 0")
  case None
  then show ?thesis by (auto simp: parse_request_opt_def char_at_def)
next
  case (Some e)
  note b = find_crlf_fromD [OF Some]
  with Some parse_bulks_total show ?thesis
    by (auto simp: parse_request_opt_def char_at_def substr_def Let_def split: option.split)
qed

lemma parse_request_opt_eq: "parse_request_opt inp = Some (parse_request inp)"
  using parse_request_total [of inp] by (auto simp: parse_request_def)

lemma status_simps [simp]:
  "status (request_ok n as) = kOk" "consumed (request_ok n as) = n"
  "res_args (request_ok n as) = as"
  "status incomplete = kIncomplete" "consumed incomplete = 0" "res_args incomplete = []"
  "status (protocol_error m) = kError" "consumed (protocol_error m) = 0"
  "res_error (protocol_error m) = m" "res_args (protocol_error m) = []"
  by (simp_all add: request_ok_def incomplete_def protocol_error_def)

lemma ok_not_error: "status r = kOk \<Longrightarrow> protocol_error m \<noteq> r" "status r = kOk \<Longrightarrow> incomplete \<noteq> r"
  by auto

section \<open>Progress and framing\<close>

lemma parse_bulks_ok:
  assumes "parse_bulks inp n pos as = Some r" "status r = kOk" "pos \<le> length inp"
  shows "pos \<le> consumed r \<and> consumed r \<le> length inp"
  using assms
proof (induction n arbitrary: pos as)
  case (Suc n)
  then show ?case
    by (fastforce simp: char_at_def substr_def kCrlf_def Let_def
        dest: find_crlf_fromD split: if_splits option.splits Option.bind_splits)
qed auto

lemma parse_bulks_extend:
  assumes "parse_bulks inp n pos as = Some r" "status r = kOk"
  shows "parse_bulks (inp @ t) n pos as = Some r"
  using assms
proof (induction n arbitrary: pos as)
  case (Suc n)
  from Suc.prems have pos: "pos < length inp" and "char_at inp pos = Some (CHR ''$'')"
    by (auto simp: char_at_def split: if_splits Option.bind_splits)
  with Suc.prems obtain e where e: "find_crlf_from inp pos = Some e"
    by (auto split: option.splits if_splits)
  note b = find_crlf_fromD [OF e] and e' = find_crlf_from_extend [OF e less_imp_le [OF pos]]
  have sub: "substr (inp @ t) p k = substr inp p k" if "p + k \<le> length inp" for p k
    using that by (simp add: substr_def)
  show ?case
    using Suc.prems pos e e' b Suc.IH
    by (auto simp: char_at_def nth_append sub kCrlf_def Let_def
        split: if_splits option.splits Option.bind_splits)
qed auto

lemma parse_inline_ok:
  assumes "status (parse_inline inp) = kOk"
  shows "0 < consumed (parse_inline inp) \<and> consumed (parse_inline inp) \<le> length inp"
  using assms by (auto simp: parse_inline_def kCrlf_def split: option.splits if_splits
      dest: find_crlf_fromD)

lemma parse_request_disj:
  assumes "status (parse_request inp) = kOk"
  shows "(inp \<noteq> [] \<and> inp ! 0 \<noteq> CHR ''*'' \<and> parse_request inp = parse_inline inp) \<or>
    (\<exists>e. inp ! 0 = CHR ''*'' \<and> find_crlf_from inp 0 = Some e \<and>
        (parse_request inp = request_ok (e + 2) [] \<or>
         (\<exists>n. parse_bulks inp n (e + 2) [] = Some (parse_request inp))))"
proof -
  have ne: "inp \<noteq> []" using assms by (auto simp: parse_request_def parse_request_opt_def)
  show ?thesis
  proof (cases "inp ! 0 = CHR ''*''")
    case False
    with ne show ?thesis by (simp add: parse_request_def parse_request_opt_def char_at_def)
  next
    case True
    with ne assms obtain e where e: "find_crlf_from inp 0 = Some e"
      by (auto simp: parse_request_def parse_request_opt_def char_at_def
          split: option.splits if_splits)
    with True ne assms parse_request_opt_eq [of inp] show ?thesis
      by (auto simp: parse_request_opt_def char_at_def substr_def Let_def kCrlf_def ok_not_error
          split: if_splits option.splits)
  qed
qed

lemma parse_request_cases:
  assumes "status (parse_request inp) = kOk"
  obtains (inline) "inp \<noteq> []" "inp ! 0 \<noteq> CHR ''*''" "parse_request inp = parse_inline inp"
  | (empty) e where "inp ! 0 = CHR ''*''" "find_crlf_from inp 0 = Some e"
      "parse_request inp = request_ok (e + 2) []"
  | (bulks) e n where "inp ! 0 = CHR ''*''" "find_crlf_from inp 0 = Some e"
      "parse_bulks inp n (e + 2) [] = Some (parse_request inp)"
  using parse_request_disj [OF assms] by blast

lemma parse_request_progress:
  assumes "status (parse_request inp) = kOk"
  shows "0 < consumed (parse_request inp) \<and> consumed (parse_request inp) \<le> length inp"
  using assms
proof (cases rule: parse_request_cases)
  case inline
  with assms parse_inline_ok [of inp] show ?thesis by simp
next
  case (empty e)
  with find_crlf_fromD [of inp 0 e] show ?thesis by simp
next
  case (bulks e n)
  with find_crlf_fromD [of inp 0 e] parse_bulks_ok [OF bulks(3) assms] show ?thesis by simp
qed

lemma parse_inline_extend:
  assumes "status (parse_inline inp) = kOk"
  shows "parse_inline (inp @ t) = parse_inline inp"
proof -
  from assms obtain e where e: "find_crlf_from inp 0 = Some e"
    by (auto simp: parse_inline_def split: option.splits if_splits)
  with find_crlf_fromD [OF e] find_crlf_from_extend [OF e] show ?thesis
    by (simp add: parse_inline_def)
qed

lemma parse_request_extend:
  assumes ok: "status (parse_request inp) = kOk"
  shows "parse_request (inp @ t) = parse_request inp"
proof -
  have ne: "inp \<noteq> []" using ok by (auto simp: parse_request_def parse_request_opt_def)
  show ?thesis
  proof (cases "inp ! 0 = CHR ''*''")
    case False
    with ne ok parse_inline_extend [of inp t] show ?thesis
      by (auto simp: parse_request_def parse_request_opt_def char_at_def nth_append)
  next
    case True
    with ne ok obtain e where e: "find_crlf_from inp 0 = Some e"
      by (auto simp: parse_request_def parse_request_opt_def char_at_def
          split: option.splits if_splits)
    note b = find_crlf_fromD [OF e] and e' = find_crlf_from_extend [OF e, of t]
    have sub: "substr (inp @ t) 1 (e - 1) = substr inp 1 (e - 1)"
      using b by (simp add: substr_def)
    have "parse_request_opt (inp @ t) = Some (parse_request inp)"
      using True ne ok e e' sub parse_request_opt_eq [of inp]
      by (auto simp: parse_request_opt_def char_at_def nth_append Let_def parse_bulks_extend
          split: if_splits option.splits Option.bind_splits)
    then show ?thesis by (simp add: parse_request_opt_eq)
  qed
qed

section \<open>Parsing inverts the encoding\<close>

text \<open>The requests the parser's limits admit.\<close>

definition wire_ok :: "args \<Rightarrow> bool" where
  "wire_ok as \<longleftrightarrow> as \<noteq> [] \<and> int (length as) \<le> kMaxMultibulkLength \<and>
     (\<forall>a \<in> set as. int (length a) \<le> kMaxBulkLength)"

definition resp_array :: "args \<Rightarrow> string" where
  "resp_array as = reply_array_header (length as) @ concat (map reply_bulk as)"

lemma cr_not_digit: "CR \<notin> set (to_string_nat n)"
  using to_string_nat_isdigit [of CR n] by (auto simp: isdigit_def code_def)

lemma to_string_nat_small:
  assumes "int n \<le> kMaxBulkLength"
  shows "length (to_string_nat n) \<le> 9" and "int n \<le> int64_max"
proof -
  have "n < 10 ^ 9" using assms by (simp add: kMaxBulkLength_def)
  then show "length (to_string_nat n) \<le> 9" by (rule to_string_nat_bound) simp
  show "int n \<le> int64_max" using assms by (simp add: kMaxBulkLength_def int64_max_def)
qed

lemma find_crlf_header:
  assumes "c \<noteq> CR"
  shows "find_crlf_from (pre @ c # to_string_nat n @ kCrlf @ x) (length pre) =
     Some (length pre + 1 + length (to_string_nat n))"
  using find_crlf_no_cr [of "c # to_string_nat n" x] assms cr_not_digit
  by (simp add: find_crlf_from_def)

lemma find_crlf_torn:
  assumes "CR \<notin> set p" "m \<le> length p + 1"
  shows "find_crlf (take m (p @ kCrlf @ x)) = None"
proof (cases "m \<le> length p")
  case True
  then have "CR \<notin> set (take m p)" using assms(1) in_set_takeD by fastforce
  with True show ?thesis by (simp add: find_crlf_None_no_cr)
next
  case False
  with assms(2) have "take m (p @ kCrlf @ x) = p @ [CR]" by (simp add: kCrlf_def le_Suc_eq)
  with assms(1) show ?thesis by (simp add: find_crlf_None_cr_end)
qed

lemma substr_append: "substr (p @ a @ r) (length p) (length a) = Some a"
  by (simp add: substr_def)

lemma parse_bulks_step:
  assumes "int (length a) \<le> kMaxBulkLength"
  shows "parse_bulks (pre @ reply_bulk a @ rest) (Suc n) (length pre) as =
     parse_bulks (pre @ reply_bulk a @ rest) n (length pre + length (reply_bulk a)) (as @ [a])"
proof -
  let ?D = "to_string_nat (length a)"
  let ?inp = "pre @ CHR ''$'' # ?D @ kCrlf @ a @ kCrlf @ rest"
  have inp: "pre @ reply_bulk a @ rest = ?inp" by (simp add: reply_bulk_def)
  have f: "find_crlf_from ?inp (length pre) = Some (length pre + 1 + length ?D)"
    by (rule find_crlf_header) simp
  have c: "char_at ?inp (length pre) = Some (CHR ''$'')" by (simp add: char_at_def nth_append)
  have t: "substr ?inp (length pre + 1) (length ?D) = Some ?D" by (simp add: substr_def)
  have b: "substr ?inp (length pre + 1 + length ?D + 2) (length a) = Some a"
    using substr_append [of "pre @ CHR ''$'' # ?D @ kCrlf" a "kCrlf @ rest"]
    by (simp add: kCrlf_def)
  have z: "substr ?inp (length pre + 1 + length ?D + 2 + length a) 2 = Some kCrlf"
    using substr_append [of "pre @ CHR ''$'' # ?D @ kCrlf @ a" kCrlf rest]
    by (simp add: kCrlf_def add.assoc numeral_2_eq_2)
  have p: "parse_int ?D = Some (int (length a))"
    by (rule parse_int_to_string_nat) (rule to_string_nat_small(2) [OF assms])
  show ?thesis
    unfolding inp using f c t b z p assms
    by (simp add: kCrlf_def Let_def reply_bulk_def add.assoc)
qed

lemma parse_bulks_torn:
  assumes small: "int (length a) \<le> kMaxBulkLength" and m: "m < length (reply_bulk a)"
  shows "parse_bulks (pre @ take m (reply_bulk a)) (Suc n) (length pre) as = Some incomplete"
proof (cases m)
  case (Suc k)
  let ?D = "to_string_nat (length a)"
  have B: "reply_bulk a = CHR ''$'' # ?D @ kCrlf @ a @ kCrlf" by (simp add: reply_bulk_def)
  show ?thesis
  proof (cases "m \<le> length ?D + 2")
    case True
    have "find_crlf (take m ((CHR ''$'' # ?D) @ kCrlf @ a @ kCrlf)) = None"
      by (rule find_crlf_torn) (use True cr_not_digit in auto)
    then have "find_crlf_from (pre @ take m (reply_bulk a)) (length pre) = None"
      by (simp add: find_crlf_from_def B)
    moreover have "length (take m (reply_bulk a)) \<le> 64"
      using True to_string_nat_small(1) [OF small] by simp
    ultimately show ?thesis using Suc m by (simp add: char_at_def nth_append B)
  next
    case False
    define x where "x = take (m - (length ?D + 3)) (a @ kCrlf)"
    have T: "take m (reply_bulk a) = CHR ''$'' # ?D @ kCrlf @ x"
      using False Suc by (simp add: B x_def kCrlf_def take_Cons' numeral_eq_Suc)
    have x: "length x < length a + 2" using m False by (simp add: B x_def kCrlf_def)
    have f: "find_crlf_from (pre @ CHR ''$'' # ?D @ kCrlf @ x) (length pre) =
        Some (length pre + 1 + length ?D)"
      by (rule find_crlf_header) simp
    have t: "substr (pre @ CHR ''$'' # ?D @ kCrlf @ x) (length pre + 1) (length ?D) = Some ?D"
      by (simp add: substr_def)
    have p: "parse_int ?D = Some (int (length a))"
      by (rule parse_int_to_string_nat) (rule to_string_nat_small(2) [OF small])
    show ?thesis
      unfolding T using f t p small x by (simp add: char_at_def nth_append kCrlf_def Let_def)
  qed
qed simp

lemma parse_bulks_roundtrip:
  assumes "\<forall>a \<in> set xs. int (length a) \<le> kMaxBulkLength"
  shows "parse_bulks (pre @ concat (map reply_bulk xs) @ rest) (length xs) (length pre) as =
     Some (request_ok (length pre + length (concat (map reply_bulk xs))) (as @ xs))"
  using assms
proof (induction xs arbitrary: pre as)
  case (Cons a xs)
  have "parse_bulks (pre @ reply_bulk a @ concat (map reply_bulk xs) @ rest) (Suc (length xs))
      (length pre) as =
    parse_bulks ((pre @ reply_bulk a) @ concat (map reply_bulk xs) @ rest) (length xs)
      (length (pre @ reply_bulk a)) (as @ [a])"
    by (subst parse_bulks_step) (use Cons.prems in simp_all)
  with Cons.IH [of "pre @ reply_bulk a" "as @ [a]"] Cons.prems show ?case by (simp add: add.assoc)
qed simp

lemma parse_bulks_prefix:
  assumes "\<forall>a \<in> set xs. int (length a) \<le> kMaxBulkLength" "m < length (concat (map reply_bulk xs))"
  shows "parse_bulks (pre @ take m (concat (map reply_bulk xs))) (length xs) (length pre) as =
     Some incomplete"
  using assms
proof (induction xs arbitrary: pre as m)
  case (Cons a xs)
  show ?case
  proof (cases "m < length (reply_bulk a)")
    case True
    then show ?thesis using parse_bulks_torn [OF _ True] Cons.prems by simp
  next
    case False
    let ?t = "take (m - length (reply_bulk a)) (concat (map reply_bulk xs))"
    have "parse_bulks (pre @ reply_bulk a @ ?t) (Suc (length xs)) (length pre) as =
      parse_bulks ((pre @ reply_bulk a) @ ?t) (length xs) (length (pre @ reply_bulk a)) (as @ [a])"
      by (subst parse_bulks_step) (use Cons.prems in simp_all)
    also have "\<dots> = Some incomplete" using Cons False by (intro Cons.IH) auto
    finally show ?thesis using False by simp
  qed
qed simp

lemma wire_okD:
  assumes "wire_ok as"
  shows "length (to_string_nat (length as)) \<le> 9"
    and "parse_int (to_string_nat (length as)) = Some (int (length as))"
proof -
  have "int (length as) \<le> kMaxBulkLength"
    using assms by (simp add: wire_ok_def kMaxMultibulkLength_def kMaxBulkLength_def)
  from to_string_nat_small [OF this] show "length (to_string_nat (length as)) \<le> 9"
    and "parse_int (to_string_nat (length as)) = Some (int (length as))"
    by (simp_all add: parse_int_to_string_nat)
qed

lemma parse_request_header:
  assumes ok: "wire_ok as"
  shows "parse_request (reply_array_header (length as) @ x) =
     the (parse_bulks (reply_array_header (length as) @ x) (length as)
            (length (reply_array_header (length as))) [])"
proof -
  let ?D = "to_string_nat (length as)"
  let ?inp = "CHR ''*'' # ?D @ kCrlf @ x"
  have f: "find_crlf_from ?inp 0 = Some (1 + length ?D)"
    using find_crlf_header [of "CHR ''*''" "[]" "length as" x] by simp
  have t: "substr ?inp 1 (length ?D) = Some ?D" by (simp add: substr_def)
  have "parse_request_opt ?inp = parse_bulks ?inp (length as) (Suc (Suc (Suc (length ?D)))) []"
    using f t wire_okD(2) [OF ok] ok
    by (simp add: parse_request_opt_def char_at_def kCrlf_def Let_def wire_ok_def)
  then show ?thesis by (simp add: parse_request_def reply_array_header_def kCrlf_def)
qed

lemma parse_request_resp_array:
  assumes "wire_ok as"
  shows "parse_request (resp_array as @ rest) = request_ok (length (resp_array as)) as"
  using parse_request_header [OF assms, of "concat (map reply_bulk as) @ rest"]
    parse_bulks_roundtrip [of as "reply_array_header (length as)" rest "[]"] assms
  by (simp add: resp_array_def wire_ok_def)

lemma parse_request_prefix:
  assumes ok: "wire_ok as" and m: "m < length (resp_array as)"
  shows "parse_request (take m (resp_array as)) = incomplete"
proof (cases "m < length (reply_array_header (length as))")
  case True
  let ?D = "to_string_nat (length as)"
  have H: "reply_array_header (length as) = CHR ''*'' # ?D @ kCrlf"
    by (simp add: reply_array_header_def)
  have T: "take m (resp_array as) = take m (CHR ''*'' # ?D @ kCrlf)"
    using True by (simp only: resp_array_def H take_append) simp
  have "find_crlf (take m ((CHR ''*'' # ?D) @ kCrlf @ [])) = None"
    by (rule find_crlf_torn) (use True cr_not_digit in \<open>auto simp: H kCrlf_def\<close>)
  then have "find_crlf_from (take m (resp_array as)) 0 = None"
    unfolding T by (simp add: find_crlf_from_def)
  moreover have "length (take m (resp_array as)) \<le> 64"
    using True wire_okD(1) [OF ok] by (simp add: H kCrlf_def)
  moreover have "take m (resp_array as) = [] \<or> take m (resp_array as) ! 0 = CHR ''*''"
    unfolding T by (cases m) simp_all
  ultimately show ?thesis by (auto simp: parse_request_def parse_request_opt_def char_at_def)
next
  case False
  let ?h = "reply_array_header (length as)"
  have "parse_bulks (?h @ take (m - length ?h) (concat (map reply_bulk as))) (length as)
      (length ?h) [] = Some incomplete"
    using ok m False by (intro parse_bulks_prefix) (auto simp: wire_ok_def resp_array_def)
  with parse_request_header [OF ok] False show ?thesis by (simp add: resp_array_def)
qed

section \<open>Properties\<close>


text \<open>
  C14: \<open>parse_int\<close> accepts exactly the non-empty digit strings with an optional sign whose
  magnitude is at most \<open>INT64_MAX\<close>, and returns the number they denote.
\<close>
theorem parse_int_exact:
  "parse_int s = Some v \<longleftrightarrow>
     (\<exists>neg ds. int_syntax s neg ds \<and> int (dec_value 0 ds) \<le> int64_max \<and>
        v = (if neg then - int (dec_value 0 ds) else int (dec_value 0 ds)))"
  by (rule parse_int_spec)

text \<open>
  C11: A complete request consumes at least one byte and no more than there are, and is framed
  and decoded the same way whatever bytes follow it.
\<close>
theorem parse_request_framing:
  assumes "status (parse_request inp) = kOk"
  shows "0 < consumed (parse_request inp) \<and> consumed (parse_request inp) \<le> length inp \<and>
    parse_request (inp @ extra) = parse_request inp"
  using parse_request_progress [OF assms] parse_request_extend [OF assms] by simp

theorem parse_request_framing_witness:
  "parse_request (resp_array [''PING''] @ ''*9'') = parse_request (resp_array [''PING''])"
proof -
  have "status (parse_request (resp_array [''PING'']))= kOk"
    using parse_request_resp_array [of "[''PING'']" "[]"]
    by (simp add: wire_ok_def kMaxMultibulkLength_def kMaxBulkLength_def)
  then show ?thesis using parse_request_framing by blast
qed

text \<open>
  C9: Parsing inverts the encoding of a request as an array of bulk strings, for every
  argument vector within the limits and whatever bytes the arguments hold.
\<close>
theorem parse_request_roundtrip:
  assumes "wire_ok as"
  shows "parse_request (resp_array as @ rest) = request_ok (length (resp_array as)) as"
  using assms by (rule parse_request_resp_array)

theorem parse_request_roundtrip_witness:
  "parse_request (resp_array [''SET'', [CR, LF], []] @ ''x'') =
   request_ok (length (resp_array [''SET'', [CR, LF], []])) [''SET'', [CR, LF], []]"
  by (rule parse_request_roundtrip)
     (simp add: wire_ok_def kMaxMultibulkLength_def kMaxBulkLength_def)

text \<open>
  C12: Every proper prefix of an encoded request is incomplete: it is neither rejected nor
  taken for a shorter request, so a request may arrive in any number of pieces.
\<close>
theorem parse_request_prefix_incomplete:
  assumes "wire_ok as" "n < length (resp_array as)"
  shows "parse_request (take n (resp_array as)) = incomplete"
  using assms by (rule parse_request_prefix)

theorem parse_request_prefix_incomplete_witness:
  "parse_request (take 7 (resp_array [''PING''])) = incomplete"
  by (rule parse_request_prefix_incomplete)
     (simp_all add: wire_ok_def kMaxMultibulkLength_def kMaxBulkLength_def resp_array_def
       reply_array_header_def reply_bulk_def kCrlf_def to_string_nat.simps)

end
