(* ===== verification/Crc.thy ===== *)
theory Crc
  imports Prelude
begin

text \<open>
  The CRC64 of \<open>src/rdb.cpp\<close> (Jones polynomial, reflected): the 256-entry table is built
  by reflecting, shifting left with the polynomial and reflecting back, and \<open>crc64\<close> folds the
  bytes through the table. The reference is the bit-serial algorithm \<open>crc_bits\<close>, which
  shifts right with the reflected polynomial. The lemmas show that the table routine computes
  the reference, that it is linear, and that two inputs of equal length that differ only within
  eight consecutive bytes never have the same checksum.
\<close>

unbundle bit_operations_syntax

section \<open>The code\<close>

definition kPoly :: "64 word" where
  "kPoly = 0xad93d23594c935a9"

definition reflect :: "64 word \<Rightarrow> nat \<Rightarrow> 64 word" where
  "reflect value bits =
     foldl (\<lambda>out i. if value AND push_bit i 1 \<noteq> 0 then out OR push_bit (bits - 1 - i) 1 else out)
       0 [0..<bits]"

definition crc_shift :: "64 word \<Rightarrow> 64 word" where
  "crc_shift crc =
     (if crc AND 0x8000000000000000 \<noteq> 0 then push_bit 1 crc XOR kPoly else push_bit 1 crc)"

definition crc_entry :: "nat \<Rightarrow> 64 word" where
  "crc_entry n = reflect ((crc_shift ^^ 8) (push_bit 56 (reflect (of_nat n) 8))) 64"

definition crc_table :: "64 word list" where
  "crc_table = map crc_entry [0..<256]"

definition byte_word :: "char \<Rightarrow> 64 word" where
  "byte_word c = of_nat (code c)"

definition crc64_step :: "64 word \<Rightarrow> char \<Rightarrow> 64 word" where
  "crc64_step crc b = crc_table ! unat ((crc XOR byte_word b) AND 0xFF) XOR drop_bit 8 crc"

definition crc64 :: "64 word \<Rightarrow> string \<Rightarrow> 64 word" where
  "crc64 crc data = foldl crc64_step crc data"

section \<open>The bit-serial reference\<close>

definition kPolyReflected :: "64 word" where
  "kPolyReflected = 0x95ac9329ac4bc9b5"

definition crc_bit :: "64 word \<Rightarrow> 64 word" where
  "crc_bit x = (if bit x 0 then drop_bit 1 x XOR kPolyReflected else drop_bit 1 x)"

definition crc_bits :: "64 word \<Rightarrow> string \<Rightarrow> 64 word" where
  "crc_bits crc data = foldl (\<lambda>c b. (crc_bit ^^ 8) (c XOR byte_word b)) crc data"

section \<open>Reflection\<close>

lemma and_push_bit_iff: "v AND push_bit i 1 \<noteq> 0 \<longleftrightarrow> bit v i" for v :: "64 word"
proof -
  have "v AND push_bit i 1 = (if bit v i then push_bit i 1 else 0)"
    by (rule bit_word_eqI) (auto simp: bit_and_iff bit_exp_iff)
  moreover have "bit v i \<Longrightarrow> push_bit i (1 :: 64 word) \<noteq> 0"
    by (metis bit_imp_possible_bit bit_exp_iff bit_0_eq bot_apply bot_bool_def push_bit_of_1)
  ultimately show ?thesis by auto
qed

lemma bit_reflect_loop:
  fixes v :: "64 word"
  assumes "k \<le> bits" "bits \<le> 64"
  shows "bit (foldl (\<lambda>out i. if v AND push_bit i 1 \<noteq> 0 then out OR push_bit (bits - 1 - i) 1 else out)
      (0 :: 64 word) [0..<k]) j \<longleftrightarrow> j < bits \<and> bits - k \<le> j \<and> bit v (bits - 1 - j)"
  using assms
proof (induction k)
  case (Suc k)
  have j: "bit (push_bit (bits - 1 - k) (1 :: 64 word)) j \<longleftrightarrow> j = bits - 1 - k"
    using Suc.prems by (auto simp: bit_exp_iff)
  show ?case using Suc j
    by (auto simp: and_push_bit_iff bit_or_iff Suc_diff_Suc simp del: push_bit_of_1)
qed auto

lemma bit_reflect: "bits \<le> 64 \<Longrightarrow> bit (reflect v bits) j \<longleftrightarrow> j < bits \<and> bit v (bits - 1 - j)"
  unfolding reflect_def using bit_reflect_loop [of bits bits v j] by auto


lemma bit_kPolyReflected: "j < 64 \<Longrightarrow> bit kPolyReflected j \<longleftrightarrow> bit kPoly (63 - j)"
proof -
  assume "j < 64"
  have "\<forall>j \<in> set [0..<64]. bit kPolyReflected j \<longleftrightarrow> bit kPoly (63 - j)"
    unfolding kPoly_def kPolyReflected_def by code_simp
  with \<open>j < 64\<close> show ?thesis by simp
qed

lemma top_bit: "x AND 0x8000000000000000 \<noteq> 0 \<longleftrightarrow> bit x 63" for x :: "64 word"
  using and_push_bit_iff [of x 63] by simp

lemma reflect_shift: "reflect (crc_shift x) 64 = crc_bit (reflect x 64)"
proof (rule bit_word_eqI)
  fix j assume "j < LENGTH(64)"
  then have j: "j < 64" by simp
  have "bit (crc_shift x) (63 - j) \<longleftrightarrow>
      (j < 63 \<and> bit x (62 - j)) \<noteq> (bit x 63 \<and> bit kPoly (63 - j))"
    using j unfolding crc_shift_def top_bit
    by (cases "bit x 63"; simp only: if_True if_False bit_xor_iff bit_push_bit_iff) auto
  moreover have "bit (crc_bit (reflect x 64)) j \<longleftrightarrow>
      (j < 63 \<and> bit x (62 - j)) \<noteq> (bit x 63 \<and> bit kPoly (63 - j))"
    using j by (auto simp: crc_bit_def bit_xor_iff bit_drop_bit_eq bit_reflect bit_kPolyReflected)
  ultimately show "bit (reflect (crc_shift x) 64) j \<longleftrightarrow> bit (crc_bit (reflect x 64)) j"
    using j by (simp add: bit_reflect)
qed

lemma reflect_shifts: "reflect ((crc_shift ^^ n) x) 64 = (crc_bit ^^ n) (reflect x 64)"
  by (induction n) (simp_all add: reflect_shift)

lemma reflect_byte:
  assumes "n < 256"
  shows "reflect (push_bit 56 (reflect (of_nat n) 8)) 64 = of_nat n"
proof (rule bit_word_eqI)
  fix j assume "j < LENGTH(64)"
  then have j: "j < 64" by simp
  have "bit (of_nat n :: 64 word) j \<Longrightarrow> j < 8"
  proof (rule ccontr)
    assume b: "bit (of_nat n :: 64 word) j" and "\<not> j < 8"
    then have "n < 2 ^ j" using assms power_increasing [of 8 j "2 :: nat"] by simp
    then have "\<not> bit n j" by (simp add: bit_iff_odd)
    with b show False by (simp add: bit_of_nat_iff)
  qed
  then show "bit (reflect (push_bit 56 (reflect (of_nat n) 8)) 64) j \<longleftrightarrow> bit (of_nat n :: 64 word) j"
    using j by (auto simp: bit_reflect bit_push_bit_iff)
qed

lemma crc_entry_eq: "n < 256 \<Longrightarrow> crc_entry n = (crc_bit ^^ 8) (of_nat n)"
  by (simp add: crc_entry_def reflect_shifts reflect_byte)

section \<open>Linearity\<close>

lemma crc_bit_xor: "crc_bit (a XOR b) = crc_bit a XOR crc_bit b"
  by (rule bit_word_eqI) (auto simp: crc_bit_def bit_xor_iff bit_drop_bit_eq)

lemma crc_bits_xor: "(crc_bit ^^ n) (a XOR b) = (crc_bit ^^ n) a XOR (crc_bit ^^ n) b"
  by (induction n) (simp_all add: crc_bit_xor)

lemma crc_bit_push: "x AND mask n = 0 \<Longrightarrow> (crc_bit ^^ n) x = drop_bit n x"
proof (induction n)
  case (Suc n)
  have low: "\<not> bit x i" if "i < Suc n" for i
    using Suc.prems that by (metis bit_and_iff bit_mask_iff bit_0_eq bot_apply bot_bool_def
        bit_imp_possible_bit)
  then have "x AND mask n = 0"
    by (intro bit_word_eqI) (auto simp: bit_and_iff bit_mask_iff)
  with Suc.IH have "(crc_bit ^^ Suc n) x = crc_bit (drop_bit n x)" by simp
  also have "\<dots> = drop_bit (Suc n) x"
    using low [of n] by (simp add: crc_bit_def bit_drop_bit_eq add.commute)
  finally show ?case .
qed simp

lemma crc_bit_push8:
  assumes "\<And>i. bit w i \<Longrightarrow> i < 56"
  shows "(crc_bit ^^ 8) (push_bit 8 w) = w"
proof -
  have "push_bit 8 w AND mask 8 = 0"
    by (rule bit_word_eqI) (simp only: bit_and_iff bit_push_bit_iff bit_mask_iff, auto)
  then have "(crc_bit ^^ 8) (push_bit 8 w) = drop_bit 8 (push_bit 8 w)" by (rule crc_bit_push)
  also have "\<dots> = w"
    by (rule bit_word_eqI) (use assms in \<open>force simp: bit_push_bit_iff bit_drop_bit_eq\<close>)
  finally show ?thesis .
qed

lemma bit_ff: "bit (0xFF :: 64 word) n \<longleftrightarrow> n < 8"
  using bit_mask_iff [of 8 n, where 'a = "64 word"] by (auto simp: mask_eq_exp_minus_1)

lemma byte_split: "x = (x AND 0xFF) XOR push_bit 8 (drop_bit 8 x)" for x :: "64 word"
  by (intro bit_word_eqI) (auto simp: bit_xor_iff bit_and_iff bit_push_bit_iff bit_drop_bit_eq bit_ff
      simp del: bit_numeral_word_iff)


lemma bit_byte_word: "bit (byte_word b) n \<Longrightarrow> n < 8"
proof (rule ccontr)
  assume b: "bit (byte_word b) n" and "\<not> n < 8"
  then have "code b < 2 ^ n"
    using less_le_trans [OF code_less [of b]] power_increasing [of 8 n "2 :: nat"] by simp
  then have "\<not> bit (code b) n" by (simp add: bit_iff_odd)
  with b show False by (simp add: byte_word_def bit_of_nat_iff)
qed

lemma drop_byte_word: "drop_bit 8 (byte_word b) = 0"
  by (rule bit_word_eqI) (auto simp: bit_drop_bit_eq dest: bit_byte_word)

lemma crc64_step_eq: "crc64_step c b = (crc_bit ^^ 8) (c XOR byte_word b)"
proof -
  let ?x = "c XOR byte_word b"
  have "?x AND 0xFF < 256" by (rule le_less_trans [OF word_and_le1]) simp
  then have n: "unat (?x AND 0xFF) < 256" by (simp add: word_less_nat_alt)
  have "(crc_bit ^^ 8) (push_bit 8 (drop_bit 8 ?x)) = drop_bit 8 ?x"
    by (rule crc_bit_push8, simp only: bit_drop_bit_eq o_def) (drule bit_imp_le_length, simp)
  also have "\<dots> = drop_bit 8 c" by (simp add: drop_bit_xor drop_byte_word)
  finally have "(crc_bit ^^ 8) ?x = (crc_bit ^^ 8) (?x AND 0xFF) XOR drop_bit 8 c"
    by (subst byte_split [of ?x]) (simp only: crc_bits_xor)
  moreover have "crc_table ! unat (?x AND 0xFF) = (crc_bit ^^ 8) (?x AND 0xFF)"
    using n crc_entry_eq [OF n] by (simp add: crc_table_def del: funpow.simps)
  ultimately show ?thesis by (simp only: crc64_step_def)
qed

lemma crc64_bits: "crc64 c data = crc_bits c data"
  unfolding crc64_def crc_bits_def by (induction data arbitrary: c) (simp_all only: foldl.simps crc64_step_eq)

section \<open>Error detection\<close>

lemma bit_top_kPolyReflected: "bit kPolyReflected 63"
  by (simp add: kPolyReflected_def)

lemma inj_crc_bit: "crc_bit x = 0 \<Longrightarrow> x = 0"
proof -
  assume z: "crc_bit x = 0"
  have "\<not> bit x 0"
  proof
    assume "bit x 0"
    then have "bit (crc_bit x) 63"
      by (simp add: crc_bit_def bit_xor_iff bit_drop_bit_eq bit_top_kPolyReflected impossible_bit)
    with z show False by simp
  qed
  with z have d: "drop_bit 1 x = 0" by (simp add: crc_bit_def)
  show "x = 0"
  proof (rule bit_word_eqI)
    fix n
    show "bit x n \<longleftrightarrow> bit (0 :: 64 word) n"
    proof (cases n)
      case (Suc m)
      have "bit (drop_bit 1 x) m = bit x n" by (simp add: bit_drop_bit_eq Suc)
      with d show ?thesis by simp
    qed (use \<open>\<not> bit x 0\<close> in simp)
  qed
qed

lemma inj_crc_bits: "(crc_bit ^^ n) x = 0 \<Longrightarrow> x = 0"
  by (induction n) (auto dest: inj_crc_bit)

lemma xor_zero_iff: "a XOR b = 0 \<longleftrightarrow> a = b" for a b :: "64 word"
  using xor.assoc [of a b b] by auto

lemma crc64_step_inj_state: "crc64_step c b = crc64_step d b \<longleftrightarrow> c = d"
proof
  assume "crc64_step c b = crc64_step d b"
  then have "(crc_bit ^^ 8) ((c XOR byte_word b) XOR (d XOR byte_word b)) = 0"
    by (simp only: crc64_step_eq crc_bits_xor xor_self_eq)
  then have "(c XOR byte_word b) XOR (d XOR byte_word b) = 0" by (rule inj_crc_bits)
  then have "c XOR byte_word b = d XOR byte_word b" by (simp only: xor_zero_iff)
  then have "(c XOR byte_word b) XOR byte_word b = (d XOR byte_word b) XOR byte_word b" by (simp only:)
  then show "c = d" by (simp only: xor.assoc xor_self_eq xor.right_neutral)
qed simp

lemma crc64_inj_state: "crc64 c xs = crc64 d xs \<longleftrightarrow> c = d"
  by (induction xs arbitrary: c d) (simp_all add: crc64_def crc64_step_inj_state)

lemma crc64_append: "crc64 c (xs @ ys) = crc64 (crc64 c xs) ys"
  by (simp add: crc64_def)

text \<open>Up to eight bytes, read as a little-endian word.\<close>

primrec le_word :: "string \<Rightarrow> 64 word" where
  "le_word [] = 0"
| "le_word (b # bs) = byte_word b XOR push_bit 8 (le_word bs)"

lemma bit_le_word: "bit (le_word bs) n \<Longrightarrow> n < 8 * length bs"
proof (induction bs arbitrary: n)
  case (Cons b bs)
  have "bit (byte_word b) n \<or> (8 \<le> n \<and> bit (le_word bs) (n - 8))"
    using Cons.prems by (auto simp: bit_xor_iff bit_push_bit_iff)
  then show ?case
  proof
    assume "bit (byte_word b) n"
    then show ?thesis using bit_byte_word [of b n] by simp
  next
    assume "8 \<le> n \<and> bit (le_word bs) (n - 8)"
    then show ?thesis using Cons.IH [of "n - 8"] by simp
  qed
qed simp

lemma crc64_le_word:
  "length bs \<le> 8 \<Longrightarrow> crc64 c bs = (crc_bit ^^ (8 * length bs)) (c XOR le_word bs)"
proof (induction bs arbitrary: c)
  case (Cons b bs)
  let ?n = "8 * length bs"
  have "(crc_bit ^^ 8) (push_bit 8 (le_word bs)) = le_word bs"
    by (rule crc_bit_push8) (use Cons.prems bit_le_word [of bs] in fastforce)
  then have "(crc_bit ^^ (?n + 8)) ((c XOR byte_word b) XOR push_bit 8 (le_word bs)) =
      (crc_bit ^^ ?n) ((crc_bit ^^ 8) (c XOR byte_word b) XOR le_word bs)"
    by (simp only: funpow_add o_apply crc_bits_xor [of 8])
  moreover have "crc64 c (b # bs) = crc64 ((crc_bit ^^ 8) (c XOR byte_word b)) bs"
    by (simp only: crc64_def foldl.simps crc64_step_eq)
  ultimately show ?case
    using Cons.IH Cons.prems by (simp only: le_word.simps xor.assoc list.size, simp add: add.commute)
qed (simp add: crc64_def)

lemma byte_word_inj: "byte_word a = byte_word b \<longleftrightarrow> a = b"
proof
  assume "byte_word a = byte_word b"
  then have "unat (of_nat (code a) :: 64 word) = unat (of_nat (code b) :: 64 word)"
    by (simp only: byte_word_def)
  moreover have "code a < 2 ^ LENGTH(64)" "code b < 2 ^ LENGTH(64)"
    using less_le_trans [OF code_less] by simp_all
  ultimately show "a = b" by (simp add: unat_of_nat)
qed simp

lemma le_word_inj:
  "length xs = length ys \<Longrightarrow> length xs \<le> 8 \<Longrightarrow> le_word xs = le_word ys \<Longrightarrow> xs = ys"
proof (induction xs ys rule: list_induct2)
  case (Cons x xs y ys)
  have eq: "bit (byte_word x XOR push_bit 8 (le_word xs)) n = bit (byte_word y XOR push_bit 8 (le_word ys)) n" for n
    using Cons.prems(2) by simp
  have "byte_word x = byte_word y"
  proof (rule bit_word_eqI)
    fix n show "bit (byte_word x) n = bit (byte_word y) n"
      using eq [of n] bit_byte_word [of x n] bit_byte_word [of y n]
      by (cases "n < 8") (auto simp: bit_xor_iff bit_push_bit_iff)
  qed
  moreover have "le_word xs = le_word ys"
  proof (rule bit_word_eqI)
    fix n
    show "bit (le_word xs) n = bit (le_word ys) n"
    proof (cases "n < 56")
      case True
      then show ?thesis
        using eq [of "n + 8"] bit_byte_word [of x "n + 8"] bit_byte_word [of y "n + 8"]
        by (auto simp: bit_xor_iff bit_push_bit_iff)
    next
      case False
      then show ?thesis using bit_le_word [of xs n] bit_le_word [of ys n] Cons.hyps Cons.prems(1) by fastforce
    qed
  qed
  ultimately show ?case using Cons.IH Cons.prems(1) by (simp add: byte_word_inj)
qed simp

lemma crc64_burst:
  assumes "length x = length y" "length x \<le> 8" "x \<noteq> y"
  shows "crc64 c (p @ x @ q) \<noteq> crc64 c (p @ y @ q)"
proof
  let ?c = "crc64 c p" and ?n = "8 * length x"
  assume "crc64 c (p @ x @ q) = crc64 c (p @ y @ q)"
  then have "crc64 ?c x = crc64 ?c y" by (simp add: crc64_append crc64_inj_state)
  then have "(crc_bit ^^ ?n) (?c XOR le_word x) = (crc_bit ^^ ?n) (?c XOR le_word y)"
    using assms by (simp add: crc64_le_word)
  then have "(crc_bit ^^ ?n) ((?c XOR le_word x) XOR (?c XOR le_word y)) = 0"
    by (simp only: crc_bits_xor xor_self_eq)
  then have "?c XOR le_word x = ?c XOR le_word y"
    using inj_crc_bits xor_zero_iff by blast
  then have "?c XOR (?c XOR le_word x) = ?c XOR (?c XOR le_word y)" by (simp only:)
  then have "le_word x = le_word y" by (simp only: xor.assoc [symmetric] xor_self_eq xor.left_neutral)
  with le_word_inj assms show False by blast
qed

section \<open>Properties\<close>

text \<open>
  C22: The table-driven checksum computes the bit-serial CRC with the reflected Jones
  polynomial, from any starting value and on any bytes.
\<close>
theorem crc64_table_correct: "crc64 crc data = crc_bits crc data"
  by (rule crc64_bits)

text \<open>
  C23: Two inputs of equal length that differ only within eight consecutive bytes never have
  the same checksum.
\<close>
theorem crc64_detects_bursts:
  assumes "length x = length y" "length x \<le> 8" "x \<noteq> y"
  shows "crc64 crc (p @ x @ q) \<noteq> crc64 crc (p @ y @ q)"
  using assms by (rule crc64_burst)

theorem crc64_detects_bursts_witness:
  "crc64 0 (''RED'' @ ''I'' @ ''S'') \<noteq> crc64 0 (''RED'' @ ''J'' @ ''S'')"
  by (rule crc64_detects_bursts) simp_all

end
