(* ===== verification/Umap.thy ===== *)
theory Umap
  imports Prelude
begin

text \<open>
  \<open>std::unordered_map<std::string, V>\<close>, the container of the keyspace and of the expiry
  index: a table of buckets with separate chaining. The hash function and the policy
  that chooses the bucket count on insertion are implementation-defined, so they are fields of
  the container; a fresh container may have any number of buckets, none included. Erasing
  and clearing never change the bucket count. The bucket table is part of the model because
  the active expiry cycle walks it (\<open>bucket_count\<close>, \<open>begin(bucket)\<close>).

  The interface the clients rely on is the locale \<open>assoc_map\<close>, interpreted at the end on
  the operations of the table.
\<close>

record 'v umap =
  um_hash :: "string \<Rightarrow> nat"
  um_policy :: "nat \<Rightarrow> nat \<Rightarrow> nat"
  um_buckets :: "(string \<times> 'v) list list"

definition um_new :: "(string \<Rightarrow> nat) \<Rightarrow> (nat \<Rightarrow> nat \<Rightarrow> nat) \<Rightarrow> nat \<Rightarrow> 'v umap" where
  "um_new h pol n = \<lparr>um_hash = h, um_policy = pol, um_buckets = replicate n []\<rparr>"

definition um_bucket_count :: "'v umap \<Rightarrow> nat" where
  "um_bucket_count m = length (um_buckets m)"

definition um_index :: "'v umap \<Rightarrow> string \<Rightarrow> nat" where
  "um_index m k = um_hash m k mod um_bucket_count m"

definition um_entries :: "'v umap \<Rightarrow> (string \<times> 'v) list" where
  "um_entries m = concat (um_buckets m)"

definition um_size :: "'v umap \<Rightarrow> nat" where
  "um_size m = length (um_entries m)"

definition um_find :: "'v umap \<Rightarrow> string \<Rightarrow> 'v option" where
  "um_find m k =
     (if um_bucket_count m = 0 then None else map_of (um_buckets m ! um_index m k) k)"

definition um_rehash :: "'v umap \<Rightarrow> nat \<Rightarrow> 'v umap" where
  "um_rehash m n =
     m\<lparr>um_buckets := map (\<lambda>i. filter (\<lambda>p. um_hash m (fst p) mod n = i) (um_entries m)) [0..<n]\<rparr>"

definition um_insert_new :: "'v umap \<Rightarrow> string \<Rightarrow> 'v \<Rightarrow> 'v umap" where
  "um_insert_new m k v =
     m\<lparr>um_buckets := (um_buckets m)[um_index m k := (k, v) # um_buckets m ! um_index m k]\<rparr>"

definition um_assign :: "'v umap \<Rightarrow> string \<Rightarrow> 'v \<Rightarrow> 'v umap" where
  "um_assign m k v =
     (case um_find m k of
        Some _ \<Rightarrow>
          m\<lparr>um_buckets := (um_buckets m)[um_index m k :=
             map (\<lambda>p. if fst p = k then (k, v) else p) (um_buckets m ! um_index m k)]\<rparr>
      | None \<Rightarrow>
          (let n = max 1 (um_policy m (um_bucket_count m) (Suc (um_size m)))
           in um_insert_new (if n = um_bucket_count m then m else um_rehash m n) k v))"

definition um_erase :: "'v umap \<Rightarrow> string \<Rightarrow> 'v umap" where
  "um_erase m k =
     m\<lparr>um_buckets := (um_buckets m)[um_index m k :=
        filter (\<lambda>p. fst p \<noteq> k) (um_buckets m ! um_index m k)]\<rparr>"

definition um_clear :: "'v umap \<Rightarrow> 'v umap" where
  "um_clear m = m\<lparr>um_buckets := map (\<lambda>_. []) (um_buckets m)\<rparr>"

definition um_inv :: "'v umap \<Rightarrow> bool" where
  "um_inv m \<longleftrightarrow>
     (\<forall>i < um_bucket_count m.
        distinct (map fst (um_buckets m ! i)) \<and>
        (\<forall>p \<in> set (um_buckets m ! i). um_index m (fst p) = i))"

section \<open>The interface of an associative container\<close>

locale assoc_map =
  fixes find :: "'m \<Rightarrow> string \<Rightarrow> 'v option"
    and assign :: "'m \<Rightarrow> string \<Rightarrow> 'v \<Rightarrow> 'm"
    and erase :: "'m \<Rightarrow> string \<Rightarrow> 'm"
    and clear :: "'m \<Rightarrow> 'm"
    and entries :: "'m \<Rightarrow> (string \<times> 'v) list"
    and invar :: "'m \<Rightarrow> bool"
  assumes invar_assign [simp]: "invar m \<Longrightarrow> invar (assign m k v)"
    and invar_erase [simp]: "invar m \<Longrightarrow> invar (erase m k)"
    and invar_clear [simp]: "invar (clear m)"
    and find_assign [simp]: "invar m \<Longrightarrow> find (assign m k v) = (find m)(k \<mapsto> v)"
    and find_erase [simp]: "invar m \<Longrightarrow> find (erase m k) = (find m)(k := None)"
    and find_clear [simp]: "find (clear m) = Map.empty"
    and map_of_entries: "invar m \<Longrightarrow> map_of (entries m) = find m"
    and distinct_entries: "invar m \<Longrightarrow> distinct (map fst (entries m))"
begin

definition erase_all :: "'m \<Rightarrow> string list \<Rightarrow> 'm" where
  "erase_all = foldl erase"

lemma entries_iff: "invar m \<Longrightarrow> (k, v) \<in> set (entries m) \<longleftrightarrow> find m k = Some v"
  by (simp add: map_of_entries [symmetric] distinct_entries)

lemma fst_entries: "invar m \<Longrightarrow> fst ` set (entries m) = dom (find m)"
  by (simp add: map_of_entries [symmetric] dom_map_of_conv_image_fst)

lemma finite_dom: "invar m \<Longrightarrow> finite (dom (find m))"
  by (simp add: map_of_entries [symmetric] finite_dom_map_of)

lemma length_entries: "invar m \<Longrightarrow> length (entries m) = card (dom (find m))"
  using distinct_card [OF distinct_entries, of m] by (simp add: fst_entries)

lemma length_filter_entries:
  assumes "invar m"
  shows "length (filter P (entries m)) = card {k. \<exists>v. find m k = Some v \<and> P (k, v)}"
proof -
  have "distinct (map fst (filter P (entries m)))"
    using distinct_entries [OF assms] by (simp add: distinct_map_filter)
  then have "length (filter P (entries m)) = card (set (map fst (filter P (entries m))))"
    by (metis distinct_card length_map)
  also have "set (map fst (filter P (entries m))) = {k. \<exists>v. find m k = Some v \<and> P (k, v)}"
    using entries_iff [OF assms] by force
  finally show ?thesis .
qed

lemma invar_erase_all [simp]: "invar m \<Longrightarrow> invar (erase_all m ks)"
  by (induction ks arbitrary: m) (simp_all add: erase_all_def)

lemma find_erase_all [simp]: "invar m \<Longrightarrow> find (erase_all m ks) = find m |` (- set ks)"
  by (induction ks arbitrary: m)
     (auto simp: erase_all_def restrict_map_def fun_eq_iff)

lemma assign_overrides: "invar m \<Longrightarrow> find (assign (assign m k v) k w) = find (assign m k w)"
  by simp

end

section \<open>The bucket table provides the interface\<close>

lemma um_bucket_count_simps [simp]:
  "um_bucket_count (um_erase m k) = um_bucket_count m"
  "um_bucket_count (um_clear m) = um_bucket_count m"
  "um_bucket_count (um_insert_new m k v) = um_bucket_count m"
  "um_bucket_count (um_rehash m n) = n"
  "um_bucket_count (um_new h pol n) = n"
  by (simp_all add: um_bucket_count_def um_erase_def um_clear_def um_insert_new_def
      um_rehash_def um_new_def)

lemma um_hash_simps [simp]:
  "um_hash (um_erase m k) = um_hash m"
  "um_hash (um_clear m) = um_hash m"
  "um_hash (um_insert_new m k v) = um_hash m"
  "um_hash (um_rehash m n) = um_hash m"
  by (simp_all add: um_erase_def um_clear_def um_insert_new_def um_rehash_def)

lemma um_index_less: "um_bucket_count m \<noteq> 0 \<Longrightarrow> um_index m k < um_bucket_count m"
  by (simp add: um_index_def)

lemma um_index_simps [simp]:
  "um_index (um_erase m k) = um_index m"
  "um_index (um_insert_new m k v) = um_index m"
  "um_index (m\<lparr>um_buckets := bs\<rparr>) k = um_hash m k mod length bs"
  by (simp_all add: um_index_def fun_eq_iff) (simp_all add: um_bucket_count_def)

lemma um_invD:
  assumes "um_inv m" "i < um_bucket_count m"
  shows "distinct (map fst (um_buckets m ! i))"
    and "p \<in> set (um_buckets m ! i) \<Longrightarrow> um_index m (fst p) = i"
  using assms by (auto simp: um_inv_def)

lemma um_entries_find:
  assumes inv: "um_inv m"
  shows "(k, v) \<in> set (um_entries m) \<longleftrightarrow> um_find m k = Some v"
proof
  assume "(k, v) \<in> set (um_entries m)"
  then obtain i where i: "i < um_bucket_count m" and kv: "(k, v) \<in> set (um_buckets m ! i)"
    unfolding um_entries_def um_bucket_count_def by (metis UN_E in_set_conv_nth set_concat)
  with um_invD [OF inv i] have "um_index m k = i" and "map_of (um_buckets m ! i) k = Some v"
    by fastforce+
  with i show "um_find m k = Some v" by (simp add: um_find_def)
next
  assume "um_find m k = Some v"
  then have n: "um_bucket_count m \<noteq> 0" and "map_of (um_buckets m ! um_index m k) k = Some v"
    by (auto simp: um_find_def split: if_splits)
  then have "(k, v) \<in> set (um_buckets m ! um_index m k)" by (simp add: map_of_SomeD)
  with um_index_less [OF n, of k] show "(k, v) \<in> set (um_entries m)"
    by (auto simp: um_entries_def um_bucket_count_def)
qed

lemma distinct_concat_classes:
  assumes "\<And>i. i < length bs \<Longrightarrow> distinct (map fst (bs ! i))"
    and "\<And>i p. i < length bs \<Longrightarrow> p \<in> set (bs ! i) \<Longrightarrow> f (fst p) = b + i"
  shows "distinct (map fst (concat bs))"
  using assms
proof (induction bs arbitrary: b)
  case (Cons x bs)
  have tl: "f (fst p) = Suc b + i" if "i < length bs" "p \<in> set (bs ! i)" for i p
    using Cons.prems(2) [of "Suc i" p] that by simp
  have hd: "f (fst p) = b" if "p \<in> set x" for p
    using Cons.prems(2) [of 0 p] that by simp
  have "fst p \<noteq> fst q" if "p \<in> set x" "q \<in> set (concat bs)" for p q
  proof -
    from that(2) obtain i where "i < length bs" "q \<in> set (bs ! i)"
      by (metis UN_E in_set_conv_nth set_concat)
    then show ?thesis using tl [of i q] hd [OF that(1)] by auto
  qed
  then have "set (map fst x) \<inter> set (map fst (concat bs)) = {}" by fastforce
  moreover have "distinct (map fst x)" using Cons.prems(1) [of 0] by simp
  moreover have "distinct (map fst (concat bs))"
    using Cons.prems(1) [of "Suc i" for i] by (intro Cons.IH [of "Suc b"]) (simp_all add: tl)
  ultimately show ?case by simp
qed simp

lemma um_distinct_entries: "um_inv m \<Longrightarrow> distinct (map fst (um_entries m))"
  unfolding um_entries_def
  by (rule distinct_concat_classes [where f = "um_index m" and b = 0])
     (auto simp: um_inv_def um_bucket_count_def)

lemma um_map_of_entries: "um_inv m \<Longrightarrow> map_of (um_entries m) = um_find m"
  by (rule ext, metis map_of_eq_Some_iff not_None_eq um_distinct_entries um_entries_find)

lemma um_inv_rehash:
  assumes "um_inv m"
  shows "um_inv (um_rehash m n)"
  unfolding um_inv_def
proof (intro allI impI conjI ballI)
  fix i p assume i: "i < um_bucket_count (um_rehash m n)"
  have b: "um_buckets (um_rehash m n) ! i =
      filter (\<lambda>p. um_hash m (fst p) mod n = i) (um_entries m)"
    using i by (simp add: um_rehash_def um_bucket_count_def)
  show "distinct (map fst (um_buckets (um_rehash m n) ! i))"
    using um_distinct_entries [OF assms] by (simp add: b distinct_map_filter)
  assume "p \<in> set (um_buckets (um_rehash m n) ! i)"
  then show "um_index (um_rehash m n) (fst p) = i" by (simp add: b um_index_def)
qed

lemma um_find_rehash:
  assumes "um_inv m" "0 < n"
  shows "um_find (um_rehash m n) = um_find m"
proof -
  have "(k, v) \<in> set (um_entries (um_rehash m n)) \<longleftrightarrow> (k, v) \<in> set (um_entries m)" for k v
    using assms(2) unfolding um_rehash_def by (subst um_entries_def) auto
  then have "um_find (um_rehash m n) k = Some v \<longleftrightarrow> um_find m k = Some v" for k v
    by (simp flip: um_entries_find [OF assms(1)] um_entries_find [OF um_inv_rehash [OF assms(1)]])
  then show ?thesis by (metis ext not_None_eq)
qed

lemma um_find_upd_bucket:
  assumes "um_index m k = i" "um_bucket_count m \<noteq> 0"
    and other: "\<And>x. x \<noteq> k \<Longrightarrow> map_of b x = map_of (um_buckets m ! i) x"
  shows "um_find (m\<lparr>um_buckets := (um_buckets m)[i := b]\<rparr>) = (um_find m)(k := map_of b k)"
proof
  fix x
  have i: "i < length (um_buckets m)"
    using assms um_index_less by (force simp: um_bucket_count_def)
  show "um_find (m\<lparr>um_buckets := (um_buckets m)[i := b]\<rparr>) x = ((um_find m)(k := map_of b k)) x"
    using assms(1,2) other [of x] i
    by (cases "x = k") (auto simp: um_find_def um_bucket_count_def um_index_def nth_list_update)
qed

lemma um_inv_upd_bucket:
  assumes "um_inv m" "distinct (map fst b)" "\<forall>p \<in> set b. um_index m (fst p) = i"
  shows "um_inv (m\<lparr>um_buckets := (um_buckets m)[i := b]\<rparr>)"
  unfolding um_inv_def
proof (intro allI impI)
  fix j assume "j < um_bucket_count (m\<lparr>um_buckets := (um_buckets m)[i := b]\<rparr>)"
  then have j: "j < um_bucket_count m" by (simp add: um_bucket_count_def)
  have "um_index (m\<lparr>um_buckets := (um_buckets m)[i := b]\<rparr>) = um_index m"
    by (simp add: um_index_def um_bucket_count_def fun_eq_iff)
  with j assms show "distinct (map fst (um_buckets (m\<lparr>um_buckets := (um_buckets m)[i := b]\<rparr>) ! j)) \<and>
      (\<forall>p \<in> set (um_buckets (m\<lparr>um_buckets := (um_buckets m)[i := b]\<rparr>) ! j).
         um_index (m\<lparr>um_buckets := (um_buckets m)[i := b]\<rparr>) (fst p) = j)"
    by (cases "j = i") (auto simp: um_inv_def um_bucket_count_def)
qed

lemma um_erase_correct:
  assumes inv: "um_inv m"
  shows "um_inv (um_erase m k)" and "um_find (um_erase m k) = (um_find m)(k := None)"
proof -
  show "um_inv (um_erase m k)"
  proof (cases "um_bucket_count m = 0")
    case True
    then show ?thesis by (simp add: um_inv_def)
  next
    case False
    note i = um_index_less [OF False, of k]
    show ?thesis unfolding um_erase_def
      using um_invD [OF inv i] by (intro um_inv_upd_bucket inv) (auto simp: distinct_map_filter)
  qed
  show "um_find (um_erase m k) = (um_find m)(k := None)"
  proof (cases "um_bucket_count m = 0")
    case True
    then show ?thesis by (auto simp: um_find_def)
  next
    case False
    have "map_of (filter (\<lambda>p. fst p \<noteq> k) b) x = (if x = k then None else map_of b x)"
      for b :: "(string \<times> 'a) list" and x
      by (induction b) auto
    with False show ?thesis unfolding um_erase_def by (subst um_find_upd_bucket [of _ k]) auto
  qed
qed

lemma um_insert_new_correct:
  assumes inv: "um_inv m" and none: "um_find m k = None" and n: "um_bucket_count m \<noteq> 0"
  shows "um_inv (um_insert_new m k v)" and "um_find (um_insert_new m k v) = (um_find m)(k \<mapsto> v)"
proof -
  note i = um_index_less [OF n, of k]
  have k: "k \<notin> fst ` set (um_buckets m ! um_index m k)"
    using none n by (simp add: um_find_def map_of_eq_None_iff)
  show "um_inv (um_insert_new m k v)" unfolding um_insert_new_def
    using um_invD [OF inv i] k by (intro um_inv_upd_bucket inv) auto
  show "um_find (um_insert_new m k v) = (um_find m)(k \<mapsto> v)"
    using n unfolding um_insert_new_def by (subst um_find_upd_bucket [of _ k]) auto
qed

lemma map_of_overwrite:
  "map_of (map (\<lambda>p. if fst p = k then (k, v) else p) b) x =
     (if x = k \<and> map_of b k \<noteq> None then Some v else map_of b x)"
  by (induction b) auto

lemma map_fst_overwrite: "map fst (map (\<lambda>p. if fst p = k then (k, v) else p) b) = map fst b"
  by (induction b) auto

lemma um_overwrite_correct:
  assumes inv: "um_inv m" and some: "um_find m k = Some w"
  shows "um_inv (um_assign m k v)" and "um_find (um_assign m k v) = (um_find m)(k \<mapsto> v)"
proof -
  let ?b = "um_buckets m ! um_index m k"
  let ?c = "map (\<lambda>p. if fst p = k then (k, v) else p) ?b"
  have n: "um_bucket_count m \<noteq> 0" and w: "map_of ?b k = Some w"
    using some by (auto simp: um_find_def split: if_splits)
  have a: "um_assign m k v = m\<lparr>um_buckets := (um_buckets m)[um_index m k := ?c]\<rparr>"
    using some by (simp add: um_assign_def)
  note b = um_invD [OF inv um_index_less [OF n, of k]]
  have "distinct (map fst ?c)" by (simp only: map_fst_overwrite b(1))
  moreover have "\<forall>p \<in> set ?c. um_index m (fst p) = um_index m k"
  proof
    fix p assume "p \<in> set ?c"
    then have "fst p = k \<or> p \<in> set ?b" by (auto split: if_splits)
    then show "um_index m (fst p) = um_index m k" using b(2) [of p] by blast
  qed
  ultimately show "um_inv (um_assign m k v)" unfolding a by (rule um_inv_upd_bucket [OF inv])
  have "um_find (um_assign m k v) = (um_find m)(k := map_of ?c k)"
    unfolding a by (rule um_find_upd_bucket [OF refl n]) (simp only: map_of_overwrite, simp)
  then show "um_find (um_assign m k v) = (um_find m)(k \<mapsto> v)"
    using w by (simp only: map_of_overwrite) simp
qed

lemma um_assign_correct:
  assumes inv: "um_inv m"
  shows "um_inv (um_assign m k v) \<and> um_find (um_assign m k v) = (um_find m)(k \<mapsto> v)"
proof (cases "um_find m k")
  case None
  define n where "n = max 1 (um_policy m (um_bucket_count m) (Suc (um_size m)))"
  let ?m = "if n = um_bucket_count m then m else um_rehash m n"
  have n: "0 < n" by (simp add: n_def)
  then have "um_inv ?m" "um_find ?m = um_find m" "um_bucket_count ?m \<noteq> 0"
    using inv um_inv_rehash um_find_rehash by auto
  moreover have "um_assign m k v = um_insert_new ?m k v"
    using None by (simp add: um_assign_def n_def Let_def)
  ultimately show ?thesis using None um_insert_new_correct [of ?m k v] by simp
next
  case (Some w)
  with um_overwrite_correct [OF inv] show ?thesis by blast
qed

lemma um_clear_correct: "um_inv (um_clear m)" "um_find (um_clear m) = Map.empty"
  by (auto simp: um_inv_def um_clear_def um_bucket_count_def um_find_def um_index_def fun_eq_iff)

lemma um_new_correct [simp]: "um_inv (um_new h pol n)" "um_find (um_new h pol n) = Map.empty"
  by (auto simp: um_inv_def um_new_def um_bucket_count_def um_find_def um_index_def fun_eq_iff)

interpretation um: assoc_map um_find um_assign um_erase um_clear um_entries um_inv
  by unfold_locales
     (simp_all add: um_assign_correct um_erase_correct um_clear_correct um_map_of_entries
        um_distinct_entries)

end
