(* ===== verification/Glob.thy ===== *)
theory Glob
  imports Prelude
begin

text \<open>
  \<open>glob_match\<close> of \<open>src/resp.cpp\<close>, the matcher behind \<open>KEYS\<close> and \<open>CONFIG GET\<close>: an
  iterative matcher that remembers only the last \<open>*\<close> and backtracks to it. The loop is a
  partial function, so that not returning would be \<open>None\<close>; the main lemma shows that it
  always returns, and that remembering only the last \<open>*\<close> loses no match of the declarative
  semantics \<open>glob_matches\<close>.
\<close>

section \<open>The matcher\<close>

function class_loop :: "string \<Rightarrow> char \<Rightarrow> nat \<Rightarrow> bool \<Rightarrow> bool \<times> nat" where
  "class_loop pattern c q matched =
     (if q < length pattern \<and> pattern ! q \<noteq> CHR '']''
      then
        if pattern ! q = CHR 0x5C \<and> q + 1 < length pattern
        then class_loop pattern c (q + 2) (matched \<or> pattern ! (q + 1) = c)
        else if q + 2 < length pattern \<and> pattern ! (q + 1) = CHR ''-'' \<and>
                pattern ! (q + 2) \<noteq> CHR '']''
        then
          (let lo = schar (pattern ! q); hi = schar (pattern ! (q + 2));
               (lo, hi) = (if lo > hi then (hi, lo) else (lo, hi))
           in class_loop pattern c (q + 3) (matched \<or> schar c \<ge> lo \<and> schar c \<le> hi))
        else class_loop pattern c (q + 1) (matched \<or> pattern ! q = c)
      else (matched, q))"
  by pat_completeness auto
termination
  by (relation "measure (\<lambda>(pattern, c, q, matched). length pattern - q)") auto

declare class_loop.simps [simp del]

text \<open>One pattern element other than \<open>*\<close> against one character: does it match, and where
  does the pattern continue.\<close>

definition glob_one :: "string \<Rightarrow> nat \<Rightarrow> char \<Rightarrow> bool \<times> nat" where
  "glob_one pattern p c =
     (let pc = pattern ! p in
      if pc = CHR ''?'' then (True, p + 1)
      else if pc = CHR ''[''
      then
        (let negate = (p + 1 < length pattern \<and> pattern ! (p + 1) = CHR ''^'');
             (matched, q) = class_loop pattern c (if negate then p + 2 else p + 1) False
         in (if negate then \<not> matched else matched, if q < length pattern then q + 1 else q))
      else
        (let (literal, nxt) =
               (if pc = CHR 0x5C \<and> p + 1 < length pattern then (pattern ! (p + 1), p + 2)
                else (pc, p + 1))
         in (literal = c, nxt)))"

text \<open>\<open>star\<close> holds \<open>star_p\<close> and \<open>star_s\<close>; \<open>None\<close> is \<open>star_p == npos\<close>.\<close>

partial_function (option) glob_loop ::
  "string \<Rightarrow> string \<Rightarrow> nat \<Rightarrow> nat \<Rightarrow> (nat \<times> nat) option \<Rightarrow> bool option" where
  "glob_loop pattern str p s star =
     (if s < length str
      then
        if p < length pattern \<and> pattern ! p = CHR ''*''
        then glob_loop pattern str (p + 1) s (Some (p, s))
        else if p < length pattern \<and> fst (glob_one pattern p (str ! s))
        then glob_loop pattern str (snd (glob_one pattern p (str ! s))) (s + 1) star
        else
          (case star of
             Some (star_p, star_s) \<Rightarrow>
               glob_loop pattern str (star_p + 1) (star_s + 1) (Some (star_p, star_s + 1))
           | None \<Rightarrow> Some False)
      else Some (\<forall>pc \<in> set (drop p pattern). pc = CHR ''*''))"

definition glob_match :: "string \<Rightarrow> string \<Rightarrow> bool" where
  "glob_match pattern str =
     (case glob_loop pattern str 0 0 None of Some b \<Rightarrow> b | None \<Rightarrow> False)"

section \<open>Declarative semantics\<close>

inductive glob_matches :: "string \<Rightarrow> nat \<Rightarrow> string \<Rightarrow> bool" for pattern where
  exhausted: "p \<ge> length pattern \<Longrightarrow> glob_matches pattern p []"
| star_skip: "p < length pattern \<Longrightarrow> pattern ! p = CHR ''*'' \<Longrightarrow> glob_matches pattern (p + 1) s
    \<Longrightarrow> glob_matches pattern p s"
| star_eat: "p < length pattern \<Longrightarrow> pattern ! p = CHR ''*'' \<Longrightarrow> glob_matches pattern p s
    \<Longrightarrow> glob_matches pattern p (c # s)"
| one: "p < length pattern \<Longrightarrow> pattern ! p \<noteq> CHR ''*'' \<Longrightarrow> glob_one pattern p c = (True, p')
    \<Longrightarrow> glob_matches pattern p' s \<Longrightarrow> glob_matches pattern p (c # s)"

inductive_cases glob_matches_NilE: "glob_matches pattern p []"
inductive_cases glob_matches_ConsE: "glob_matches pattern p (c # s)"

section \<open>Pattern elements\<close>

text \<open>The width of one item of a character class, and whether it admits a character.\<close>

definition class_open :: "string \<Rightarrow> nat \<Rightarrow> bool" where
  "class_open pattern q \<longleftrightarrow> q < length pattern \<and> pattern ! q \<noteq> CHR '']''"

definition class_width :: "string \<Rightarrow> nat \<Rightarrow> nat" where
  "class_width pattern q =
     (if pattern ! q = CHR 0x5C \<and> q + 1 < length pattern then 2
      else if q + 2 < length pattern \<and> pattern ! (q + 1) = CHR ''-'' \<and>
              pattern ! (q + 2) \<noteq> CHR '']'' then 3
      else 1)"

definition class_hit :: "string \<Rightarrow> nat \<Rightarrow> char \<Rightarrow> bool" where
  "class_hit pattern q c \<longleftrightarrow>
     (if pattern ! q = CHR 0x5C \<and> q + 1 < length pattern then pattern ! (q + 1) = c
      else if q + 2 < length pattern \<and> pattern ! (q + 1) = CHR ''-'' \<and>
              pattern ! (q + 2) \<noteq> CHR '']''
      then min (schar (pattern ! q)) (schar (pattern ! (q + 2))) \<le> schar c \<and>
           schar c \<le> max (schar (pattern ! q)) (schar (pattern ! (q + 2)))
      else pattern ! q = c)"

lemma class_width_bounds:
  "class_open pattern q \<Longrightarrow> 0 < class_width pattern q \<and> q + class_width pattern q \<le> length pattern"
  by (auto simp: class_open_def class_width_def)

lemma class_loop_stop: "\<not> class_open pattern q \<Longrightarrow> class_loop pattern c q m = (m, q)"
  by (subst class_loop.simps) (simp only: class_open_def if_False)

lemma class_loop_step:
  "class_open pattern q \<Longrightarrow>
   class_loop pattern c q m =
     class_loop pattern c (q + class_width pattern q) (m \<or> class_hit pattern q c)"
  by (subst class_loop.simps)
     (simp add: class_open_def class_width_def class_hit_def Let_def min_def max_def)

lemma class_loop_bounds:
  "q \<le> length pattern \<Longrightarrow>
   q \<le> snd (class_loop pattern c q m) \<and> snd (class_loop pattern c q m) \<le> length pattern"
proof (induction "length pattern - q" arbitrary: q m rule: less_induct)
  case less
  show ?case
  proof (cases "class_open pattern q")
    case True
    note w = class_width_bounds [OF True]
    have "length pattern - (q + class_width pattern q) < length pattern - q" using w by linarith
    from less.hyps [OF this, of "m \<or> class_hit pattern q c"] w
    show ?thesis by (simp add: class_loop_step [OF True])
  next
    case False
    with less.prems show ?thesis by (simp add: class_loop_stop)
  qed
qed

lemma class_loop_next: "snd (class_loop pattern c q m) = snd (class_loop pattern d q n)"
proof (induction "length pattern - q" arbitrary: q m n rule: less_induct)
  case less
  show ?case
  proof (cases "class_open pattern q")
    case True
    have "length pattern - (q + class_width pattern q) < length pattern - q"
      using class_width_bounds [OF True] by linarith
    from less.hyps [OF this]
    show ?thesis unfolding class_loop_step [OF True, of c] class_loop_step [OF True, of d] .
  next
    case False
    then show ?thesis by (simp add: class_loop_stop)
  qed
qed

lemma glob_one_next: "snd (glob_one pattern p c) = snd (glob_one pattern p d)"
proof -
  have "snd (class_loop pattern c q False) = snd (class_loop pattern d q False)" for q
    by (rule class_loop_next)
  then show ?thesis by (simp add: glob_one_def Let_def case_prod_unfold)
qed

lemma glob_one_bounds:
  assumes "p < length pattern"
  shows "p < snd (glob_one pattern p c) \<and> snd (glob_one pattern p c) \<le> length pattern"
proof -
  have 1: "p + 1 \<le> snd (class_loop pattern c (p + 1) False) \<and>
      snd (class_loop pattern c (p + 1) False) \<le> length pattern"
    by (rule class_loop_bounds) (use assms in simp)
  have 2: "p + 2 \<le> snd (class_loop pattern c (p + 2) False) \<and>
      snd (class_loop pattern c (p + 2) False) \<le> length pattern" if "p + 1 < length pattern"
    by (rule class_loop_bounds) (use that in simp)
  show ?thesis using 1 2 assms by (auto simp: glob_one_def Let_def case_prod_unfold)
qed

section \<open>Remembering the last star is enough\<close>

lemma glob_matches_star:
  assumes "p < length pattern" "pattern ! p = CHR ''*''"
  shows "glob_matches pattern p s \<longleftrightarrow> (\<exists>j \<le> length s. glob_matches pattern (p + 1) (drop j s))"
proof
  show "\<exists>j \<le> length s. glob_matches pattern (p + 1) (drop j s)" if "glob_matches pattern p s"
    using that assms
  proof (induction p s rule: glob_matches.induct)
    case (star_skip p s)
    then show ?case by (intro exI [of _ 0]) simp
  next
    case (star_eat p s c)
    then obtain j where "j \<le> length s" "glob_matches pattern (p + 1) (drop j s)" by auto
    then show ?case by (intro exI [of _ "Suc j"]) simp
  qed auto
next
  assume "\<exists>j \<le> length s. glob_matches pattern (p + 1) (drop j s)"
  then obtain j where "j \<le> length s" "glob_matches pattern (p + 1) (drop j s)" by blast
  then show "glob_matches pattern p s"
  proof (induction s arbitrary: j)
    case Nil
    then show ?case using assms by (auto intro: glob_matches.star_skip)
  next
    case (Cons c s)
    then show ?case using assms
      by (cases j) (auto intro: glob_matches.star_skip glob_matches.star_eat)
  qed
qed

lemma glob_matches_one:
  assumes "p < length pattern" "pattern ! p \<noteq> CHR ''*''"
  shows "glob_matches pattern p (c # s) \<longleftrightarrow>
     fst (glob_one pattern p c) \<and> glob_matches pattern (snd (glob_one pattern p c)) s"
  using assms by (auto elim: glob_matches_ConsE intro: glob_matches.one simp: prod_eq_iff)

lemma glob_matches_Nil: "glob_matches pattern p [] \<longleftrightarrow> (\<forall>pc \<in> set (drop p pattern). pc = CHR ''*'')"
proof (induction "length pattern - p" arbitrary: p)
  case 0
  then show ?case by (simp add: glob_matches.exhausted)
next
  case (Suc n)
  then have p: "p < length pattern" and n: "n = length pattern - (p + 1)" by simp_all
  have d: "drop p pattern = pattern ! p # drop (p + 1) pattern" using p by (simp add: Cons_nth_drop_Suc)
  have "glob_matches pattern p [] \<longleftrightarrow> pattern ! p = CHR ''*'' \<and> glob_matches pattern (p + 1) []"
    using p by (auto elim: glob_matches_NilE intro: glob_matches.star_skip)
  with Suc.hyps(1) [OF n] show ?case by (simp add: d)
qed

lemma glob_matches_end: "p \<ge> length pattern \<Longrightarrow> \<not> glob_matches pattern p (c # s)"
  by (auto elim: glob_matches_ConsE)

text \<open>Elements \<open>p0\<close> up to \<open>p\<close>, none of them \<open>*\<close>, match the characters \<open>s0\<close> up to \<open>s\<close>.\<close>

inductive run :: "string \<Rightarrow> string \<Rightarrow> nat \<Rightarrow> nat \<Rightarrow> nat \<Rightarrow> nat \<Rightarrow> bool" for pattern str p0 s0 where
  start: "run pattern str p0 s0 p0 s0"
| step: "run pattern str p0 s0 p s \<Longrightarrow> p < length pattern \<Longrightarrow> pattern ! p \<noteq> CHR ''*'' \<Longrightarrow>
    s < length str \<Longrightarrow> fst (glob_one pattern p (str ! s)) \<Longrightarrow>
    run pattern str p0 s0 (snd (glob_one pattern p (str ! s))) (s + 1)"

lemma run_bounds: "run pattern str p0 s0 p s \<Longrightarrow> p0 \<le> p \<and> s0 \<le> s"
proof (induction rule: run.induct)
  case (step p s)
  with glob_one_bounds [of p pattern "str ! s"] show ?case by simp
qed simp

lemma run_matches:
  assumes "run pattern str p0 s0 p s" "glob_matches pattern p (drop s str)"
  shows "glob_matches pattern p0 (drop s0 str)"
  using assms
proof (induction rule: run.induct)
  case (step p s)
  from step.hyps have "glob_matches pattern p (str ! s # drop (s + 1) str)"
    by (subst glob_matches_one) (use step.prems in auto)
  with step.hyps step.IH show ?case by (simp add: Cons_nth_drop_Suc)
qed simp

lemma run_shift:
  assumes "run pattern str p0 s0 p s" "glob_matches pattern p0 (drop j str)" "j \<le> length str"
  shows "glob_matches pattern p (drop (j + (s - s0)) str) \<and> j + (s - s0) \<le> length str"
  using assms
proof (induction rule: run.induct)
  case (step p s)
  let ?i = "j + (s - s0)"
  from step have m: "glob_matches pattern p (drop ?i str)" and i: "?i \<le> length str" by auto
  have "drop ?i str \<noteq> []"
    using m step.hyps by (auto simp: glob_matches_Nil Cons_nth_drop_Suc [symmetric])
  then have i': "?i < length str" and d: "drop ?i str = str ! ?i # drop (?i + 1) str"
    by (auto simp: Cons_nth_drop_Suc)
  from m have "glob_matches pattern (snd (glob_one pattern p (str ! ?i))) (drop (?i + 1) str)"
    unfolding d using step.hyps by (simp add: glob_matches_one)
  moreover have "j + (s + 1 - s0) = ?i + 1" using run_bounds [OF step.hyps(1)] by linarith
  ultimately show ?case
    using i' glob_one_next [of pattern p "str ! ?i" "str ! s"] by (simp only:) simp
qed simp

definition loop_inv :: "string \<Rightarrow> string \<Rightarrow> nat \<Rightarrow> nat \<Rightarrow> (nat \<times> nat) option \<Rightarrow> bool" where
  "loop_inv pattern str p s star \<longleftrightarrow> p \<le> length pattern \<and> s \<le> length str \<and>
     (case star of
        None \<Rightarrow> glob_matches pattern 0 str = glob_matches pattern p (drop s str)
      | Some (sp, ss) \<Rightarrow>
          sp < length pattern \<and> run pattern str (sp + 1) ss p s \<and>
          glob_matches pattern 0 str =
            (\<exists>j \<ge> ss. j \<le> length str \<and> glob_matches pattern (sp + 1) (drop j str)))"

lemma loop_inv_bounds:
  assumes "loop_inv pattern str p s (Some (sp, ss))"
  shows "sp < p" "ss \<le> s"
  using assms run_bounds by (fastforce simp: loop_inv_def)+

lemma ex_shift:
  assumes "s \<le> (n :: nat)"
  shows "(\<exists>j \<le> n - s. P (j + s)) \<longleftrightarrow> (\<exists>j \<ge> s. j \<le> n \<and> P j)"
proof
  assume "\<exists>j \<le> n - s. P (j + s)"
  then obtain j where "j \<le> n - s" "P (j + s)" by blast
  with assms show "\<exists>j \<ge> s. j \<le> n \<and> P j" by (intro exI [of _ "j + s"]) simp
next
  assume "\<exists>j \<ge> s. j \<le> n \<and> P j"
  then obtain j where "j \<ge> s" "j \<le> n" "P j" by blast
  then show "\<exists>j \<le> n - s. P (j + s)" by (intro exI [of _ "j - s"]) simp
qed

lemma drop_star:
  assumes "p < length pattern" "pattern ! p = CHR ''*''" "s \<le> length str"
  shows "glob_matches pattern p (drop s str) \<longleftrightarrow>
     (\<exists>j \<ge> s. j \<le> length str \<and> glob_matches pattern (p + 1) (drop j str))"
  using glob_matches_star [OF assms(1,2), of "drop s str"]
    ex_shift [OF assms(3), of "\<lambda>j. glob_matches pattern (p + 1) (drop j str)"]
  by simp

lemma loop_inv_star:
  assumes inv: "loop_inv pattern str p s star" and p: "p < length pattern" "pattern ! p = CHR ''*''"
  shows "loop_inv pattern str (p + 1) s (Some (p, s))"
proof -
  have s: "s \<le> length str" using inv by (simp add: loop_inv_def)
  have "glob_matches pattern 0 str = glob_matches pattern p (drop s str)"
  proof (cases star)
    case None
    with inv show ?thesis by (simp add: loop_inv_def)
  next
    case (Some q)
    obtain sp ss where q: "q = (sp, ss)" by fastforce
    with inv Some have r: "run pattern str (sp + 1) ss p s" and
      m: "glob_matches pattern 0 str =
        (\<exists>j \<ge> ss. j \<le> length str \<and> glob_matches pattern (sp + 1) (drop j str))"
      by (auto simp: loop_inv_def)
    have ss: "ss \<le> s" using run_bounds [OF r] by simp
    show ?thesis
    proof
      assume "glob_matches pattern 0 str"
      with m obtain j where j: "j \<ge> ss" "j \<le> length str" "glob_matches pattern (sp + 1) (drop j str)"
        by blast
      from run_shift [OF r j(3,2)] obtain i where
        "i \<ge> s" "i \<le> length str" "glob_matches pattern p (drop i str)"
        using j(1) ss by (metis add_le_mono1 le_add_diff_inverse)
      then show "glob_matches pattern p (drop s str)"
        unfolding drop_star [OF p s] drop_star [OF p \<open>i \<le> length str\<close>] by (meson order_trans)
    next
      assume "glob_matches pattern p (drop s str)"
      from run_matches [OF r this] ss s m show "glob_matches pattern 0 str"
        by (meson order.refl order_trans)
    qed
  qed
  then show ?thesis
    using p s drop_star [OF p s] by (auto simp: loop_inv_def intro: run.start)
qed

lemma loop_inv_step:
  assumes inv: "loop_inv pattern str p s star" and p: "p < length pattern" "pattern ! p \<noteq> CHR ''*''"
    and s: "s < length str" and one: "fst (glob_one pattern p (str ! s))"
  shows "loop_inv pattern str (snd (glob_one pattern p (str ! s))) (s + 1) star"
proof -
  have "glob_matches pattern p (drop s str) =
      glob_matches pattern (snd (glob_one pattern p (str ! s))) (drop (s + 1) str)"
    using glob_matches_one [OF p] one s by (metis Cons_nth_drop_Suc Suc_eq_plus1)
  then show ?thesis
    using inv glob_one_bounds [OF p(1), of "str ! s"] s run.step [OF _ p s one]
    by (auto simp: loop_inv_def split: option.splits)
qed

lemma loop_inv_back:
  assumes inv: "loop_inv pattern str p s (Some (sp, ss))" and s: "s < length str"
    and fails: "\<not> glob_matches pattern p (drop s str)"
  shows "loop_inv pattern str (sp + 1) (ss + 1) (Some (sp, ss + 1))"
proof -
  from inv have r: "run pattern str (sp + 1) ss p s" and
    m: "glob_matches pattern 0 str =
        (\<exists>j \<ge> ss. j \<le> length str \<and> glob_matches pattern (sp + 1) (drop j str))"
    by (auto simp: loop_inv_def)
  have ss: "ss \<le> s" using run_bounds [OF r] by simp
  have "\<not> glob_matches pattern (sp + 1) (drop ss str)"
    using run_shift [OF r, of ss] fails ss s by auto
  then have "(\<exists>j \<ge> ss. j \<le> length str \<and> glob_matches pattern (sp + 1) (drop j str)) =
      (\<exists>j \<ge> ss + 1. j \<le> length str \<and> glob_matches pattern (sp + 1) (drop j str))"
    by (metis Suc_eq_plus1 Suc_leD le_antisym not_less_eq_eq)
  with m inv ss s show ?thesis by (auto simp: loop_inv_def intro: run.start)
qed

lemma loop_inv_end:
  assumes inv: "loop_inv pattern str p s star" and s: "\<not> s < length str"
  shows "glob_matches pattern 0 str = (\<forall>pc \<in> set (drop p pattern). pc = CHR ''*'')"
proof -
  have d: "drop s str = []" using s by simp
  have "glob_matches pattern 0 str = glob_matches pattern p []"
  proof (cases star)
    case None
    with inv d show ?thesis by (simp add: loop_inv_def)
  next
    case (Some q)
    obtain sp ss where q: "q = (sp, ss)" by fastforce
    with inv Some have r: "run pattern str (sp + 1) ss p s" and sl: "s \<le> length str" and
      m: "glob_matches pattern 0 str =
        (\<exists>j \<ge> ss. j \<le> length str \<and> glob_matches pattern (sp + 1) (drop j str))"
      by (auto simp: loop_inv_def)
    have ss: "ss \<le> s" using run_bounds [OF r] by simp
    show ?thesis
    proof
      assume "glob_matches pattern 0 str"
      with m obtain j where j: "j \<ge> ss" "j \<le> length str" "glob_matches pattern (sp + 1) (drop j str)"
        by blast
      have "drop (j + (s - ss)) str = []" using j(1) ss s by simp
      with run_shift [OF r j(3,2)] show "glob_matches pattern p []" by simp
    next
      assume "glob_matches pattern p []"
      with d run_matches [OF r] have "glob_matches pattern (sp + 1) (drop ss str)" by simp
      with m ss sl show "glob_matches pattern 0 str" by (meson order.refl order_trans)
    qed
  qed
  then show ?thesis by (simp add: glob_matches_Nil)
qed

lemma glob_loop_correct:
  "loop_inv pattern str p s star \<Longrightarrow>
   glob_loop pattern str p s star = Some (glob_matches pattern 0 str)"
proof (induction "(p, s, star)" arbitrary: p s star rule: wf_induct_rule
    [OF wf_measures [of "[\<lambda>(p, s, star). length pattern - (case star of None \<Rightarrow> 0 | Some (sp, _) \<Rightarrow> Suc sp),
       \<lambda>(p, s, star). length str - (case star of None \<Rightarrow> 0 | Some (_, ss) \<Rightarrow> ss),
       \<lambda>(p, s, star). length str - s]"]])
  case (1 p s star)
  note inv = "1.prems" and IH = "1.hyps" and unfold = glob_loop.simps [of pattern str p s star]
  show ?case
  proof (cases "s < length str")
    case False
    with loop_inv_end [OF inv False] unfold show ?thesis by simp
  next
    case s: True
    consider (star) "p < length pattern" "pattern ! p = CHR ''*''"
      | (one) "p < length pattern" "pattern ! p \<noteq> CHR ''*''" "fst (glob_one pattern p (str ! s))"
      | (fail) "p < length pattern \<Longrightarrow> pattern ! p \<noteq> CHR ''*''"
          "p < length pattern \<Longrightarrow> \<not> fst (glob_one pattern p (str ! s))"
      by blast
    then show ?thesis
    proof cases
      case star
      have sp: "length pattern - Suc p < length pattern - Suc a" if "star = Some (a, b)" for a b
        using loop_inv_bounds(1) [of pattern str p s a b] inv star that by auto
      have "glob_loop pattern str (p + 1) s (Some (p, s)) = Some (glob_matches pattern 0 str)"
        by (rule IH [OF _ loop_inv_star [OF inv star]])
           (use star sp in \<open>auto split: option.splits\<close>)
      with star s unfold show ?thesis by simp
    next
      case one
      have "glob_loop pattern str (snd (glob_one pattern p (str ! s))) (s + 1) star =
          Some (glob_matches pattern 0 str)"
        by (rule IH [OF _ loop_inv_step [OF inv one(1,2) s one(3)]]) (use s in auto)
      with one s unfold show ?thesis by simp
    next
      case fail
      have nm: "\<not> glob_matches pattern p (drop s str)"
        using fail s glob_matches_one [of p pattern "str ! s" "drop (s + 1) str"]
          glob_matches_end [of pattern p "str ! s" "drop (s + 1) str"]
        by (cases "p < length pattern") (auto simp: Cons_nth_drop_Suc)
      show ?thesis
      proof (cases star)
        case None
        with inv nm fail s unfold show ?thesis by (auto simp: loop_inv_def)
      next
        case (Some q)
        obtain sp ss where q: "q = (sp, ss)" by fastforce
        note inv' = inv [unfolded Some q]
        have "glob_loop pattern str (sp + 1) (ss + 1) (Some (sp, ss + 1)) =
            Some (glob_matches pattern 0 str)"
          by (rule IH [OF _ loop_inv_back [OF inv' s nm]])
             (use Some q s loop_inv_bounds [OF inv'] in auto)
        with Some q fail s unfold show ?thesis by auto
      qed
    qed
  qed
qed

lemma glob_loop_returns: "glob_loop pattern str 0 0 None = Some (glob_matches pattern 0 str)"
  by (rule glob_loop_correct) (simp add: loop_inv_def)

lemma glob_match_iff: "glob_match pattern str = glob_matches pattern 0 str"
  by (simp add: glob_match_def glob_loop_returns)

lemma glob_match_all: "glob_match ''*'' str"
proof -
  have "glob_matches ''*'' 1 (drop (length str) str)"
    by (simp add: glob_matches.exhausted)
  then have "\<exists>j \<le> length str. glob_matches ''*'' (0 + 1) (drop j str)" by auto
  then show ?thesis unfolding glob_match_iff by (subst glob_matches_star) simp_all
qed

section \<open>Properties\<close>


end
