(* ===== verification/Store.thy ===== *)
theory Store
  imports Umap Glob "HOL-Library.Multiset"
begin

text \<open>
  The keyspace, \<open>class Store\<close> of \<open>include/rp/store.hpp\<close> and \<open>src/store.cpp\<close>. The injected
  clock is the stream of the readings it will give: every call of \<open>clock_()\<close> takes the next
  one, so two reads within one operation may differ, as they do on a running server.
  Every operation takes the store and returns its result with the new store.

  The abstract keyspace is \<open>view t s\<close>: the keys live at time \<open>t\<close>, each with its value and
  deadline. The locale \<open>ttl_store\<close> is the contract the commands rely on, over \<open>view\<close>; it is
  interpreted on the operations for a clock that stands still during the operation
  (\<open>frozen\<close>). Lemmas that need no such hypothesis do not have it.
\<close>

section \<open>State\<close>

definition kNoExpiry :: int where "kNoExpiry = -1"

record expiry_config =
  sample_size :: nat
  continue_threshold_pct :: nat
  max_passes :: nat

definition default_expiry_config :: expiry_config where
  "default_expiry_config = \<lparr>sample_size = 20, continue_threshold_pct = 25, max_passes = 16\<rparr>"

record expiry_stats =
  expired_lazy :: nat
  expired_active :: nat
  cycles :: nat
  passes :: nat

record kv_record =
  rec_key :: string
  rec_value :: string
  rec_expire_at :: int

record store =
  s_map :: "string umap"
  s_expires :: "int umap"
  s_cursor :: nat
  s_stats :: expiry_stats
  s_clock :: "int stream"

definition expiry_stats_new :: expiry_stats where
  "expiry_stats_new = \<lparr>expired_lazy = 0, expired_active = 0, cycles = 0, passes = 0\<rparr>"

definition store_new :: "(string \<Rightarrow> nat) \<Rightarrow> (nat \<Rightarrow> nat \<Rightarrow> nat) \<Rightarrow> nat \<Rightarrow> int stream \<Rightarrow> store" where
  "store_new h pol n clk =
     \<lparr>s_map = um_new h pol n, s_expires = um_new h pol n, s_cursor = 0,
      s_stats = expiry_stats_new, s_clock = clk\<rparr>"

section \<open>Operations\<close>

definition store_clock :: "store \<Rightarrow> int \<times> store" where
  "store_clock s = (shd (s_clock s), s\<lparr>s_clock := stl (s_clock s)\<rparr>)"

definition is_expired :: "store \<Rightarrow> string \<Rightarrow> bool \<times> store" where
  "is_expired s key =
     (case um_find (s_expires s) key of
        None \<Rightarrow> (False, s)
      | Some deadline \<Rightarrow> (let (now, s1) = store_clock s in (now \<ge> deadline, s1)))"

definition store_remove :: "store \<Rightarrow> string \<Rightarrow> store" where
  "store_remove s key =
     s\<lparr>s_map := um_erase (s_map s) key, s_expires := um_erase (s_expires s) key\<rparr>"

definition count_lazy :: "store \<Rightarrow> store" where
  "count_lazy s = s\<lparr>s_stats := (s_stats s)\<lparr>expired_lazy := expired_lazy (s_stats s) + 1\<rparr>\<rparr>"

definition count_active :: "nat \<Rightarrow> store \<Rightarrow> store" where
  "count_active n s = s\<lparr>s_stats := (s_stats s)\<lparr>expired_active := expired_active (s_stats s) + n\<rparr>\<rparr>"

definition store_get :: "store \<Rightarrow> string \<Rightarrow> string option \<times> store" where
  "store_get s key =
     (case um_find (s_map s) key of
        None \<Rightarrow> (None, s)
      | Some v \<Rightarrow>
          (let (expired, s1) = is_expired s key
           in if expired then (None, count_lazy (store_remove s1 key)) else (Some v, s1)))"

definition store_set :: "store \<Rightarrow> string \<Rightarrow> string \<Rightarrow> int \<Rightarrow> store" where
  "store_set s key v expire_at =
     (let s1 = s\<lparr>s_map := um_assign (s_map s) key v\<rparr>
      in if expire_at = kNoExpiry then s1\<lparr>s_expires := um_erase (s_expires s1) key\<rparr>
         else s1\<lparr>s_expires := um_assign (s_expires s1) key expire_at\<rparr>)"

definition store_erase :: "store \<Rightarrow> string \<Rightarrow> bool \<times> store" where
  "store_erase s key =
     (if um_find (s_map s) key = None then (False, s)
      else
        (let (expired, s1) = is_expired s key;
             was_live = (\<not> expired);
             s2 = (if \<not> was_live then count_lazy s1 else s1)
         in (was_live, store_remove s2 key)))"

definition store_contains :: "store \<Rightarrow> string \<Rightarrow> bool \<times> store" where
  "store_contains s key = (let (v, s1) = store_get s key in (v \<noteq> None, s1))"

definition store_pttl :: "store \<Rightarrow> string \<Rightarrow> int \<times> store" where
  "store_pttl s key =
     (if um_find (s_map s) key = None then (-2, s)
      else
        (let (expired, s1) = is_expired s key
         in if expired then (-2, count_lazy (store_remove s1 key))
            else
              (case um_find (s_expires s1) key of
                 None \<Rightarrow> (-1, s1)
               | Some deadline \<Rightarrow>
                   (let (now, s2) = store_clock s1 in (wrap64 (deadline - now), s2)))))"

definition store_expire_at :: "store \<Rightarrow> string \<Rightarrow> int \<Rightarrow> bool \<times> store" where
  "store_expire_at s key deadline_ms =
     (if um_find (s_map s) key = None then (False, s)
      else
        (let (expired, s1) = is_expired s key
         in if expired then (False, count_lazy (store_remove s1 key))
            else
              (let (now, s2) = store_clock s1
               in if deadline_ms \<le> now then (True, store_remove s2 key)
                  else (True, s2\<lparr>s_expires := um_assign (s_expires s2) key deadline_ms\<rparr>))))"

definition store_persist :: "store \<Rightarrow> string \<Rightarrow> bool \<times> store" where
  "store_persist s key =
     (if um_find (s_map s) key = None then (False, s)
      else
        (let (expired, s1) = is_expired s key
         in if expired then (False, count_lazy (store_remove s1 key))
            else (um_find (s_expires s1) key \<noteq> None,
                  s1\<lparr>s_expires := um_erase (s_expires s1) key\<rparr>)))"

fun keys_loop :: "string \<Rightarrow> (string \<times> string) list \<Rightarrow> string list \<Rightarrow> string list \<Rightarrow> store \<Rightarrow>
    string list \<times> string list \<times> store" where
  "keys_loop pattern [] out dead s = (out, dead, s)"
| "keys_loop pattern ((key, v) # es) out dead s =
     (let (expired, s1) = is_expired s key
      in if expired then keys_loop pattern es out (dead @ [key]) s1
         else if glob_match pattern key then keys_loop pattern es (out @ [key]) dead s1
         else keys_loop pattern es out dead s1)"

definition store_keys :: "store \<Rightarrow> string \<Rightarrow> string list \<times> store" where
  "store_keys s pattern =
     (let (out, dead, s1) = keys_loop pattern (um_entries (s_map s)) [] [] s
      in (out, foldl (\<lambda>st key. count_lazy (store_remove st key)) s1 dead))"

definition store_raw_size :: "store \<Rightarrow> nat" where
  "store_raw_size s = um_size (s_map s)"

definition store_expires_size :: "store \<Rightarrow> nat" where
  "store_expires_size s = um_size (s_expires s)"

text \<open>The result is signed: a negative value is the wrap-around of the unsigned subtraction.\<close>

definition store_size :: "store \<Rightarrow> int \<times> store" where
  "store_size s =
     (let (now, s1) = store_clock s;
          expired = length (filter (\<lambda>(key, deadline). now \<ge> deadline) (um_entries (s_expires s)))
      in (int (um_size (s_map s)) - int expired, s1))"

definition store_clear :: "store \<Rightarrow> store" where
  "store_clear s =
     s\<lparr>s_map := um_clear (s_map s), s_expires := um_clear (s_expires s), s_cursor := 0\<rparr>"

function sample_loop :: "(string \<times> int) list list \<Rightarrow> nat \<Rightarrow> nat \<Rightarrow> nat \<Rightarrow> string list \<Rightarrow>
    string list \<times> nat" where
  "sample_loop bs cursor n visited out =
     (if visited < length bs \<and> length out < n
      then
        (let bucket = (cursor + visited) mod length bs
         in sample_loop bs cursor n (visited + 1)
              (out @ take (n - length out) (map fst (bs ! bucket))))
      else (out, visited))"
  by pat_completeness auto
termination
  by (relation "measure (\<lambda>(bs, cursor, n, visited, out). length bs - visited)") auto

declare sample_loop.simps [simp del]

definition sample_expiring :: "store \<Rightarrow> nat \<Rightarrow> string list \<times> store" where
  "sample_expiring s n =
     (if um_size (s_expires s) = 0 \<or> n = 0 then ([], s)
      else
        (let buckets = um_bucket_count (s_expires s)
         in if buckets = 0 then ([], s)
            else
              (let cursor = (if s_cursor s \<ge> buckets then 0 else s_cursor s);
                   (out, visited) = sample_loop (um_buckets (s_expires s)) cursor n 0 []
               in (out, s\<lparr>s_cursor := (cursor + visited) mod buckets\<rparr>))))"

text \<open>One pass: the number of keys reaped, whether the loop stops, the new store.\<close>

definition expire_pass :: "expiry_config \<Rightarrow> store \<Rightarrow> nat \<times> bool \<times> store" where
  "expire_pass cfg s =
     (let s1 = s\<lparr>s_stats := (s_stats s)\<lparr>passes := passes (s_stats s) + 1\<rparr>\<rparr>;
          (sampled, s2) = sample_expiring s1 (sample_size cfg)
      in if sampled = [] then (0, True, s2)
         else
           (let (now, s3) = store_clock s2;
                dead = filter (\<lambda>key. case um_find (s_expires s3) key of
                         None \<Rightarrow> False | Some deadline \<Rightarrow> now \<ge> deadline) sampled;
                s4 = foldl store_remove s3 dead;
                s5 = count_active (length dead) s4;
                threshold = length sampled * continue_threshold_pct cfg div 100
            in (length dead, length dead \<le> threshold, s5)))"

primrec expire_passes :: "expiry_config \<Rightarrow> nat \<Rightarrow> nat \<Rightarrow> store \<Rightarrow> nat \<times> store" where
  "expire_passes cfg 0 reaped s = (reaped, s)"
| "expire_passes cfg (Suc n) reaped s =
     (if um_size (s_expires s) = 0 then (reaped, s)
      else
        (let (k, stop, s1) = expire_pass cfg s
         in if stop then (reaped + k, s1) else expire_passes cfg n (reaped + k) s1))"

definition active_expire_cycle :: "expiry_config \<Rightarrow> store \<Rightarrow> nat \<times> store" where
  "active_expire_cycle cfg s =
     expire_passes cfg (max_passes cfg) 0
       (s\<lparr>s_stats := (s_stats s)\<lparr>cycles := cycles (s_stats s) + 1\<rparr>\<rparr>)"

definition store_snapshot :: "store \<Rightarrow> kv_record list \<times> store" where
  "store_snapshot s =
     (let (now, s1) = store_clock s;
          deadline_of = (\<lambda>key. case um_find (s_expires s) key of None \<Rightarrow> kNoExpiry | Some d \<Rightarrow> d);
          live = filter (\<lambda>(key, v). \<not> (deadline_of key \<noteq> kNoExpiry \<and> now \<ge> deadline_of key))
                   (um_entries (s_map s))
      in (map (\<lambda>(key, v). \<lparr>rec_key = key, rec_value = v, rec_expire_at = deadline_of key\<rparr>) live, s1))"

definition load_record :: "store \<Rightarrow> kv_record \<Rightarrow> store" where
  "load_record s r =
     (let (past, s1) =
            (if rec_expire_at r \<noteq> kNoExpiry
             then (let (now, s1) = store_clock s in (now \<ge> rec_expire_at r, s1))
             else (False, s))
      in if past then s1 else store_set s1 (rec_key r) (rec_value r) (rec_expire_at r))"

fun reap_loop :: "int \<Rightarrow> nat \<Rightarrow> (string \<times> int) list \<Rightarrow> string list \<Rightarrow> string list" where
  "reap_loop now limit [] dead = dead"
| "reap_loop now limit ((key, deadline) # es) dead =
     (if length dead \<ge> limit then dead
      else reap_loop now limit es (if now \<ge> deadline then dead @ [key] else dead))"

definition reap_expired :: "store \<Rightarrow> nat \<Rightarrow> nat \<times> store" where
  "reap_expired s limit =
     (let (now, s1) = store_clock s;
          dead = reap_loop now limit (um_entries (s_expires s1)) []
      in (length dead, count_active (length dead) (foldl store_remove s1 dead)))"

section \<open>Invariant\<close>

text \<open>
  Every key of the expiry index is a key of the map; no deadline is the sentinel
  \<open>kNoExpiry\<close>; the clock never reads before the epoch.
\<close>

definition store_inv :: "store \<Rightarrow> bool" where
  "store_inv s \<longleftrightarrow>
     um_inv (s_map s) \<and> um_inv (s_expires s) \<and>
     dom (um_find (s_expires s)) \<subseteq> dom (um_find (s_map s)) \<and>
     kNoExpiry \<notin> ran (um_find (s_expires s)) \<and>
     (\<forall>t \<in> sset (s_clock s). 0 \<le> t)"

lemma store_inv_frame:
  assumes "store_inv s"
    and "s_map s' = s_map s" "s_expires s' = s_expires s" "sset (s_clock s') \<subseteq> sset (s_clock s)"
  shows "store_inv s'"
  using assms by (auto simp: store_inv_def)

lemma store_inv_tick [simp]: "store_inv s \<Longrightarrow> store_inv (s\<lparr>s_clock := stl (s_clock s)\<rparr>)"
  by (erule store_inv_frame) (auto dest: stl_sset)

lemma store_inv_stats [simp]:
  "store_inv (s\<lparr>s_stats := x\<rparr>) = store_inv s"
  "store_inv (s\<lparr>s_cursor := n\<rparr>) = store_inv s"
  "store_inv (count_lazy s) = store_inv s"
  "store_inv (count_active n s) = store_inv s"
  by (simp_all add: store_inv_def count_lazy_def count_active_def)

lemma store_inv_remove [simp]: "store_inv s \<Longrightarrow> store_inv (store_remove s k)"
  by (auto simp: store_inv_def store_remove_def ran_def split: if_splits)

lemma store_inv_remove_all [simp]: "store_inv s \<Longrightarrow> store_inv (foldl store_remove s ks)"
  by (induction ks arbitrary: s) simp_all

lemma store_inv_set [simp]: "store_inv s \<Longrightarrow> store_inv (store_set s k v e)"
  by (auto simp: store_inv_def store_set_def Let_def ran_def split: if_splits)

lemma store_inv_clear [simp]: "store_inv s \<Longrightarrow> store_inv (store_clear s)"
  by (auto simp: store_inv_def store_clear_def)

lemma store_inv_deadline:
  "store_inv s \<Longrightarrow> um_find (s_map s) k \<noteq> None \<Longrightarrow> d \<noteq> kNoExpiry \<Longrightarrow>
   store_inv (s\<lparr>s_expires := um_assign (s_expires s) k d\<rparr>)"
  by (auto simp: store_inv_def ran_def split: if_splits)

lemma store_inv_unexpire:
  "store_inv s \<Longrightarrow> store_inv (s\<lparr>s_expires := um_erase (s_expires s) k\<rparr>)"
  by (auto simp: store_inv_def ran_def split: if_splits)

lemma store_clock_snd [simp]: "snd (store_clock s) = s\<lparr>s_clock := stl (s_clock s)\<rparr>"
  and store_clock_fst [simp]: "fst (store_clock s) = shd (s_clock s)"
  by (simp_all add: store_clock_def)

lemma clock_nonneg: "store_inv s \<Longrightarrow> 0 \<le> shd (s_clock s)"
  by (auto simp: store_inv_def shd_sset)

lemma is_expired_cases:
  "is_expired s k = (False, s) \<and> um_find (s_expires s) k = None \<or>
   (\<exists>d. um_find (s_expires s) k = Some d \<and>
      is_expired s k = (shd (s_clock s) \<ge> d, s\<lparr>s_clock := stl (s_clock s)\<rparr>))"
  by (auto simp: is_expired_def store_clock_def split: option.split)

lemma is_expired_frame [simp]:
  "s_map (snd (is_expired s k)) = s_map s"
  "s_expires (snd (is_expired s k)) = s_expires s"
  using is_expired_cases [of s k] by auto

lemma store_inv_is_expired [simp]: "store_inv s \<Longrightarrow> store_inv (snd (is_expired s k))"
  using is_expired_cases [of s k] by auto

lemma store_inv_get [simp]: "store_inv s \<Longrightarrow> store_inv (snd (store_get s k))"
  by (auto simp: store_get_def case_prod_unfold Let_def split: option.split)

lemma store_inv_erase [simp]: "store_inv s \<Longrightarrow> store_inv (snd (store_erase s k))"
  by (auto simp: store_erase_def case_prod_unfold Let_def)

lemma store_inv_contains [simp]: "store_inv s \<Longrightarrow> store_inv (snd (store_contains s k))"
  by (simp add: store_contains_def case_prod_unfold Let_def)

lemma store_inv_pttl [simp]: "store_inv s \<Longrightarrow> store_inv (snd (store_pttl s k))"
  by (auto simp: store_pttl_def case_prod_unfold Let_def split: option.split)

lemma store_inv_expire_at [simp]: "store_inv s \<Longrightarrow> store_inv (snd (store_expire_at s k d))"
proof -
  assume inv: "store_inv s"
  let ?s1 = "snd (is_expired s k)"
  have nn: "0 \<le> shd (s_clock ?s1)" using inv by (intro clock_nonneg) simp
  then have "\<not> d \<le> shd (s_clock ?s1) \<Longrightarrow> d \<noteq> kNoExpiry" by (simp add: kNoExpiry_def)
  moreover have "store_inv (?s1\<lparr>s_clock := stl (s_clock ?s1)\<rparr>)" using inv by simp
  ultimately show ?thesis
    using inv store_inv_deadline [of "?s1\<lparr>s_clock := stl (s_clock ?s1)\<rparr>" k d]
    by (auto simp: store_expire_at_def case_prod_unfold Let_def)
qed

lemma store_inv_persist [simp]: "store_inv s \<Longrightarrow> store_inv (snd (store_persist s k))"
  using store_inv_unexpire [OF store_inv_is_expired, of s k k]
  by (auto simp: store_persist_def case_prod_unfold Let_def)

lemma keys_loop_inv:
  "store_inv s \<Longrightarrow> keys_loop pattern es out dead s = (out', dead', s') \<Longrightarrow> store_inv s'"
proof (induction pattern es out dead s rule: keys_loop.induct)
  case (2 pattern key v es out dead s)
  then show ?case by (cases "is_expired s key") (auto split: if_splits dest: store_inv_is_expired [of s key])
qed simp

lemma store_inv_keys [simp]: "store_inv s \<Longrightarrow> store_inv (snd (store_keys s pattern))"
proof -
  assume inv: "store_inv s"
  obtain out dead s1 where k: "keys_loop pattern (um_entries (s_map s)) [] [] s = (out, dead, s1)"
    by (metis prod_cases3)
  have fold: "store_inv (foldl (\<lambda>st key. count_lazy (store_remove st key)) s1 ds)" if "store_inv s1" for s1 ds
    using that by (induction ds arbitrary: s1) simp_all
  show ?thesis using keys_loop_inv [OF inv k] by (simp add: store_keys_def k fold)
qed

lemma store_inv_size [simp]: "store_inv s \<Longrightarrow> store_inv (snd (store_size s))"
  by (simp add: store_size_def case_prod_unfold Let_def)

lemma store_inv_sample [simp]: "store_inv s \<Longrightarrow> store_inv (snd (sample_expiring s n))"
  by (auto simp: sample_expiring_def Let_def case_prod_unfold)

lemma store_inv_pass: "store_inv s \<Longrightarrow> store_inv (snd (snd (expire_pass cfg s)))"
  by (auto simp: expire_pass_def Let_def case_prod_unfold)

lemma store_inv_passes: "store_inv s \<Longrightarrow> store_inv (snd (expire_passes cfg n r s))"
  by (induction n arbitrary: r s) (simp_all add: Let_def case_prod_unfold store_inv_pass)

lemma store_inv_cycle [simp]: "store_inv s \<Longrightarrow> store_inv (snd (active_expire_cycle cfg s))"
  by (simp add: active_expire_cycle_def store_inv_passes)

lemma store_inv_snapshot [simp]: "store_inv s \<Longrightarrow> store_inv (snd (store_snapshot s))"
  by (simp add: store_snapshot_def case_prod_unfold Let_def)

lemma store_inv_load [simp]: "store_inv s \<Longrightarrow> store_inv (load_record s r)"
  by (auto simp: load_record_def case_prod_unfold Let_def)

lemma store_inv_reap [simp]: "store_inv s \<Longrightarrow> store_inv (snd (reap_expired s n))"
  by (simp add: reap_expired_def case_prod_unfold Let_def)

lemma store_inv_new:
  "(\<And>t. t \<in> sset clk \<Longrightarrow> 0 \<le> t) \<Longrightarrow> store_inv (store_new h pol n clk)"
  by (auto simp: store_inv_def store_new_def)

section \<open>The abstract keyspace\<close>

type_synonym keyspace = "string \<rightharpoonup> (string \<times> int option)"

definition view :: "int \<Rightarrow> store \<Rightarrow> keyspace" where
  "view t s key =
     (case um_find (s_map s) key of
        None \<Rightarrow> None
      | Some v \<Rightarrow>
          (case um_find (s_expires s) key of
             None \<Rightarrow> Some (v, None)
           | Some d \<Rightarrow> if d \<le> t then None else Some (v, Some d)))"

text \<open>What storing \<open>v\<close> with a deadline makes visible at time \<open>t\<close>.\<close>

definition visible :: "int \<Rightarrow> string \<Rightarrow> int \<Rightarrow> (string \<times> int option) option" where
  "visible t v e =
     (if e = kNoExpiry then Some (v, None) else if e \<le> t then None else Some (v, Some e))"

definition frozen :: "int \<Rightarrow> store \<Rightarrow> bool" where
  "frozen t s \<longleftrightarrow> s_clock s = sconst t"

definition expired_at :: "int \<Rightarrow> store \<Rightarrow> string \<Rightarrow> bool" where
  "expired_at t s key = (case um_find (s_expires s) key of None \<Rightarrow> False | Some d \<Rightarrow> d \<le> t)"

lemma view_frame [simp]:
  "view t (s\<lparr>s_clock := c\<rparr>) = view t s"
  "view t (s\<lparr>s_stats := x\<rparr>) = view t s"
  "view t (s\<lparr>s_cursor := n\<rparr>) = view t s"
  "view t (count_lazy s) = view t s"
  "view t (count_active n s) = view t s"
  by (simp_all add: view_def count_lazy_def count_active_def fun_eq_iff split: option.split)

lemma view_remove [simp]:
  "store_inv s \<Longrightarrow> view t (store_remove s k) = (view t s)(k := None)"
  by (auto simp: view_def store_remove_def store_inv_def fun_eq_iff split: option.split)

lemma view_remove_all:
  "store_inv s \<Longrightarrow> view t (foldl store_remove s ks) = view t s |` (- set ks)"
  by (induction ks arbitrary: s) (auto simp: restrict_map_def fun_eq_iff)

lemma view_set [simp]:
  "store_inv s \<Longrightarrow> view t (store_set s k v e) = (view t s)(k := visible t v e)"
  by (auto simp: view_def store_set_def visible_def store_inv_def Let_def fun_eq_iff
      split: option.split)

lemma view_clear [simp]: "view t (store_clear s) = Map.empty"
  by (auto simp: view_def store_clear_def fun_eq_iff)

lemma view_deadline:
  "store_inv s \<Longrightarrow> view t (s\<lparr>s_expires := um_assign (s_expires s) k d\<rparr>) =
     (view t s)(k := (case um_find (s_map s) k of None \<Rightarrow> None
        | Some v \<Rightarrow> if d \<le> t then None else Some (v, Some d)))"
  by (auto simp: view_def store_inv_def fun_eq_iff split: option.split)

lemma view_unexpire:
  "store_inv s \<Longrightarrow> view t (s\<lparr>s_expires := um_erase (s_expires s) k\<rparr>) =
     (view t s)(k := (case um_find (s_map s) k of None \<Rightarrow> None | Some v \<Rightarrow> Some (v, None)))"
  by (auto simp: view_def store_inv_def fun_eq_iff split: option.split)

lemma view_expired: "expired_at t s k \<Longrightarrow> view t s k = None"
  by (auto simp: view_def expired_at_def split: option.splits)

lemma view_live:
  "\<not> expired_at t s k \<Longrightarrow> um_find (s_map s) k = Some v \<Longrightarrow>
   view t s k = Some (v, um_find (s_expires s) k)"
  by (auto simp: view_def expired_at_def split: option.splits)

lemma view_missing: "um_find (s_map s) k = None \<Longrightarrow> view t s k = None"
  by (simp add: view_def)

lemma view_mono:
  assumes "t \<le> t'"
  shows "view t' s k = (case view t s k of
     Some (v, Some d) \<Rightarrow> if d \<le> t' then None else Some (v, Some d) | x \<Rightarrow> x)"
  using assms by (auto simp: view_def split: option.split)

text \<open>A clock that stands still.\<close>

lemma frozen_tick: "frozen t s \<Longrightarrow> s\<lparr>s_clock := stl (s_clock s)\<rparr> = s"
  by (simp add: frozen_def)

lemma frozen_now: "frozen t s \<Longrightarrow> shd (s_clock s) = t"
  by (simp add: frozen_def)

lemma frozen_clock: "frozen t s \<Longrightarrow> store_clock s = (t, s)"
  by (simp add: store_clock_def frozen_tick frozen_now)

lemma frozen_is_expired: "frozen t s \<Longrightarrow> is_expired s k = (expired_at t s k, s)"
  by (auto simp: is_expired_def expired_at_def frozen_clock split: option.split)

lemma frozen_frame [simp]:
  "frozen t (store_remove s k) = frozen t s"
  "frozen t (store_set s k v e) = frozen t s"
  "frozen t (store_clear s) = frozen t s"
  "frozen t (count_lazy s) = frozen t s"
  "frozen t (count_active n s) = frozen t s"
  "frozen t (s\<lparr>s_expires := x\<rparr>) = frozen t s"
  "frozen t (s\<lparr>s_stats := y\<rparr>) = frozen t s"
  "frozen t (s\<lparr>s_cursor := i\<rparr>) = frozen t s"
  by (simp_all add: frozen_def store_remove_def store_set_def store_clear_def count_lazy_def
      count_active_def Let_def)

lemma frozen_remove_all [simp]: "frozen t (foldl store_remove s ks) = frozen t s"
  by (induction ks arbitrary: s) simp_all

text \<open>The operations on a still clock, in terms of the state at that time.\<close>

lemma view_expired_later: "expired_at t s k \<Longrightarrow> t \<le> u \<Longrightarrow> (view u s)(k := None) = view u s"
  by (rule fun_upd_idem, rule view_expired) (auto simp: expired_at_def split: option.splits)

lemma view_drop_missing: "um_find (s_map s) k = None \<Longrightarrow> (view u s)(k := None) = view u s"
  by (rule fun_upd_idem, rule view_missing)

lemmas frozen_simps = frozen_is_expired frozen_clock frozen_tick frozen_now

lemmas view_cases = view_expired view_live view_missing view_expired_later view_drop_missing

lemma key_cases:
  obtains (missing) "um_find (s_map s) k = None" "view t s k = None"
  | (dead) v where "um_find (s_map s) k = Some v" "expired_at t s k" "view t s k = None"
  | (live) v where "um_find (s_map s) k = Some v" "\<not> expired_at t s k"
      "view t s k = Some (v, um_find (s_expires s) k)"
  using view_expired view_live view_missing by (metis option.exhaust)

lemma card_insert_Int:
  assumes "finite A"
  shows "card (insert k A \<inter> D) = (if k \<in> D then Suc (card ((A \<inter> D) - {k})) else card (A \<inter> D))"
proof (cases "k \<in> D")
  case True
  then have i: "insert k A \<inter> D = insert k ((A \<inter> D) - {k})" by auto
  have "card (insert k ((A \<inter> D) - {k})) = Suc (card ((A \<inter> D) - {k}))"
    by (rule card_insert_disjoint) (use assms in auto)
  with True show ?thesis unfolding i by simp
qed (simp add: Int_insert_left)

lemma store_get_frozen:
  assumes "frozen t s" "store_inv s"
  shows "fst (store_get s k) = map_option fst (view t s k)"
    and "t \<le> u \<Longrightarrow> view u (snd (store_get s k)) = view u s"
    and "frozen t (snd (store_get s k))"
  using assms
  by (cases rule: key_cases [of s k t]; simp add: store_get_def frozen_simps view_expired_later)+

lemma store_erase_frozen:
  assumes "frozen t s" "store_inv s"
  shows "fst (store_erase s k) = (view t s k \<noteq> None)"
    and "t \<le> u \<Longrightarrow> view u (snd (store_erase s k)) = (view u s)(k := None)"
    and "frozen t (snd (store_erase s k))"
  using assms
  by (cases rule: key_cases [of s k t];
      simp add: store_erase_def frozen_simps view_expired_later view_drop_missing)+

lemma store_pttl_frozen:
  assumes "frozen t s" "store_inv s"
  shows "fst (store_pttl s k) = (case view t s k of
      None \<Rightarrow> -2 | Some (v, None) \<Rightarrow> -1 | Some (v, Some d) \<Rightarrow> wrap64 (d - t))"
    and "t \<le> u \<Longrightarrow> view u (snd (store_pttl s k)) = view u s"
    and "frozen t (snd (store_pttl s k))"
  using assms
  by (cases rule: key_cases [of s k t];
      simp add: store_pttl_def frozen_simps view_expired_later split: option.split)+

lemma store_expire_at_frozen:
  assumes "frozen t s" "store_inv s"
  shows "fst (store_expire_at s k d) = (view t s k \<noteq> None)"
    and "t \<le> u \<Longrightarrow> view u (snd (store_expire_at s k d)) = (view u s)(k := (case view t s k of
      None \<Rightarrow> None | Some (v, _) \<Rightarrow> if d \<le> u then None else Some (v, Some d)))"
    and "frozen t (snd (store_expire_at s k d))"
  using assms
  by (cases rule: key_cases [of s k t];
      simp add: store_expire_at_def frozen_simps view_expired_later view_drop_missing view_deadline)+

lemma store_persist_frozen:
  assumes "frozen t s" "store_inv s"
  shows "fst (store_persist s k) = (\<exists>v d. view t s k = Some (v, Some d))"
    and "t \<le> u \<Longrightarrow> view u (snd (store_persist s k)) =
      (view u s)(k := map_option (\<lambda>(v, _). (v, None)) (view t s k))"
    and "frozen t (snd (store_persist s k))"
  using assms
  by (cases rule: key_cases [of s k t];
      simp add: store_persist_def frozen_simps view_expired_later view_drop_missing view_unexpire)+

section \<open>The contract of a keyspace with deadlines\<close>

text \<open>
  \<open>view u s\<close> is what a reader sees at time \<open>u\<close>; each law holds for every later time, so that
  a replica that looks later than the writer sees the same.
\<close>

locale ttl_store =
  fixes view :: "int \<Rightarrow> 's \<Rightarrow> keyspace"
    and now :: "'s \<Rightarrow> int"
    and invar :: "'s \<Rightarrow> bool"
    and get :: "'s \<Rightarrow> string \<Rightarrow> string option \<times> 's"
    and set :: "'s \<Rightarrow> string \<Rightarrow> string \<Rightarrow> int \<Rightarrow> 's"
    and erase :: "'s \<Rightarrow> string \<Rightarrow> bool \<times> 's"
  assumes get_value: "invar s \<Longrightarrow> fst (get s k) = map_option fst (view (now s) s k)"
    and get_view: "invar s \<Longrightarrow> now s \<le> u \<Longrightarrow> view u (snd (get s k)) = view u s"
    and get_invar: "invar s \<Longrightarrow> invar (snd (get s k)) \<and> now (snd (get s k)) = now s"
    and set_view: "invar s \<Longrightarrow> view u (set s k v e) = (view u s)(k := visible u v e)"
    and set_invar: "invar s \<Longrightarrow> invar (set s k v e) \<and> now (set s k v e) = now s"
    and erase_value: "invar s \<Longrightarrow> fst (erase s k) = (view (now s) s k \<noteq> None)"
    and erase_view: "invar s \<Longrightarrow> now s \<le> u \<Longrightarrow> view u (snd (erase s k)) = (view u s)(k := None)"
    and erase_invar: "invar s \<Longrightarrow> invar (snd (erase s k)) \<and> now (snd (erase s k)) = now s"
begin

primrec erase_each :: "'s \<Rightarrow> string list \<Rightarrow> nat \<times> 's" where
  "erase_each s [] = (0, s)"
| "erase_each s (k # ks) =
     (let (live, s1) = erase s k; (n, s2) = erase_each s1 ks in (if live then Suc n else n, s2))"

lemma erase_each_invar:
  "invar s \<Longrightarrow> invar (snd (erase_each s ks)) \<and> now (snd (erase_each s ks)) = now s"
proof (induction ks arbitrary: s)
  case (Cons k ks)
  with erase_invar [of s k] show ?case by (auto simp: case_prod_unfold Let_def)
qed simp

lemma erase_each_view:
  assumes "invar s" "now s \<le> u"
  shows "view u (snd (erase_each s ks)) = view u s |` (- List.set ks)"
  using assms
proof (induction ks arbitrary: s)
  case (Cons k ks)
  have "view u (snd (erase_each (snd (erase s k)) ks)) = (view u s)(k := None) |` (- List.set ks)"
    using Cons.IH [of "snd (erase s k)"] erase_invar [OF Cons.prems(1), of k] Cons.prems(2)
    by (simp only: erase_view [OF Cons.prems])
  then show ?case by (auto simp: case_prod_unfold Let_def restrict_map_def fun_eq_iff)
qed (simp add: restrict_map_def)

text \<open>The count is the number of distinct keys that were live.\<close>

lemma erase_each_count:
  "invar s \<Longrightarrow> fst (erase_each s ks) = card (List.set ks \<inter> dom (view (now s) s))"
proof (induction ks arbitrary: s)
  case (Cons k ks)
  let ?V = "view (now s) s"
  have e: "invar (snd (erase s k))" "now (snd (erase s k)) = now s"
    "view (now s) (snd (erase s k)) = ?V(k := None)"
    using erase_invar [OF Cons.prems] erase_view [OF Cons.prems order.refl] by auto
  have "fst (erase_each (snd (erase s k)) ks) = card (List.set ks \<inter> dom (?V(k := None)))"
    using Cons.IH [OF e(1)] by (simp only: e(2,3))
  moreover have "List.set ks \<inter> dom (?V(k := None)) = (List.set ks \<inter> dom ?V) - {k}" by auto
  moreover have "card (List.set (k # ks) \<inter> dom ?V) =
      (if k \<in> dom ?V then Suc (card ((List.set ks \<inter> dom ?V) - {k})) else card (List.set ks \<inter> dom ?V))"
    by (simp only: list.set card_insert_Int finite_set)
  moreover have "k \<notin> dom ?V \<Longrightarrow> (List.set ks \<inter> dom ?V) - {k} = List.set ks \<inter> dom ?V" by auto
  ultimately show ?case
    using erase_value [OF Cons.prems, of k] by (auto simp: case_prod_unfold Let_def domIff)
qed simp

lemma get_after_set:
  assumes "invar s"
  shows "fst (get (set s k v e) k) = (if e = kNoExpiry \<or> now s < e then Some v else None)"
  using get_value [of "set s k v e" k] set_view [OF assms] set_invar [OF assms]
  by (auto simp: visible_def)

lemma get_after_set_other:
  "invar s \<Longrightarrow> k' \<noteq> k \<Longrightarrow> fst (get (set s k v e) k') = fst (get s k')"
  using get_value [of "set s k v e" k'] get_value [of s k'] set_view set_invar by simp

lemma get_after_erase: "invar s \<Longrightarrow> fst (get (snd (erase s k)) k) = None"
  using get_value [of "snd (erase s k)" k] erase_invar [of s k] erase_view [of s "now s" k] by simp

end

definition store_now :: "store \<Rightarrow> int" where
  "store_now s = shd (s_clock s)"

definition still :: "store \<Rightarrow> bool" where
  "still s \<longleftrightarrow> store_inv s \<and> frozen (store_now s) s"

lemma stillI: "frozen t s \<Longrightarrow> store_inv s \<Longrightarrow> still s \<and> store_now s = t"
  by (auto simp: still_def store_now_def frozen_now)

interpretation ks: ttl_store view store_now still store_get store_set store_erase
proof unfold_locales
  fix s :: store and k v :: string and e u :: int
  assume s: "still s"
  then have f: "frozen (store_now s) s" and i: "store_inv s" by (auto simp: still_def)
  show "fst (store_get s k) = map_option fst (view (store_now s) s k)"
    using store_get_frozen(1) [OF f i] .
  show "view u (snd (store_get s k)) = view u s" if "store_now s \<le> u"
    using store_get_frozen(2) [OF f i that] .
  show "still (snd (store_get s k)) \<and> store_now (snd (store_get s k)) = store_now s"
    by (rule stillI) (simp_all add: store_get_frozen(3) [OF f i] i)
  show "view u (store_set s k v e) = (view u s)(k := visible u v e)" using i by simp
  show "still (store_set s k v e) \<and> store_now (store_set s k v e) = store_now s"
    by (rule stillI) (simp_all add: f i)
  show "fst (store_erase s k) = (view (store_now s) s k \<noteq> None)"
    using store_erase_frozen(1) [OF f i] .
  show "view u (snd (store_erase s k)) = (view u s)(k := None)" if "store_now s \<le> u"
    using store_erase_frozen(2) [OF f i that] .
  show "still (snd (store_erase s k)) \<and> store_now (snd (store_erase s k)) = store_now s"
    by (rule stillI) (simp_all add: store_erase_frozen(3) [OF f i] i)
qed

section \<open>Counting, listing and copying the keyspace\<close>

lemma dom_view: "dom (view t s) = dom (um_find (s_map s)) - {k. expired_at t s k}"
  by (auto simp: view_def expired_at_def split: option.splits if_splits)

lemma expired_count:
  assumes "store_inv s"
  shows "length (filter (\<lambda>(key, deadline). t \<ge> deadline) (um_entries (s_expires s))) =
     card {k. expired_at t s k}"
proof -
  have inv: "um_inv (s_expires s)" using assms by (simp add: store_inv_def)
  have "{k. \<exists>v. um_find (s_expires s) k = Some v \<and> (\<lambda>(key, deadline). t \<ge> deadline) (k, v)} =
      {k. expired_at t s k}"
    by (auto simp: expired_at_def split: option.splits)
  then show ?thesis by (simp only: um.length_filter_entries [OF inv])
qed

lemma expired_subset: "store_inv s \<Longrightarrow> {k. expired_at t s k} \<subseteq> dom (um_find (s_map s))"
  by (auto simp: store_inv_def expired_at_def split: option.splits)

lemma store_size_live:
  assumes "store_inv s"
  shows "fst (store_size s) = int (card (dom (view (store_now s) s)))"
proof -
  let ?E = "{k. expired_at (store_now s) s k}"
  have sz: "um_size (s_map s) = card (dom (um_find (s_map s)))"
    and fin: "finite (dom (um_find (s_map s)))"
    using assms um.length_entries um.finite_dom by (auto simp: store_inv_def um_size_def)
  have sub: "?E \<subseteq> dom (um_find (s_map s))" using assms by (rule expired_subset)
  have "card (dom (um_find (s_map s)) - ?E) = card (dom (um_find (s_map s))) - card ?E"
    by (rule card_Diff_subset [OF finite_subset [OF sub fin] sub])
  moreover have "card ?E \<le> card (dom (um_find (s_map s)))" by (rule card_mono [OF fin sub])
  ultimately have "int (card (dom (view (store_now s) s))) =
      int (card (dom (um_find (s_map s)))) - int (card ?E)"
    by (simp add: dom_view)
  then show ?thesis
    using expired_count [OF assms, of "store_now s"]
    by (simp add: store_size_def store_clock_def Let_def sz store_now_def)
qed

lemma keys_loop_frozen:
  assumes "frozen t s"
  shows "keys_loop pattern es out dead s =
     (out @ filter (\<lambda>k. \<not> expired_at t s k \<and> glob_match pattern k) (map fst es),
      dead @ filter (expired_at t s) (map fst es), s)"
proof (induction es arbitrary: out dead)
  case (Cons e es)
  then show ?case by (cases e) (simp add: frozen_is_expired [OF assms])
qed simp

lemma reap_dead_view:
  assumes "store_inv s" "\<forall>k \<in> set ks. view u s k = None"
  shows "view u (foldl (\<lambda>st key. count_lazy (store_remove st key)) s ks) = view u s"
  using assms
proof (induction ks arbitrary: s)
  case (Cons k ks)
  have "view u (count_lazy (store_remove s k)) = view u s"
    using Cons.prems by (simp add: fun_upd_idem)
  moreover have "store_inv (count_lazy (store_remove s k))" using Cons.prems by simp
  ultimately show ?case using Cons.IH [of "count_lazy (store_remove s k)"] Cons.prems(2) by simp
qed simp

lemma store_keys_frozen:
  assumes "frozen t s" "store_inv s"
  shows "set (fst (store_keys s pattern)) = {k. view t s k \<noteq> None \<and> glob_match pattern k}"
    and "distinct (fst (store_keys s pattern))"
    and "t \<le> u \<Longrightarrow> view u (snd (store_keys s pattern)) = view u s"
proof -
  have inv: "um_inv (s_map s)" using assms(2) by (simp add: store_inv_def)
  note k = keys_loop_frozen [OF assms(1), of pattern "um_entries (s_map s)" "[]" "[]"]
  have "set (fst (store_keys s pattern)) =
      {k \<in> fst ` set (um_entries (s_map s)). \<not> expired_at t s k \<and> glob_match pattern k}"
    by (auto simp: store_keys_def k)
  also have "\<dots> = {k \<in> dom (view t s). glob_match pattern k}"
    unfolding um.fst_entries [OF inv] dom_view by blast
  finally show "set (fst (store_keys s pattern)) = {k. view t s k \<noteq> None \<and> glob_match pattern k}"
    by (simp add: dom_def)
  show "distinct (fst (store_keys s pattern))"
    using um.distinct_entries [OF inv] by (simp add: store_keys_def k)
  show "view u (snd (store_keys s pattern)) = view u s" if "t \<le> u"
    unfolding store_keys_def k using assms(2) that
    by (auto intro!: reap_dead_view view_expired simp: expired_at_def split: option.splits)
qed

text \<open>A snapshot is the abstract keyspace as a list of records.\<close>

definition deadline_opt :: "int \<Rightarrow> int option" where
  "deadline_opt e = (if e = kNoExpiry then None else Some e)"

definition record_of :: "kv_record list \<Rightarrow> string \<Rightarrow> (string \<times> int) option" where
  "record_of rs = map_of (map (\<lambda>r. (rec_key r, rec_value r, rec_expire_at r)) rs)"

lemma snapshot_eq:
  assumes "store_inv s"
  defines "t \<equiv> store_now s"
  shows "fst (store_snapshot s) =
     map (\<lambda>(k, v). \<lparr>rec_key = k, rec_value = v,
            rec_expire_at = (case um_find (s_expires s) k of None \<Rightarrow> kNoExpiry | Some d \<Rightarrow> d)\<rparr>)
       (filter (\<lambda>(k, v). \<not> expired_at t s k) (um_entries (s_map s)))"
proof -
  have "um_find (s_expires s) k \<noteq> Some kNoExpiry" for k
    using assms by (auto simp: store_inv_def ran_def)
  then have "(\<not> ((case um_find (s_expires s) k of None \<Rightarrow> kNoExpiry | Some d \<Rightarrow> d) \<noteq> kNoExpiry \<and>
      (case um_find (s_expires s) k of None \<Rightarrow> kNoExpiry | Some d \<Rightarrow> d) \<le> t)) = (\<not> expired_at t s k)" for k
    by (auto simp: expired_at_def split: option.splits)
  then show ?thesis
    by (simp add: store_snapshot_def store_clock_def Let_def t_def [unfolded store_now_def, symmetric]
        case_prod_unfold)
qed

lemma snapshot_keys_distinct:
  assumes "store_inv s"
  shows "distinct (map rec_key (fst (store_snapshot s)))"
proof -
  have "distinct (map fst (um_entries (s_map s)))"
    using assms um.distinct_entries by (auto simp: store_inv_def)
  moreover have "map rec_key (fst (store_snapshot s)) =
      map fst (filter (\<lambda>(k, v). \<not> expired_at (store_now s) s k) (um_entries (s_map s)))"
    by (simp add: snapshot_eq [OF assms] case_prod_unfold)
  ultimately show ?thesis by (simp add: distinct_map_filter)
qed

lemma snapshot_record_of:
  assumes inv: "store_inv s"
  shows "map_option (\<lambda>(v, e). (v, deadline_opt e)) (record_of (fst (store_snapshot s)) k) =
     view (store_now s) s k"
proof -
  let ?t = "store_now s"
  let ?f = "\<lambda>k. (case um_find (s_expires s) k of None \<Rightarrow> kNoExpiry | Some d \<Rightarrow> d)"
  have m: "um_inv (s_map s)" using inv by (simp add: store_inv_def)
  have of_f: "map_of (map (\<lambda>(k, v). (k, v, ?f k)) (filter (\<lambda>(k, v). P k) es)) k =
      (if P k then map_option (\<lambda>v. (v, ?f k)) (map_of es k) else None)"
    for P and es :: "(string \<times> string) list"
    by (induction es) auto
  have "record_of (fst (store_snapshot s)) k =
      (if \<not> expired_at ?t s k then map_option (\<lambda>v. (v, ?f k)) (um_find (s_map s) k) else None)"
    using of_f [of "\<lambda>k. \<not> expired_at ?t s k" "um_entries (s_map s)"] um.map_of_entries [OF m]
    by (simp add: record_of_def snapshot_eq [OF inv] comp_def case_prod_unfold)
  moreover have "deadline_opt (?f k) = um_find (s_expires s) k"
    using inv by (auto simp: deadline_opt_def store_inv_def ran_def split: option.split)
  ultimately show ?thesis by (cases rule: key_cases [of s k ?t]) auto
qed

lemma snapshot_view [simp]: "view u (snd (store_snapshot s)) = view u s"
  by (simp add: store_snapshot_def store_clock_def Let_def)

lemma load_record_frozen:
  assumes "frozen t s" "store_inv s"
  shows "frozen t (load_record s r)"
    and "view u (load_record s r) =
      (if rec_expire_at r \<noteq> kNoExpiry \<and> rec_expire_at r \<le> t then view u s
       else (view u s)(rec_key r := visible u (rec_value r) (rec_expire_at r)))"
  using assms by (auto simp: load_record_def frozen_simps Let_def)

lemma load_all_frozen:
  assumes "frozen t s" "store_inv s" "distinct (map rec_key rs)" "t \<le> u"
    and "\<forall>r \<in> set rs. view u s (rec_key r) = None"
  shows "view u (foldl load_record s rs) k =
     (case record_of rs k of Some (v, e) \<Rightarrow> visible u v e | None \<Rightarrow> view u s k)"
  using assms
proof (induction rs arbitrary: s)
  case (Cons r rs)
  let ?s = "load_record s r"
  have s: "frozen t ?s" "store_inv ?s" using Cons.prems load_record_frozen(1) by auto
  have v: "view u ?s = (view u s)(rec_key r := visible u (rec_value r) (rec_expire_at r))"
    using Cons.prems load_record_frozen(2) [OF Cons.prems(1,2), of u r]
    by (auto simp: visible_def fun_eq_iff)
  have none: "record_of rs (rec_key r) = None"
    using Cons.prems(3) by (force simp: record_of_def map_of_eq_None_iff)
  have "\<forall>r' \<in> set rs. rec_key r' \<noteq> rec_key r"
    using Cons.prems(3) by (metis distinct.simps(2) image_eqI list.simps(9) set_map)
  then have "\<forall>r' \<in> set rs. view u ?s (rec_key r') = None" using Cons.prems(5) by (simp add: v)
  with Cons.IH [OF s] Cons.prems(3,4) have "view u (foldl load_record ?s rs) k =
      (case record_of rs k of Some (v, e) \<Rightarrow> visible u v e | None \<Rightarrow> view u ?s k)"
    by simp
  then show ?case using none by (auto simp: v record_of_def split: option.split)
qed (simp add: record_of_def)

text \<open>The records of a snapshot, read back at a later time, are the keyspace of that time.\<close>

lemma snapshot_visible:
  assumes "store_inv s" "store_now s \<le> u"
  shows "(case record_of (fst (store_snapshot s)) k of Some (v, e) \<Rightarrow> visible u v e | None \<Rightarrow> None) = view u s k"
proof -
  have vis: "(case map_option (\<lambda>(v, e). (v, deadline_opt e)) x of
      Some (v, Some d) \<Rightarrow> if d \<le> u then None else Some (v, Some d) | y \<Rightarrow> y) =
    (case x of Some (v, e) \<Rightarrow> visible u v e | None \<Rightarrow> None)" for x
    by (auto simp: visible_def deadline_opt_def split: option.split)
  show ?thesis
    unfolding vis [symmetric] snapshot_record_of [OF assms(1)]
    using view_mono [OF assms(2), of s k] by simp
qed

text \<open>
  Loading a snapshot into a cleared store, at any later time, reproduces the keyspace as
  it is at every time from then on.
\<close>

lemma load_snapshot_view:
  assumes s: "store_inv s" and q: "store_inv q" "frozen t q" and le: "store_now s \<le> t" "t \<le> u"
  shows "view u (foldl load_record (store_clear q) (fst (store_snapshot s))) = view u s"
proof
  fix k
  have "store_now s \<le> u" using le by simp
  from snapshot_visible [OF s this, of k] load_all_frozen [of t "store_clear q" "fst (store_snapshot s)" u k]
    q le snapshot_keys_distinct [OF s]
  show "view u (foldl load_record (store_clear q) (fst (store_snapshot s))) k = view u s k"
    by (simp cong: option.case_cong)
qed

section \<open>The active expiry cycle\<close>

lemma sample_loop_eq:
  assumes "visited \<le> length bs" "bs \<noteq> []" "cursor < length bs"
    and "out = take n (map fst (concat (take visited (rotate cursor bs))))"
  shows "fst (sample_loop bs cursor n visited out) = take n (map fst (concat (rotate cursor bs)))"
  using assms
proof (induction bs cursor n visited out rule: sample_loop.induct)
  case (1 bs cursor n visited out)
  let ?pre = "map fst (concat (take visited (rotate cursor bs)))"
  let ?b = "bs ! ((cursor + visited) mod length bs)"
  show ?case
  proof (cases "visited < length bs \<and> length out < n")
    case True
    then have "length ?pre \<le> n" using "1.prems"(4) by (auto simp: min_less_iff_disj)
    then have short: "out = ?pre" using "1.prems"(4) by simp
    have nth: "rotate cursor bs ! visited = ?b" using True by (simp add: nth_rotate)
    have "take (Suc visited) (rotate cursor bs) = take visited (rotate cursor bs) @ [?b]"
      using True nth by (simp add: take_Suc_conv_app_nth)
    then have next_out: "out @ take (n - length out) (map fst ?b) =
        take n (map fst (concat (take (visited + 1) (rotate cursor bs))))"
      using True short by simp
    have "fst (sample_loop bs cursor n (visited + 1) (out @ take (n - length out) (map fst ?b))) =
        take n (map fst (concat (rotate cursor bs)))"
      by (rule "1.IH" [OF True refl _ "1.prems"(2,3) next_out]) (use True in simp)
    with True show ?thesis by (subst sample_loop.simps) (simp only: Let_def if_True simp_thms)
  next
    case False
    have "take n ?pre = take n (map fst (concat (rotate cursor bs)))"
    proof (cases "visited < length bs")
      case True
      with False "1.prems"(4) have n: "n \<le> length ?pre" by auto
      have "concat (rotate cursor bs) =
          concat (take visited (rotate cursor bs)) @ concat (drop visited (rotate cursor bs))"
        by (metis append_take_drop_id concat_append)
      with n show ?thesis by simp
    next
      case False
      with "1.prems"(1) show ?thesis by simp
    qed
    with False "1.prems"(4) show ?thesis by (subst sample_loop.simps) auto
  qed
qed

lemma set_concat_rotate: "set (concat (rotate n xs)) = set (concat xs)"
  by simp

lemma distinct_concat_rotate:
  "distinct (map fst (concat xs)) \<Longrightarrow> distinct (map fst (concat (rotate n xs)))"
proof -
  assume d: "distinct (map fst (concat xs))"
  have "mset (concat (rotate n xs)) = mset (concat xs)"
  proof (induction n)
    case (Suc n)
    have "mset (concat (rotate1 ys)) = mset (concat ys)" for ys :: "('a \<times> 'b) list list"
      by (cases ys) simp_all
    with Suc show ?case by simp
  qed simp
  then have "mset (map fst (concat (rotate n xs))) = mset (map fst (concat xs))" by simp
  with d show ?thesis by (metis mset_eq_imp_distinct_iff)
qed

text \<open>A sample is made of distinct keys of the index, as many as asked for if there are.\<close>

lemma sample_expiring_spec:
  assumes "store_inv s"
  shows "distinct (fst (sample_expiring s n))"
    and "set (fst (sample_expiring s n)) \<subseteq> dom (um_find (s_expires s))"
    and "length (fst (sample_expiring s n)) = min n (um_size (s_expires s))"
proof -
  let ?bs = "um_buckets (s_expires s)"
  define c where "c = (if s_cursor s \<ge> um_bucket_count (s_expires s) then 0 else s_cursor s)"
  have inv: "um_inv (s_expires s)" using assms by (simp add: store_inv_def)
  have "distinct (map fst (concat ?bs))"
    using um.distinct_entries [OF inv] by (simp add: um_entries_def)
  then have d: "distinct (map fst (concat (rotate c ?bs)))" by (rule distinct_concat_rotate)
  have dom: "fst ` set (concat (rotate c ?bs)) = dom (um_find (s_expires s))"
    using um.fst_entries [OF inv] by (simp only: set_concat_rotate um_entries_def)
  have len: "length (concat (rotate c ?bs)) = um_size (s_expires s)"
    using distinct_card [OF d] um.length_entries [OF inv] dom by (simp add: um_size_def)
  have *: "fst (sample_expiring s n) = take n (map fst (concat (rotate c ?bs)))"
  proof (cases "um_size (s_expires s) = 0 \<or> n = 0")
    case True
    then show ?thesis using len by (auto simp: sample_expiring_def)
  next
    case False
    then have "?bs \<noteq> []" using len by auto
    then have "c < length ?bs" by (simp add: c_def um_bucket_count_def)
    with \<open>?bs \<noteq> []\<close> have "fst (sample_loop ?bs c n 0 []) = take n (map fst (concat (rotate c ?bs)))"
      by (intro sample_loop_eq) simp_all
    with False \<open>?bs \<noteq> []\<close> show ?thesis
      by (simp add: sample_expiring_def c_def um_bucket_count_def Let_def case_prod_unfold)
  qed
  show "distinct (fst (sample_expiring s n))" using d by (simp add: *)
  show "set (fst (sample_expiring s n)) \<subseteq> dom (um_find (s_expires s))"
    using dom set_take_subset [of n "map fst (concat (rotate c ?bs))"] by (simp add: *)
  show "length (fst (sample_expiring s n)) = min n (um_size (s_expires s))"
    using len by (simp add: * min.commute)
qed

lemma sample_expiring_frame [simp]:
  "s_map (snd (sample_expiring s n)) = s_map s"
  "s_expires (snd (sample_expiring s n)) = s_expires s"
  "s_clock (snd (sample_expiring s n)) = s_clock s"
  "s_stats (snd (sample_expiring s n)) = s_stats s"
  by (simp_all add: sample_expiring_def Let_def case_prod_unfold)

lemma expired_at_frame [simp]:
  "expired_at t (s\<lparr>s_clock := c\<rparr>) = expired_at t s"
  "expired_at t (s\<lparr>s_stats := x\<rparr>) = expired_at t s"
  "expired_at t (count_active n s) = expired_at t s"
  "expired_at t (snd (sample_expiring s n)) = expired_at t s"
  by (simp_all add: expired_at_def fun_eq_iff count_active_def)

lemma remove_maps:
  assumes "store_inv s"
  shows "um_find (s_map (store_remove s k)) = (um_find (s_map s))(k := None)"
    and "um_find (s_expires (store_remove s k)) = (um_find (s_expires s))(k := None)"
    and "s_clock (store_remove s k) = s_clock s"
  using assms by (simp_all add: store_remove_def store_inv_def)

lemma remove_all_maps:
  assumes "store_inv s"
  shows "um_find (s_map (foldl store_remove s ks)) = um_find (s_map s) |` (- set ks) \<and>
    um_find (s_expires (foldl store_remove s ks)) = um_find (s_expires s) |` (- set ks) \<and>
    s_clock (foldl store_remove s ks) = s_clock s"
  using assms
proof (induction ks arbitrary: s)
  case (Cons k ks)
  have drop: "(f(k := None)) |` (- set ks) = f |` (- set (k # ks))" for f :: "string \<rightharpoonup> 'a"
    by (auto simp: restrict_map_def fun_eq_iff)
  from Cons.IH [OF store_inv_remove [OF Cons.prems], of k] show ?case
    by (simp only: remove_maps [OF Cons.prems] foldl_Cons simp_thms drop)
qed (simp add: restrict_map_def)

definition pass_dead :: "expiry_config \<Rightarrow> store \<Rightarrow> string list" where
  "pass_dead cfg s = filter (expired_at (store_now s) s) (fst (sample_expiring s (sample_size cfg)))"

lemma sample_expiring_stats:
  "fst (sample_expiring (s\<lparr>s_stats := x\<rparr>) n) = fst (sample_expiring s n)"
  by (simp add: sample_expiring_def Let_def case_prod_unfold)

lemma expire_pass_eq:
  obtains s3 where
    "fst (sample_expiring s (sample_size cfg)) = []"
    "expire_pass cfg s = (0, True, s3)" "pass_dead cfg s = []"
    "s_map s3 = s_map s" "s_expires s3 = s_expires s" "s_clock s3 = s_clock s"
    "expired_active (s_stats s3) = expired_active (s_stats s)"
  | s3 where "fst (sample_expiring s (sample_size cfg)) \<noteq> []"
    "expire_pass cfg s = (length (pass_dead cfg s),
       length (pass_dead cfg s) \<le>
         length (fst (sample_expiring s (sample_size cfg))) * continue_threshold_pct cfg div 100,
       count_active (length (pass_dead cfg s)) (foldl store_remove s3 (pass_dead cfg s)))"
    "s_map s3 = s_map s" "s_expires s3 = s_expires s" "s_clock s3 = stl (s_clock s)"
    "expired_active (s_stats s3) = expired_active (s_stats s)"
proof -
  define s1 where "s1 = s\<lparr>s_stats := (s_stats s)\<lparr>passes := Suc (passes (s_stats s))\<rparr>\<rparr>"
  define s2 where "s2 = snd (sample_expiring s1 (sample_size cfg))"
  have sampled: "fst (sample_expiring s1 (sample_size cfg)) = fst (sample_expiring s (sample_size cfg))"
    by (simp add: s1_def sample_expiring_stats)
  have f: "s_map s2 = s_map s" "s_expires s2 = s_expires s" "s_clock s2 = s_clock s"
    "expired_active (s_stats s2) = expired_active (s_stats s)"
    by (simp_all add: s2_def s1_def)
  have dead: "filter (\<lambda>key. case um_find (s_expires s2) key of None \<Rightarrow> False
      | Some deadline \<Rightarrow> deadline \<le> shd (s_clock s2)) (fst (sample_expiring s (sample_size cfg))) =
      pass_dead cfg s"
    unfolding pass_dead_def f by (rule filter_cong) (simp_all add: expired_at_def store_now_def)
  show thesis
  proof (cases "fst (sample_expiring s (sample_size cfg)) = []")
    case True
    show thesis
      by (rule that(1) [of s2]) (use True f in \<open>simp_all add: expire_pass_def s1_def [symmetric]
          s2_def [symmetric] sampled Let_def case_prod_unfold pass_dead_def\<close>)
  next
    case False
    show thesis
      by (rule that(2) [of "s2\<lparr>s_clock := stl (s_clock s2)\<rparr>"])
         (use False f dead in \<open>simp_all add: expire_pass_def s1_def [symmetric] s2_def [symmetric]
          sampled Let_def case_prod_unfold cong: option.case_cong\<close>)
  qed
qed

lemma expire_pass_effect:
  fixes cfg :: expiry_config
  assumes inv: "store_inv s"
  defines "s' \<equiv> snd (snd (expire_pass cfg s))" and "dead \<equiv> pass_dead cfg s"
  shows "fst (expire_pass cfg s) = length dead"
    and "um_find (s_map s') = um_find (s_map s) |` (- set dead)"
    and "um_find (s_expires s') = um_find (s_expires s) |` (- set dead)"
    and "s_clock s' = s_clock s \<or> s_clock s' = stl (s_clock s)"
    and "expired_active (s_stats s') = expired_active (s_stats s) + length dead"
    and "store_inv s'"
proof -
  have stats: "expired_active (s_stats (foldl store_remove x ks)) = expired_active (s_stats x)" for x ks
    by (induction ks arbitrary: x) (simp_all add: store_remove_def)
  have "fst (expire_pass cfg s) = length dead \<and>
    um_find (s_map s') = um_find (s_map s) |` (- set dead) \<and>
    um_find (s_expires s') = um_find (s_expires s) |` (- set dead) \<and>
    (s_clock s' = s_clock s \<or> s_clock s' = stl (s_clock s)) \<and>
    expired_active (s_stats s') = expired_active (s_stats s) + length dead"
  proof (cases rule: expire_pass_eq [of s cfg])
    case (1 s3)
    then show ?thesis unfolding s'_def dead_def by (simp add: restrict_map_def)
  next
    case (2 s3)
    have "store_inv s3" by (rule store_inv_frame [OF inv]) (use 2 in \<open>auto dest: stl_sset\<close>)
    note m = remove_all_maps [OF this, of dead]
    from 2 show ?thesis
      unfolding s'_def by (simp add: dead_def [symmetric] m count_active_def stats)
  qed
  then show "fst (expire_pass cfg s) = length dead"
    and "um_find (s_map s') = um_find (s_map s) |` (- set dead)"
    and "um_find (s_expires s') = um_find (s_expires s) |` (- set dead)"
    and "s_clock s' = s_clock s \<or> s_clock s' = stl (s_clock s)"
    and "expired_active (s_stats s') = expired_active (s_stats s) + length dead" by blast+
  show "store_inv s'" unfolding s'_def by (rule store_inv_pass [OF inv])
qed

lemma pass_dead_spec:
  assumes "store_inv s"
  shows "distinct (pass_dead cfg s)"
    and "k \<in> set (pass_dead cfg s) \<Longrightarrow> expired_at (store_now s) s k"
    and "length (pass_dead cfg s) \<le> sample_size cfg"
  using sample_expiring_spec [OF assms, of "sample_size cfg"]
  by (auto simp: pass_dead_def intro: order_trans [OF length_filter_le])

lemma expired_at_mono: "expired_at t s k \<Longrightarrow> t \<le> u \<Longrightarrow> expired_at u s k"
  by (auto simp: expired_at_def split: option.splits)

lemma expire_pass_view:
  assumes inv: "store_inv s" and le: "store_now s \<le> u"
  shows "view u (snd (snd (expire_pass cfg s))) = view u s"
proof
  fix k
  have "k \<in> set (pass_dead cfg s) \<Longrightarrow> view u s k = None"
    using pass_dead_spec(2) [OF inv] expired_at_mono le view_expired by blast
  then show "view u (snd (snd (expire_pass cfg s))) k = view u s k"
    by (cases "k \<in> set (pass_dead cfg s)")
       (simp_all add: view_def expire_pass_effect(2,3) [OF inv, of cfg] cong: option.case_cong)
qed

lemma um_size_card: "um_inv m \<Longrightarrow> um_size m = card (dom (um_find m))"
  by (simp add: um_size_def um.length_entries)

lemma store_sizes:
  assumes "store_inv s"
  shows "store_raw_size s = card (dom (um_find (s_map s)))"
    and "store_expires_size s = card (dom (um_find (s_expires s)))"
    and "finite (dom (um_find (s_map s)))" and "finite (dom (um_find (s_expires s)))"
  using assms by (auto simp: store_raw_size_def store_expires_size_def um_size_card store_inv_def
      um.finite_dom)

lemma expire_pass_sizes:
  fixes cfg :: expiry_config
  assumes inv: "store_inv s"
  defines "s' \<equiv> snd (snd (expire_pass cfg s))"
  shows "store_raw_size s' + length (pass_dead cfg s) = store_raw_size s"
    and "store_expires_size s' + length (pass_dead cfg s) = store_expires_size s"
proof -
  let ?D = "set (pass_dead cfg s)"
  have inv': "store_inv s'" unfolding s'_def by (rule store_inv_pass [OF inv])
  have E: "?D \<subseteq> dom (um_find (s_expires s))"
    using sample_expiring_spec(2) [OF inv, of "sample_size cfg"] by (auto simp: pass_dead_def)
  then have M: "?D \<subseteq> dom (um_find (s_map s))" using inv by (auto simp: store_inv_def)
  have card: "card ?D = length (pass_dead cfg s)"
    by (rule distinct_card [OF pass_dead_spec(1) [OF inv]])
  have *: "card (dom (f |` (- ?D))) + card ?D = card (dom f)"
    if "?D \<subseteq> dom f" "finite (dom f)" for f :: "string \<rightharpoonup> 'a"
  proof -
    have "dom (f |` (- ?D)) = dom f - ?D" by auto
    then show ?thesis using that
      by (simp add: card_Diff_subset card_mono)
  qed
  show "store_raw_size s' + length (pass_dead cfg s) = store_raw_size s"
    using * [OF M] store_sizes [OF inv] store_sizes(1) [OF inv'] expire_pass_effect(2) [OF inv, of cfg]
    by (simp add: s'_def card)
  show "store_expires_size s' + length (pass_dead cfg s) = store_expires_size s"
    using * [OF E] store_sizes [OF inv] store_sizes(2) [OF inv'] expire_pass_effect(3) [OF inv, of cfg]
    by (simp add: s'_def card)
qed

lemma expire_pass_clock:
  assumes "store_inv s"
  shows "sset (s_clock (snd (snd (expire_pass cfg s)))) \<subseteq> sset (s_clock s)"
  using expire_pass_effect(4) [OF assms, of cfg] stl_sset by fastforce

lemma expire_passes_view:
  assumes "store_inv s" "\<forall>t \<in> sset (s_clock s). t \<le> u"
  shows "view u (snd (expire_passes cfg n r s)) = view u s"
  using assms
proof (induction n arbitrary: r s)
  case (Suc n)
  let ?s = "snd (snd (expire_pass cfg s))"
  have "store_now s \<le> u" using Suc.prems(2) by (simp add: store_now_def shd_sset)
  then have v: "view u ?s = view u s" by (rule expire_pass_view [OF Suc.prems(1)])
  have "\<forall>t \<in> sset (s_clock ?s). t \<le> u" using Suc.prems expire_pass_clock by blast
  then have "view u (snd (expire_passes cfg n r' ?s)) = view u ?s" for r'
    by (rule Suc.IH [OF store_inv_pass [OF Suc.prems(1)]])
  with v show ?case by (simp add: case_prod_unfold Let_def)
qed simp

lemma expire_passes_count:
  assumes "store_inv s"
  shows "\<exists>k \<le> n * sample_size cfg. fst (expire_passes cfg n r s) = r + k \<and>
    store_raw_size (snd (expire_passes cfg n r s)) + k = store_raw_size s \<and>
    store_expires_size (snd (expire_passes cfg n r s)) + k = store_expires_size s \<and>
    expired_active (s_stats (snd (expire_passes cfg n r s))) = expired_active (s_stats s) + k"
    (is "\<exists>k \<le> _. ?P n r s k")
  using assms
proof (induction n arbitrary: r s)
  case (Suc n)
  let ?s = "snd (snd (expire_pass cfg s))" and ?d = "length (pass_dead cfg s)"
  note e = expire_pass_effect(1,5) [OF Suc.prems, of cfg] expire_pass_sizes [OF Suc.prems, of cfg]
  note d = pass_dead_spec(3) [OF Suc.prems, of cfg]
  from Suc.IH [OF store_inv_pass [OF Suc.prems], of "r + ?d" cfg] obtain k
    where k: "k \<le> n * sample_size cfg" "?P n (r + ?d) ?s k" by blast
  consider "um_size (s_expires s) = 0" | "um_size (s_expires s) \<noteq> 0" "fst (snd (expire_pass cfg s))"
    | "um_size (s_expires s) \<noteq> 0" "\<not> fst (snd (expire_pass cfg s))" by blast
  then show ?case
  proof cases
    case 1
    then show ?thesis by (intro exI [of _ 0]) simp
  next
    case 2
    with e d show ?thesis by (intro exI [of _ ?d]) (simp add: case_prod_unfold Let_def)
  next
    case 3
    with e d k show ?thesis by (intro exI [of _ "?d + k"]) (simp add: case_prod_unfold Let_def)
  qed
qed simp

lemma sample_stats_cycle:
  "store_expires_size (s\<lparr>s_stats := x\<rparr>) = store_expires_size s"
  "store_raw_size (s\<lparr>s_stats := x\<rparr>) = store_raw_size s"
  by (simp_all add: store_expires_size_def store_raw_size_def)

text \<open>When the whole index fits in a sample, one cycle leaves no dead key.\<close>

lemma pass_dead_all:
  assumes inv: "store_inv s" and small: "store_expires_size s \<le> sample_size cfg"
  shows "set (pass_dead cfg s) = {k. expired_at (store_now s) s k}"
proof -
  note sp = sample_expiring_spec [OF inv, of "sample_size cfg"]
  let ?S = "set (fst (sample_expiring s (sample_size cfg)))"
  have "card ?S = card (dom (um_find (s_expires s)))"
    using distinct_card [OF sp(1)] sp(3) small store_sizes(2) [OF inv]
    by (simp add: store_expires_size_def)
  then have "?S = dom (um_find (s_expires s))"
    using card_subset_eq [OF store_sizes(4) [OF inv] sp(2)] by simp
  then show ?thesis by (auto simp: pass_dead_def expired_at_def split: option.splits)
qed

lemma expire_pass_frozen:
  assumes "store_inv s" "frozen t s"
  shows "frozen t (snd (snd (expire_pass cfg s)))"
  using expire_pass_effect(4) [OF assms(1), of cfg] assms(2) by (auto simp: frozen_def)

lemma expired_at_pass:
  assumes "store_inv s"
  shows "expired_at t (snd (snd (expire_pass cfg s))) k \<longleftrightarrow>
     expired_at t s k \<and> k \<notin> set (pass_dead cfg s)"
  by (cases "k \<in> set (pass_dead cfg s)")
     (simp_all add: expired_at_def expire_pass_effect(3) [OF assms, of cfg])

lemma expire_passes_gone:
  assumes "store_inv s" "\<not> expired_at t s k"
  shows "\<not> expired_at t (snd (expire_passes cfg n r s)) k"
  using assms
proof (induction n arbitrary: r s)
  case (Suc n)
  have "\<not> expired_at t (snd (snd (expire_pass cfg s))) k"
    using expired_at_pass [OF Suc.prems(1)] Suc.prems(2) by blast
  with Suc.IH [OF store_inv_pass [OF Suc.prems(1)]] Suc.prems(2) show ?case
    by (simp add: case_prod_unfold Let_def)
qed simp

lemma expire_passes_complete:
  assumes inv: "store_inv s" and f: "frozen t s" and small: "store_expires_size s \<le> sample_size cfg"
  shows "\<not> expired_at t (snd (expire_passes cfg (Suc n) r s)) k"
proof (cases "um_size (s_expires s) = 0")
  case True
  then have "dom (um_find (s_expires s)) = {}"
    using store_sizes(2,4) [OF inv] by (simp add: store_expires_size_def)
  with True show ?thesis by (simp add: expired_at_def)
next
  case False
  have "store_now s = t" using f by (simp add: store_now_def frozen_now)
  then have "\<not> expired_at t (snd (snd (expire_pass cfg s))) k"
    using expired_at_pass [OF inv] pass_dead_all [OF inv small] by blast
  with expire_passes_gone [OF store_inv_pass [OF inv]] False show ?thesis
    by (simp add: case_prod_unfold Let_def)
qed

text \<open>
  A backlog: while every key of the index is dead, no pass stops the cycle, and the cycle
  reaps \<open>sample_size\<close> keys per pass until the index is empty.
\<close>

lemma pass_dead_backlog:
  assumes inv: "store_inv s" and dead: "\<forall>k \<in> dom (um_find (s_expires s)). expired_at (store_now s) s k"
  shows "pass_dead cfg s = fst (sample_expiring s (sample_size cfg))"
  unfolding pass_dead_def using sample_expiring_spec(2) [OF inv] dead
  by (intro filter_True) blast

lemma expire_passes_backlog:
  assumes "store_inv s" "frozen t s" "\<forall>k \<in> dom (um_find (s_expires s)). expired_at t s k"
    and "continue_threshold_pct cfg < 100" "0 < sample_size cfg"
  shows "fst (expire_passes cfg n r s) = r + min (store_expires_size s) (n * sample_size cfg)"
  using assms
proof (induction n arbitrary: r s)
  case (Suc n)
  let ?s = "snd (snd (expire_pass cfg s))" and ?d = "length (pass_dead cfg s)"
  note inv = Suc.prems(1)
  have now: "store_now s = t" using Suc.prems(2) by (simp add: store_now_def frozen_now)
  then have dead: "pass_dead cfg s = fst (sample_expiring s (sample_size cfg))"
    using pass_dead_backlog [OF inv] Suc.prems(3) by simp
  have d: "?d = min (sample_size cfg) (store_expires_size s)"
    using sample_expiring_spec(3) [OF inv] by (simp add: dead store_expires_size_def)
  have "\<forall>k \<in> dom (um_find (s_expires ?s)). expired_at t ?s k"
    using Suc.prems(3) expired_at_pass [OF inv, of t cfg] expire_pass_effect(3) [OF inv, of cfg]
    by auto
  then have IH: "fst (expire_passes cfg n r' ?s) =
      r' + min (store_expires_size ?s) (n * sample_size cfg)" for r'
    using Suc.IH [OF store_inv_pass [OF inv] expire_pass_frozen [OF inv Suc.prems(2)]] Suc.prems(4,5)
    by blast
  have size: "store_expires_size ?s = store_expires_size s - ?d"
    using expire_pass_sizes(2) [OF inv, of cfg] by simp
  show ?case
  proof (cases "um_size (s_expires s) = 0")
    case True
    then show ?thesis by (simp add: store_expires_size_def)
  next
    case False
    then have pos: "0 < ?d" using d Suc.prems(5) by (simp add: store_expires_size_def)
    have "?d * continue_threshold_pct cfg div 100 < ?d"
      using pos Suc.prems(4) by (simp add: less_mult_imp_div_less)
    then have "\<not> fst (snd (expire_pass cfg s))"
      using pos dead by (cases rule: expire_pass_eq [of s cfg]) auto
    with False have "fst (expire_passes cfg (Suc n) r s) =
        r + (?d + min (store_expires_size s - ?d) (n * sample_size cfg))"
      by (simp add: IH expire_pass_effect(1) [OF inv, of cfg] size case_prod_unfold Let_def)
    also have "?d + min (store_expires_size s - ?d) (n * sample_size cfg) =
        min (store_expires_size s) (Suc n * sample_size cfg)"
      unfolding d by (auto simp: min_def)
    finally show ?thesis .
  qed
qed simp

lemma reap_loop_eq:
  "length dead \<le> limit \<Longrightarrow> reap_loop now limit es dead =
     take limit (dead @ map fst (filter (\<lambda>(key, deadline). now \<ge> deadline) es))"
  by (induction now limit es dead rule: reap_loop.induct) (auto simp: take_Cons')

lemma reap_expired_frozen:
  assumes inv: "store_inv s" and le: "store_now s \<le> u"
  shows "fst (reap_expired s limit) = min limit (card {k. expired_at (store_now s) s k})"
    and "view u (snd (reap_expired s limit)) = view u s"
proof -
  let ?dead = "take limit (map fst (filter (\<lambda>(key, deadline). store_now s \<ge> deadline)
    (um_entries (s_expires s))))"
  have r: "reap_expired s limit = (length ?dead,
      count_active (length ?dead) (foldl store_remove (s\<lparr>s_clock := stl (s_clock s)\<rparr>) ?dead))"
    using reap_loop_eq [of "[]" limit "store_now s" "um_entries (s_expires s)"]
    by (simp add: reap_expired_def store_clock_def Let_def store_now_def del: length_take)
  then show "fst (reap_expired s limit) = min limit (card {k. expired_at (store_now s) s k})"
    using expired_count [OF inv, of "store_now s"] by (simp add: min.commute)
  have "um_inv (s_expires s)" using inv by (simp add: store_inv_def)
  then have "expired_at (store_now s) s k" if "k \<in> set ?dead" for k
    using that by (auto simp: um.entries_iff expired_at_def dest!: in_set_takeD)
  then have "view u s k = None" if "k \<in> set ?dead" for k
    using that le expired_at_mono view_expired by blast
  then show "view u (snd (reap_expired s limit)) = view u s"
    using view_remove_all [OF store_inv_tick [OF inv], of u ?dead]
    by (auto simp: r restrict_map_def fun_eq_iff)
qed

section \<open>The store against an abstract keyspace\<close>

datatype store_op =
    Get string | Set string string int | Erase string | Contains string | Pttl string
  | ExpireAt string int | Persist string | Keys string | Size | ClearAll
  | Cycle expiry_config | Reap nat | Snapshot | Load kv_record

datatype store_reply =
    RValue "string option" | RUnit | RBool bool | RInt int | RKeys "string list"
  | RCount nat | RRecords "kv_record list"

definition with_reply :: "('a \<Rightarrow> store_reply) \<Rightarrow> 'a \<times> store \<Rightarrow> store_reply \<times> store" where
  "with_reply f r = (f (fst r), snd r)"

fun store_apply :: "store_op \<Rightarrow> store \<Rightarrow> store_reply \<times> store" where
  "store_apply (Get k) s = with_reply RValue (store_get s k)"
| "store_apply (Set k v e) s = (RUnit, store_set s k v e)"
| "store_apply (Erase k) s = with_reply RBool (store_erase s k)"
| "store_apply (Contains k) s = with_reply RBool (store_contains s k)"
| "store_apply (Pttl k) s = with_reply RInt (store_pttl s k)"
| "store_apply (ExpireAt k d) s = with_reply RBool (store_expire_at s k d)"
| "store_apply (Persist k) s = with_reply RBool (store_persist s k)"
| "store_apply (Keys pat) s = with_reply RKeys (store_keys s pat)"
| "store_apply Size s = with_reply RInt (store_size s)"
| "store_apply ClearAll s = (RUnit, store_clear s)"
| "store_apply (Cycle cfg) s = with_reply RCount (active_expire_cycle cfg s)"
| "store_apply (Reap n) s = with_reply RCount (reap_expired s n)"
| "store_apply Snapshot s = with_reply RRecords (store_snapshot s)"
| "store_apply (Load r) s = (RUnit, load_record s r)"

lemma with_reply_simps [simp]: "fst (with_reply f r) = f (fst r)" "snd (with_reply f r) = snd r"
  by (simp_all add: with_reply_def)

lemma store_inv_apply: "store_inv s \<Longrightarrow> store_inv (snd (store_apply x s))"
  by (cases x) simp_all

text \<open>
  The specification: a map from keys to values with an optional deadline. At time \<open>t\<close> the
  entries whose deadline has passed are gone (\<open>purge\<close>); \<open>ks_allows\<close> says which replies an
  operation may give and \<open>ks_next\<close> what it does to the map.
\<close>

definition purge :: "int \<Rightarrow> keyspace \<Rightarrow> keyspace" where
  "purge t m k = (case m k of
     Some (v, Some d) \<Rightarrow> if d \<le> t then None else Some (v, Some d) | x \<Rightarrow> x)"

fun ks_allows :: "int \<Rightarrow> keyspace \<Rightarrow> store_op \<Rightarrow> store_reply \<Rightarrow> bool" where
  "ks_allows t m (Get k) r \<longleftrightarrow> r = RValue (map_option fst (m k))"
| "ks_allows t m (Set k v e) r \<longleftrightarrow> r = RUnit"
| "ks_allows t m (Erase k) r \<longleftrightarrow> r = RBool (k \<in> dom m)"
| "ks_allows t m (Contains k) r \<longleftrightarrow> r = RBool (k \<in> dom m)"
| "ks_allows t m (Pttl k) r \<longleftrightarrow> r = RInt (case m k of
     None \<Rightarrow> -2 | Some (v, None) \<Rightarrow> -1 | Some (v, Some d) \<Rightarrow> wrap64 (d - t))"
| "ks_allows t m (ExpireAt k d) r \<longleftrightarrow> r = RBool (k \<in> dom m)"
| "ks_allows t m (Persist k) r \<longleftrightarrow> r = RBool (\<exists>v d. m k = Some (v, Some d))"
| "ks_allows t m (Keys pat) r \<longleftrightarrow>
     (\<exists>ks. r = RKeys ks \<and> distinct ks \<and> set ks = {k \<in> dom m. glob_match pat k})"
| "ks_allows t m Size r \<longleftrightarrow> r = RInt (int (card (dom m)))"
| "ks_allows t m ClearAll r \<longleftrightarrow> r = RUnit"
| "ks_allows t m (Cycle cfg) r \<longleftrightarrow> (\<exists>n \<le> max_passes cfg * sample_size cfg. r = RCount n)"
| "ks_allows t m (Reap n) r \<longleftrightarrow> (\<exists>i \<le> n. r = RCount i)"
| "ks_allows t m Snapshot r \<longleftrightarrow>
     (\<exists>rs. r = RRecords rs \<and> distinct (map rec_key rs) \<and>
        (\<forall>k. map_option (\<lambda>(v, e). (v, deadline_opt e)) (record_of rs k) = m k))"
| "ks_allows t m (Load rec) r \<longleftrightarrow> r = RUnit"

fun ks_next :: "int \<Rightarrow> keyspace \<Rightarrow> store_op \<Rightarrow> keyspace" where
  "ks_next t m (Set k v e) = m(k := visible t v e)"
| "ks_next t m (Erase k) = m(k := None)"
| "ks_next t m (ExpireAt k d) = m(k := (case m k of
     None \<Rightarrow> None | Some (v, _) \<Rightarrow> if d \<le> t then None else Some (v, Some d)))"
| "ks_next t m (Persist k) = m(k := map_option (\<lambda>(v, _). (v, None)) (m k))"
| "ks_next t m ClearAll = Map.empty"
| "ks_next t m (Load r) =
     (if rec_expire_at r \<noteq> kNoExpiry \<and> rec_expire_at r \<le> t then m
      else m(rec_key r := visible t (rec_value r) (rec_expire_at r)))"
| "ks_next t m _ = m"

text \<open>Operations at the times they run: the clock reads \<open>t\<close> throughout the operation.\<close>

fun store_run :: "store \<Rightarrow> (int \<times> store_op) list \<Rightarrow> store_reply list" where
  "store_run s [] = []"
| "store_run s ((t, x) # xs) =
     (let (r, s1) = store_apply x (s\<lparr>s_clock := sconst t\<rparr>) in r # store_run s1 xs)"

fun ks_accepts :: "keyspace \<Rightarrow> (int \<times> store_op) list \<Rightarrow> store_reply list \<Rightarrow> bool" where
  "ks_accepts m [] rs \<longleftrightarrow> rs = []"
| "ks_accepts m ((t, x) # xs) rs \<longleftrightarrow>
     (case rs of [] \<Rightarrow> False
      | r # rs' \<Rightarrow> ks_allows t (purge t m) x r \<and> ks_accepts (ks_next t (purge t m) x) xs rs')"

lemma frozen_cycle_view:
  assumes "frozen t s" "store_inv s"
  shows "view t (snd (active_expire_cycle cfg s)) = view t s"
  using assms expire_passes_view [of "s\<lparr>s_stats := x\<rparr>" t cfg "max_passes cfg" 0 for x]
  by (simp add: active_expire_cycle_def frozen_def)

lemma expire_passes_clock:
  "store_inv s \<Longrightarrow> sset (s_clock (snd (expire_passes cfg n r s))) \<subseteq> sset (s_clock s)"
proof (induction n arbitrary: r s)
  case (Suc n)
  let ?s = "snd (snd (expire_pass cfg s))"
  have "sset (s_clock (snd (expire_passes cfg n r' ?s))) \<subseteq> sset (s_clock ?s)" for r'
    by (rule Suc.IH [OF store_inv_pass [OF Suc.prems]])
  with expire_pass_clock [OF Suc.prems, of cfg] show ?case
    by (simp add: case_prod_unfold Let_def) blast
qed simp

lemma cycle_frozen:
  assumes "frozen t s" "store_inv s" "t \<le> u"
  shows "view u (snd (active_expire_cycle cfg s)) = view u s" "store_now (snd (active_expire_cycle cfg s)) = t"
proof -
  let ?s = "s\<lparr>s_stats := (s_stats s)\<lparr>cycles := cycles (s_stats s) + 1\<rparr>\<rparr>"
  have c: "sset (s_clock ?s) = {t}" using assms(1) by (simp add: frozen_def)
  show "view u (snd (active_expire_cycle cfg s)) = view u s"
    unfolding active_expire_cycle_def using expire_passes_view [of ?s u cfg] assms(2,3) c by simp
  have "sset (s_clock (snd (active_expire_cycle cfg s))) \<subseteq> {t}"
    unfolding active_expire_cycle_def using expire_passes_clock [of ?s cfg] assms(2) c by simp
  then show "store_now (snd (active_expire_cycle cfg s)) = t"
    unfolding store_now_def using shd_sset by blast
qed

lemma cycle_count:
  assumes "store_inv s"
  shows "fst (active_expire_cycle cfg s) \<le> max_passes cfg * sample_size cfg"
  using assms expire_passes_count [of "s\<lparr>s_stats := x\<rparr>" "max_passes cfg" cfg 0 for x]
  by (fastforce simp: active_expire_cycle_def)

lemma store_contains_frozen:
  assumes "frozen t s" "store_inv s"
  shows "fst (store_contains s k) = (view t s k \<noteq> None)"
    and "t \<le> u \<Longrightarrow> view u (snd (store_contains s k)) = view u s"
  using store_get_frozen [OF assms] by (simp_all add: store_contains_def case_prod_unfold Let_def)

lemma store_size_view [simp]: "view u (snd (store_size s)) = view u s"
  by (simp add: store_size_def Let_def case_prod_unfold)

lemma store_apply_allowed:
  assumes "frozen t s" "store_inv s"
  shows "ks_allows t (view t s) x (fst (store_apply x s))"
proof -
  have now: "store_now s = t" using assms(1) by (simp add: store_now_def frozen_now)
  show ?thesis
  proof (cases x)
    case (Keys pat)
    with store_keys_frozen(1,2) [OF assms, of pat] show ?thesis by (auto simp: dom_def)
  next
    case Size
    with store_size_live [OF assms(2)] show ?thesis by (simp add: now)
  next
    case (Cycle cfg)
    with cycle_count [OF assms(2)] show ?thesis by simp
  next
    case (Reap n)
    with reap_expired_frozen(1) [OF assms(2), of t n] show ?thesis by (simp add: now)
  next
    case Snapshot
    with snapshot_keys_distinct [OF assms(2)] snapshot_record_of [OF assms(2)] show ?thesis
      by (simp add: now)
  qed (simp_all add: store_get_frozen(1) [OF assms] store_erase_frozen(1) [OF assms]
      store_contains_frozen(1) [OF assms] store_pttl_frozen(1) [OF assms]
      store_expire_at_frozen(1) [OF assms] store_persist_frozen(1) [OF assms] domIff)
qed

lemma store_apply_next:
  assumes "frozen t s" "store_inv s"
  shows "view t (snd (store_apply x s)) = ks_next t (view t s) x"
proof (cases x)
  case (Reap n)
  with reap_expired_frozen(2) [OF assms(2), of t n] assms(1) show ?thesis
    by (simp add: store_now_def frozen_now)
qed (use assms in \<open>simp_all add: store_get_frozen(2) store_erase_frozen(2) store_contains_frozen(2)
    store_pttl_frozen(2) store_expire_at_frozen(2) store_persist_frozen(2) store_keys_frozen(3)
    load_record_frozen(2) frozen_cycle_view\<close>)

lemma store_run_accepted:
  assumes "store_inv s" "sorted (t # map fst xs)" "0 \<le> t" "m = view t s"
  shows "ks_accepts m xs (store_run s xs)"
  using assms
proof (induction xs arbitrary: t s m)
  case (Cons a xs)
  obtain u x where a: "a = (u, x)" by (cases a)
  let ?s = "s\<lparr>s_clock := sconst u\<rparr>"
  have u: "t \<le> u" "0 \<le> u" "sorted (u # map fst xs)" using Cons.prems(2,3) a by auto
  have f: "frozen u ?s" by (simp add: frozen_def)
  have i: "store_inv ?s" using Cons.prems(1) u(2) by (simp add: store_inv_def)
  have m: "purge u m = view u ?s"
    using u(1) by (rule_tac ext) (simp add: Cons.prems(4) purge_def view_mono [of t u])
  have "ks_accepts (ks_next u (purge u m) x) xs (store_run (snd (store_apply x ?s)) xs)"
    by (rule Cons.IH [OF store_inv_apply [OF i] u(3,2)]) (simp add: m store_apply_next [OF f i])
  then show ?case
    using store_apply_allowed [OF f i, of x] by (simp add: a m case_prod_unfold Let_def)
qed simp

section \<open>Properties\<close>

text \<open>An empty store on a still clock, for concrete runs.\<close>

definition sample_store :: "nat \<Rightarrow> int \<Rightarrow> store" where
  "sample_store n t = store_new length (\<lambda>_ n. n) n (sconst t)"

lemma sample_store_simps [simp]:
  "0 \<le> t \<Longrightarrow> store_inv (sample_store n t)"
  "frozen t (sample_store n t)"
  "view u (sample_store n t) = Map.empty"
  "store_now (sample_store n t) = t"
proof -
  show "0 \<le> t \<Longrightarrow> store_inv (sample_store n t)"
    unfolding sample_store_def by (rule store_inv_new) simp
qed (auto simp: sample_store_def frozen_def store_new_def view_def store_now_def)

lemma sample_store_snapshot [simp]: "store_snapshot (sample_store n t) = ([], sample_store n t)"
  by (simp add: store_snapshot_def frozen_clock [OF sample_store_simps(2)])
     (simp add: sample_store_def store_new_def um_new_def um_entries_def)

lemma store_now_set [simp]: "store_now (store_set s k v e) = store_now s"
  by (simp add: store_now_def store_set_def Let_def)

lemma sample_store_expires:
  "e \<noteq> kNoExpiry \<Longrightarrow> um_find (s_expires (store_set (sample_store n t) k v e)) = [k \<mapsto> e]"
  by (simp add: store_set_def sample_store_def store_new_def)

text \<open>
  C1: For every sequence of operations at non-decreasing times, on any hash function, growth
  policy and initial bucket count, the replies of the store are those of the abstract
  keyspace, a map whose entries disappear when their deadline passes. Lazy expiry, the index of
  deadlines and the active cycle are not observable.
\<close>
theorem store_refines_keyspace:
  assumes "sorted (map fst xs)" "\<forall>t \<in> set (map fst xs). 0 \<le> t"
  shows "ks_accepts Map.empty xs (store_run (store_new h pol n (sconst 0)) xs)"
proof -
  have "sorted (0 # map fst xs)" using assms by simp
  moreover have "store_inv (store_new h pol n (sconst 0))" by (rule store_inv_new) simp
  moreover have "Map.empty = view 0 (store_new h pol n (sconst 0))"
    by (simp add: view_def store_new_def fun_eq_iff)
  ultimately show ?thesis using store_run_accepted by blast
qed

theorem store_refines_keyspace_witness:
  "ks_accepts Map.empty [(0, Set ''k'' ''v'' 5), (3, Get ''k''), (7, Get ''k'')]
     (store_run (sample_store 2 0)
       [(0, Set ''k'' ''v'' 5), (3, Get ''k''), (7, Get ''k'')]) \<and>
   store_run (sample_store 2 0)
     [(0, Set ''k'' ''v'' 5), (3, Get ''k''), (7, Get ''k'')] =
   [RUnit, RValue (Some ''v''), RValue None]"
proof -
  have "store_run (sample_store 2 0)
     [(0, Set ''k'' ''v'' 5), (3, Get ''k''), (7, Get ''k'')] =
   [RUnit, RValue (Some ''v''), RValue None]"
    by (simp add: sample_store_def store_new_def um_new_def um_rehash_def numeral_2_eq_2 store_set_def
        kNoExpiry_def um_assign_def um_find_def
        um_bucket_count_def um_index_def um_size_def um_entries_def um_insert_new_def
        store_get_def is_expired_def store_clock_def with_reply_def)
  moreover have "ks_accepts Map.empty [(0, Set ''k'' ''v'' 5), (3, Get ''k''), (7, Get ''k'')]
     (store_run (sample_store 2 0) [(0, Set ''k'' ''v'' 5), (3, Get ''k''), (7, Get ''k'')])"
    unfolding sample_store_def by (rule store_refines_keyspace) simp_all
  ultimately show ?thesis by simp
qed

text \<open>
  C8: Whatever the clock reads (any stream of non-negative readings, several per operation),
  every sequence of operations keeps the invariant: both tables are well formed, every key with a
  deadline is a key of the map, and no stored deadline is the sentinel.
\<close>
theorem store_invariant:
  assumes "\<forall>t \<in> sset clk. 0 \<le> t"
  shows "store_inv (foldl (\<lambda>s x. snd (store_apply x s)) (store_new h pol n clk) xs)"
proof -
  have "store_inv s \<Longrightarrow> store_inv (foldl (\<lambda>s x. snd (store_apply x s)) s xs)" for s
    by (induction xs arbitrary: s) (simp_all add: store_inv_apply)
  with store_inv_new assms show ?thesis by blast
qed

theorem store_invariant_witness:
  "store_inv (foldl (\<lambda>s x. snd (store_apply x s)) (sample_store 2 4)
     [Set ''k'' ''v'' 3, ExpireAt ''k'' 9, Load \<lparr>rec_key = ''a'', rec_value = ''b'', rec_expire_at = 8\<rparr>])"
  unfolding sample_store_def by (rule store_invariant) simp

text \<open>
  C18: An expiry cycle never removes a live key: no reader that looks at or after every
  clock reading can tell it ran. It reaps at most \<open>max_passes * sample_size\<close> keys, returns
  how many it removed, and accounts for each of them.
\<close>
theorem active_expire_cycle_safe:
  assumes "store_inv s"
  shows "(\<forall>u. (\<forall>t \<in> sset (s_clock s). t \<le> u) \<longrightarrow>
      view u (snd (active_expire_cycle cfg s)) = view u s) \<and>
    fst (active_expire_cycle cfg s) \<le> max_passes cfg * sample_size cfg \<and>
    store_raw_size (snd (active_expire_cycle cfg s)) + fst (active_expire_cycle cfg s) =
      store_raw_size s \<and>
    expired_active (s_stats (snd (active_expire_cycle cfg s))) =
      expired_active (s_stats s) + fst (active_expire_cycle cfg s)"
proof (intro conjI)
  let ?s = "s\<lparr>s_stats := (s_stats s)\<lparr>cycles := cycles (s_stats s) + 1\<rparr>\<rparr>"
  have i: "store_inv ?s" using assms by simp
  show "\<forall>u. (\<forall>t \<in> sset (s_clock s). t \<le> u) \<longrightarrow>
      view u (snd (active_expire_cycle cfg s)) = view u s"
    using expire_passes_view [OF i] by (simp add: active_expire_cycle_def)
  from expire_passes_count [OF i, of "max_passes cfg" cfg 0]
  show "fst (active_expire_cycle cfg s) \<le> max_passes cfg * sample_size cfg"
    and "store_raw_size (snd (active_expire_cycle cfg s)) + fst (active_expire_cycle cfg s) =
      store_raw_size s"
    and "expired_active (s_stats (snd (active_expire_cycle cfg s))) =
      expired_active (s_stats s) + fst (active_expire_cycle cfg s)"
    by (auto simp: active_expire_cycle_def sample_stats_cycle)
qed

theorem active_expire_cycle_safe_witness:
  "store_inv (sample_store 2 4) \<and>
   fst (active_expire_cycle default_expiry_config (sample_store 2 4)) \<le> 320"
  using active_expire_cycle_safe [of "sample_store 2 4" default_expiry_config]
  by (simp add: default_expiry_config_def)

text \<open>
  C19: Against a backlog in which every key with a deadline is dead, a cycle with a threshold
  below 100 percent does not stop early: it reaps \<open>sample_size\<close> keys on each of its
  \<open>max_passes\<close> passes, or empties the index if that is less.
\<close>
theorem active_expire_cycle_backlog:
  assumes "store_inv s" "frozen t s" "\<forall>k d. um_find (s_expires s) k = Some d \<longrightarrow> d \<le> t"
    and "continue_threshold_pct cfg < 100" "0 < sample_size cfg"
  shows "fst (active_expire_cycle cfg s) =
    min (store_expires_size s) (max_passes cfg * sample_size cfg)"
proof -
  let ?s = "s\<lparr>s_stats := (s_stats s)\<lparr>cycles := cycles (s_stats s) + 1\<rparr>\<rparr>"
  have "\<forall>k \<in> dom (um_find (s_expires ?s)). expired_at t ?s k"
    using assms(3) by (auto simp: expired_at_def)
  then have "fst (expire_passes cfg (max_passes cfg) 0 ?s) =
      0 + min (store_expires_size ?s) (max_passes cfg * sample_size cfg)"
    using assms(1,2,4,5) by (intro expire_passes_backlog) simp_all
  then show ?thesis by (simp add: active_expire_cycle_def sample_stats_cycle)
qed

theorem active_expire_cycle_backlog_witness:
  "fst (active_expire_cycle default_expiry_config
     (store_set (sample_store 2 4) ''k'' ''v'' 3)) = 1"
proof -
  let ?s = "store_set (sample_store 2 4) ''k'' ''v'' 3"
  have e: "um_find (s_expires ?s) = [''k'' \<mapsto> 3]" by (simp add: sample_store_expires kNoExpiry_def)
  have "fst (active_expire_cycle default_expiry_config ?s) =
      min (store_expires_size ?s) (max_passes default_expiry_config * sample_size default_expiry_config)"
    by (rule active_expire_cycle_backlog [where t = 4])
       (simp_all add: e default_expiry_config_def del: um.find_assign)
  then show ?thesis using store_sizes(2) [of ?s] by (simp add: e default_expiry_config_def)
qed

text \<open>
  C20: When the whole index fits in one sample, a cycle with at least one pass leaves no dead
  key behind.
\<close>
theorem active_expire_cycle_complete:
  assumes "store_inv s" "frozen t s" "store_expires_size s \<le> sample_size cfg" "0 < max_passes cfg"
  shows "um_find (s_expires (snd (active_expire_cycle cfg s))) k = Some d \<Longrightarrow> t < d"
proof -
  let ?s = "s\<lparr>s_stats := (s_stats s)\<lparr>cycles := cycles (s_stats s) + 1\<rparr>\<rparr>"
  obtain n where n: "max_passes cfg = Suc n" using assms(4) gr0_conv_Suc by blast
  have "\<not> expired_at t (snd (expire_passes cfg (Suc n) 0 ?s)) k"
    by (rule expire_passes_complete) (use assms in \<open>simp_all add: sample_stats_cycle\<close>)
  then show "um_find (s_expires (snd (active_expire_cycle cfg s))) k = Some d \<Longrightarrow> t < d"
    by (simp add: active_expire_cycle_def n expired_at_def)
qed

theorem active_expire_cycle_complete_witness:
  "um_find (s_expires (snd (active_expire_cycle default_expiry_config
     (store_set (sample_store 2 4) ''k'' ''v'' 3)))) ''k'' \<noteq> Some 3"
proof -
  let ?s = "store_set (sample_store 2 4) ''k'' ''v'' 3"
  have "store_expires_size ?s = 1" using store_sizes(2) [of ?s] by (simp add: sample_store_expires kNoExpiry_def)
  then show ?thesis
    using active_expire_cycle_complete [of ?s 4 default_expiry_config "''k''" 3]
    by (auto simp: default_expiry_config_def)
qed

text \<open>
  C21: A snapshot loaded into a cleared store, at the time it was taken or any later one,
  reproduces the keyspace: from then on both stores show the same keys, values and deadlines.
\<close>
theorem snapshot_load_roundtrip:
  assumes "store_inv s" "store_inv q" "frozen t q" "store_now s \<le> t" "t \<le> u"
  shows "view u (foldl load_record (store_clear q) (fst (store_snapshot s))) = view u s"
  using assms by (rule load_snapshot_view)

theorem snapshot_load_roundtrip_witness:
  "view 5 (foldl load_record (store_clear (sample_store 3 4))
     (fst (store_snapshot (store_set (sample_store 2 2) ''k'' ''v'' 9)))) ''k'' =
   Some (''v'', Some 9)"
proof -
  let ?s = "store_set (sample_store 2 2) ''k'' ''v'' 9"
  have "view 5 (foldl load_record (store_clear (sample_store 3 4)) (fst (store_snapshot ?s))) = view 5 ?s"
    by (rule snapshot_load_roundtrip [where t = 4])
       simp_all
  then show ?thesis by (simp add: visible_def kNoExpiry_def)
qed

end
