(* ===== verification/Files.thy ===== *)
theory Files
  imports Prelude
begin

text \<open>
  The part of the C and C++ libraries the persistence code writes files with. A file system
  is a map from paths to contents (\<open>fs\<close>); a \<open>FILE*\<close> opened for appending has a user-space buffer
  (\<open>cf_stdio\<close>) whose bytes reach the file when the library spills them, on \<open>fflush\<close> and on
  \<open>fclose\<close>, and \<open>fsync\<close> makes the file's current contents durable (\<open>cf_synced\<close> counts the durable
  bytes). What the system lets each call do is an \<open>io_outcome\<close>. \<open>fflush\<close>, \<open>fsync\<close>, \<open>fclose\<close> and
  \<open>remove\<close>, whose results the sources ignore, are taken to succeed.
\<close>

record io_outcome =
  io_pid :: nat
  io_open :: bool
  io_write :: bool
  io_partial :: string
  io_rename :: bool
  io_count :: nat
  io_spill :: nat

record cfile =
  cf_path :: path
  cf_stdio :: string
  cf_synced :: nat

definition contents :: "fs \<Rightarrow> path \<Rightarrow> string" where
  "contents fs path = (case fs path of None \<Rightarrow> [] | Some c \<Rightarrow> c)"

definition fopen_append :: "path \<Rightarrow> fs \<Rightarrow> cfile \<times> fs" where
  "fopen_append path fs =
     (\<lparr>cf_path = path, cf_stdio = [], cf_synced = 0\<rparr>, fs(path \<mapsto> contents fs path))"

text \<open>\<open>fwrite\<close> accepts \<open>n\<close> bytes and passes at least \<open>k\<close> buffered bytes on to the file.\<close>

definition fwrite :: "string \<Rightarrow> nat \<Rightarrow> nat \<Rightarrow> cfile \<Rightarrow> fs \<Rightarrow> cfile \<times> fs" where
  "fwrite data n k f fs =
     (let pending = cf_stdio f @ take n data
      in (f\<lparr>cf_stdio := drop k pending\<rparr>,
          fs(cf_path f \<mapsto> contents fs (cf_path f) @ take k pending)))"

definition fflush :: "cfile \<Rightarrow> fs \<Rightarrow> cfile \<times> fs" where
  "fflush f fs =
     (f\<lparr>cf_stdio := []\<rparr>, fs(cf_path f \<mapsto> contents fs (cf_path f) @ cf_stdio f))"

definition fsync_handle :: "cfile \<Rightarrow> fs \<Rightarrow> cfile \<times> fs" where
  "fsync_handle f fs =
     (let (f1, fs1) = fflush f fs
      in (f1\<lparr>cf_synced := length (contents fs1 (cf_path f1))\<rparr>, fs1))"

definition fclose :: "cfile \<Rightarrow> fs \<Rightarrow> fs" where
  "fclose f fs = snd (fflush f fs)"

text \<open>What the file holds once everything accepted so far has been written out.\<close>

definition written :: "cfile \<Rightarrow> fs \<Rightarrow> string" where
  "written f fs = contents fs (cf_path f) @ cf_stdio f"

text \<open>A system that lets every call succeed.\<close>

definition good_io :: io_outcome where
  "good_io = \<lparr>io_pid = 1, io_open = True, io_write = True, io_partial = [], io_rename = True,
     io_count = 0, io_spill = 0\<rparr>"

lemma contents_upd [simp]:
  "contents (fs(p \<mapsto> c)) p = c" "q \<noteq> p \<Longrightarrow> contents (fs(p \<mapsto> c)) q = contents fs q"
  by (simp_all add: contents_def)

lemma cfile_path [simp]:
  "cf_path (fst (fopen_append path fs)) = path"
  "cf_path (fst (fwrite data n k f fs)) = cf_path f"
  "cf_path (fst (fflush f fs)) = cf_path f"
  "cf_path (fst (fsync_handle f fs)) = cf_path f"
  by (simp_all add: fopen_append_def fwrite_def fflush_def fsync_handle_def Let_def)

lemma written_simps [simp]:
  "written (fst (fopen_append path fs)) (snd (fopen_append path fs)) = contents fs path"
  "written (fst (fwrite data n k f fs)) (snd (fwrite data n k f fs)) = written f fs @ take n data"
  "written (fst (fflush f fs)) (snd (fflush f fs)) = written f fs"
  "written (fst (fsync_handle f fs)) (snd (fsync_handle f fs)) = written f fs"
  by (simp_all add: written_def fopen_append_def fwrite_def fflush_def fsync_handle_def Let_def
      del: take_append drop_append)

lemma contents_flush [simp]:
  "contents (snd (fflush f fs)) (cf_path f) = written f fs"
  "contents (snd (fsync_handle f fs)) (cf_path f) = written f fs"
  "contents (fclose f fs) (cf_path f) = written f fs"
  by (simp_all add: written_def fflush_def fsync_handle_def fclose_def Let_def)

lemma synced_fsync [simp]: "cf_synced (fst (fsync_handle f fs)) = length (written f fs)"
  by (simp add: written_def fflush_def fsync_handle_def Let_def)

lemma file_frame:
  assumes "q \<noteq> cf_path f"
  shows "snd (fwrite data n k f fs) q = fs q" "snd (fflush f fs) q = fs q"
    "snd (fsync_handle f fs) q = fs q" "fclose f fs q = fs q"
  using assms by (simp_all add: fwrite_def fflush_def fsync_handle_def fclose_def Let_def)

end
