(* ===== verification/Rdb.thy ===== *)
theory Rdb
  imports Crc Store Files
begin

text \<open>
  The RDB snapshot format of \<open>src/rdb.cpp\<close>: the writer (\<open>put_*\<close>, \<open>rdb_serialize\<close>), the
  reader (\<open>class Reader\<close>), \<open>rdb_parse\<close>, and the files (\<open>rdb_save_file\<close>, \<open>rdb_load_file\<close>) over
  a map from paths to contents. Bytes are characters, unsigned integers are natural numbers, and
  the additions of \<open>std::size_t\<close> that can exceed 64 bits are taken modulo \<open>2 ^ 64\<close>. Shifting a
  byte into place and \<open>|\<close>-ing it into bits that are still zero is written as an addition.
  The reading loop is a partial function: not returning is the value \<open>None\<close>.
\<close>

section \<open>Opcodes and length encodings\<close>

definition kRdbMagic :: string where "kRdbMagic = ''REDIS''"
definition kRdbVersion :: string where "kRdbVersion = ''0011''"

definition kOpAux :: nat where "kOpAux = 0xFA"
definition kOpResizeDb :: nat where "kOpResizeDb = 0xFB"
definition kOpExpireMs :: nat where "kOpExpireMs = 0xFC"
definition kOpExpireSec :: nat where "kOpExpireSec = 0xFD"
definition kOpSelectDb :: nat where "kOpSelectDb = 0xFE"
definition kOpEof :: nat where "kOpEof = 0xFF"
definition kTypeString :: nat where "kTypeString = 0x00"

definition k6Bit :: nat where "k6Bit = 0x00"
definition k14Bit :: nat where "k14Bit = 0x40"
definition kEncoded :: nat where "kEncoded = 0xC0"
definition k32Bit :: nat where "k32Bit = 0x80"
definition k64Bit :: nat where "k64Bit = 0x81"

definition kEncInt8 :: nat where "kEncInt8 = 0"
definition kEncInt16 :: nat where "kEncInt16 = 1"
definition kEncInt32 :: nat where "kEncInt32 = 2"
definition kEncLzf :: nat where "kEncLzf = 3"

lemmas rdb_consts = kOpAux_def kOpResizeDb_def kOpExpireMs_def kOpExpireSec_def kOpSelectDb_def
  kOpEof_def kTypeString_def k6Bit_def k14Bit_def kEncoded_def k32Bit_def k64Bit_def
  kEncInt8_def kEncInt16_def kEncInt32_def kEncLzf_def

section \<open>The writer\<close>

definition u64 :: "int \<Rightarrow> nat" where
  "u64 v = nat (v mod 2 ^ 64)"

definition put_u8 :: "string \<Rightarrow> nat \<Rightarrow> string" where
  "put_u8 out v = out @ [char_of v]"

definition put_u64_le :: "string \<Rightarrow> nat \<Rightarrow> string" where
  "put_u64_le out v = foldl (\<lambda>o1 i. put_u8 o1 (v div 2 ^ (i * 8))) out [0..<8]"

definition put_length :: "string \<Rightarrow> nat \<Rightarrow> string" where
  "put_length out len =
     (if len < 2 ^ 6 then put_u8 out (k6Bit + len)
      else if len < 2 ^ 14 then put_u8 (put_u8 out (k14Bit + len div 2 ^ 8)) (len mod 2 ^ 8)
      else if len \<le> 0xFFFFFFFF
      then foldl (\<lambda>o1 i. put_u8 o1 (len div 2 ^ (i * 8))) (put_u8 out k32Bit) [3, 2, 1, 0]
      else foldl (\<lambda>o1 i. put_u8 o1 (len div 2 ^ (i * 8))) (put_u8 out k64Bit) [7, 6, 5, 4, 3, 2, 1, 0])"

definition put_string :: "string \<Rightarrow> string \<Rightarrow> string" where
  "put_string out s = put_length out (length s) @ s"

definition put_record :: "string \<Rightarrow> kv_record \<Rightarrow> string" where
  "put_record out r =
     (let o1 = (if rec_expire_at r \<noteq> kNoExpiry
                then put_u64_le (put_u8 out kOpExpireMs) (u64 (rec_expire_at r)) else out);
          o2 = put_u8 o1 kTypeString;
          o3 = put_string o2 (rec_key r)
      in put_string o3 (rec_value r))"

definition rdb_serialize :: "kv_record list \<Rightarrow> string" where
  "rdb_serialize records =
     (let o1 = kRdbMagic @ kRdbVersion;
          o2 = put_string (put_string (put_u8 o1 kOpAux) ''redis-ver'') ''7.0.0-rp'';
          o3 = put_length (put_u8 o2 kOpSelectDb) 0;
          with_expiry = length (filter (\<lambda>r. rec_expire_at r \<noteq> kNoExpiry) records);
          o4 = put_length (put_length (put_u8 o3 kOpResizeDb) (length records)) with_expiry;
          o5 = foldl put_record o4 records;
          o6 = put_u8 o5 kOpEof
      in put_u64_le o6 (unat (crc64 0 o6)))"

section \<open>The reader\<close>

record reader =
  rd_data :: string
  rd_pos :: nat
  rd_ok :: bool
  rd_error :: string

definition reader_new :: "string \<Rightarrow> reader" where
  "reader_new data = \<lparr>rd_data = data, rd_pos = 0, rd_ok = True, rd_error = []\<rparr>"

definition rd_eof :: "reader \<Rightarrow> bool" where
  "rd_eof r \<longleftrightarrow> rd_pos r \<ge> length (rd_data r)"

definition rd_fail :: "reader \<Rightarrow> nat \<times> reader" where
  "rd_fail r = (0, r\<lparr>rd_ok := False, rd_pos := length (rd_data r)\<rparr>)"

definition rd_u8 :: "reader \<Rightarrow> nat \<times> reader" where
  "rd_u8 r =
     (if rd_pos r + 1 > length (rd_data r) then rd_fail r
      else (code (rd_data r ! rd_pos r), r\<lparr>rd_pos := rd_pos r + 1\<rparr>))"

text \<open>Bytes in increasing and in decreasing significance.\<close>

primrec rd_le :: "nat \<Rightarrow> reader \<Rightarrow> nat \<times> reader" where
  "rd_le 0 r = (0, r)"
| "rd_le (Suc n) r = (let (b, r1) = rd_u8 r; (v, r2) = rd_le n r1 in (b + 2 ^ 8 * v, r2))"

primrec rd_be :: "nat \<Rightarrow> nat \<Rightarrow> reader \<Rightarrow> nat \<times> reader" where
  "rd_be 0 v r = (v, r)"
| "rd_be (Suc n) v r = (let (b, r1) = rd_u8 r in rd_be n ((v * 2 ^ 8) mod 2 ^ 64 + b) r1)"

definition rd_u64_le :: "reader \<Rightarrow> nat \<times> reader" where
  "rd_u64_le r = rd_le 8 r"

definition rd_u32_le :: "reader \<Rightarrow> nat \<times> reader" where
  "rd_u32_le r = rd_le 4 r"

text \<open>\<open>Some encoding\<close> when the byte announced a special string encoding.\<close>

definition rd_length :: "reader \<Rightarrow> (nat \<times> nat option) \<times> reader" where
  "rd_length r =
     (let (first, r1) = rd_u8 r
      in if \<not> rd_ok r1 then ((0, None), r1)
         else if first AND 0xC0 = k6Bit then ((first AND 0x3F, None), r1)
         else if first AND 0xC0 = k14Bit
         then (let (second, r2) = rd_u8 r1 in (((first AND 0x3F) * 2 ^ 8 + second, None), r2))
         else if first AND 0xC0 = kEncoded then ((0, Some (first AND 0x3F)), r1)
         else if first = k32Bit then (let (v, r2) = rd_be 4 0 r1 in ((v, None), r2))
         else if first = k64Bit then (let (v, r2) = rd_be 8 0 r1 in ((v, None), r2))
         else (let (v, r2) = rd_fail r1 in ((v, None), r2)))"

definition signed :: "nat \<Rightarrow> nat \<Rightarrow> int" where
  "signed bits v = (if v < 2 ^ (bits - 1) then int v else int v - 2 ^ bits)"

definition rd_str :: "reader \<Rightarrow> string \<times> reader" where
  "rd_str r =
     (let ((len, enc), r1) = rd_length r
      in if \<not> rd_ok r1 then ([], r1)
         else
           (case enc of
              Some e \<Rightarrow>
                if e = kEncInt8 then (let (b, r2) = rd_u8 r1 in (to_string (signed 8 b), r2))
                else if e = kEncInt16
                then (let (lo, r2) = rd_u8 r1; (hi, r3) = rd_u8 r2
                      in (to_string (signed 16 (lo + hi * 2 ^ 8)), r3))
                else if e = kEncInt32
                then (let (v, r2) = rd_u32_le r1 in (to_string (signed 32 v), r2))
                else if e = kEncLzf
                then ([], r1\<lparr>rd_error := ''LZF-compressed strings are not supported; re-save with rdbcompression no'',
                        rd_ok := False\<rparr>)
                else ([], r1\<lparr>rd_error := ''unknown string encoding '' @ to_string_nat e, rd_ok := False\<rparr>)
            | None \<Rightarrow>
                if (rd_pos r1 + len) mod 2 ^ 64 > length (rd_data r1) then ([], snd (rd_fail r1))
                else (take len (drop (rd_pos r1) (rd_data r1)),
                      r1\<lparr>rd_pos := (rd_pos r1 + len) mod 2 ^ 64\<rparr>)))"

section \<open>Parsing a payload\<close>

text \<open>What \<open>rdb_parse\<close> returns, with what it leaves in \<open>*out\<close> and in \<open>*error\<close>.\<close>

datatype rdb_result = RdbOk "kv_record list" | RdbFail "kv_record list" string

definition rd_message :: "reader \<Rightarrow> string \<Rightarrow> string" where
  "rd_message r msg = (if rd_error r = [] then msg else rd_error r)"

text \<open>
  One iteration of the reading loop: either \<open>rdb_parse\<close> returns, or it goes on with the
  reader, the pending expiry and the records.
\<close>

type_synonym rdb_state = "reader \<times> int \<times> kv_record list"

definition rdb_iter :: "rdb_state \<Rightarrow> rdb_result + rdb_state" where
  "rdb_iter st =
     (case st of (r, pending, out) \<Rightarrow>
       (let (opcode, r0) = rd_u8 r
        in if \<not> rd_ok r0 then Inl (RdbFail out ''truncated while reading opcode'')
           else
             (let next_state =
                (if opcode = kOpAux then
                   (let (_, r1) = rd_str r0; (_, r2) = rd_str r1 in Inr (r2, pending, out))
                 else if opcode = kOpSelectDb then
                   (let (_, r1) = rd_length r0 in Inr (r1, pending, out))
                 else if opcode = kOpResizeDb then
                   (let (_, r1) = rd_length r0; (_, r2) = rd_length r1 in Inr (r2, pending, out))
                 else if opcode = kOpExpireMs then
                   (let (v, r1) = rd_u64_le r0 in Inr (r1, wrap64 (int v), out))
                 else if opcode = kOpExpireSec then
                   (let (v, r1) = rd_u32_le r0 in Inr (r1, int v * 1000, out))
                 else if opcode = kTypeString then
                   (let (key, r1) = rd_str r0; (val, r2) = rd_str r1
                    in if \<not> rd_ok r2
                       then Inl (RdbFail [] (rd_message r2 ''truncated while reading a key''))
                       else Inr (r2, kNoExpiry,
                              out @ [\<lparr>rec_key = key, rec_value = val, rec_expire_at = pending\<rparr>]))
                 else Inl (RdbFail out (''unsupported opcode 0x'' @ to_string_nat opcode @
                        '' (only string values are supported)'')))
              in (case next_state of
                    Inl res \<Rightarrow> Inl res
                  | Inr (r1, p, o1) \<Rightarrow>
                      if \<not> rd_ok r1 then Inl (RdbFail [] (rd_message r1 ''truncated payload''))
                      else Inr (r1, p, o1)))))"

partial_function (option) rdb_loop :: "rdb_state \<Rightarrow> rdb_result option" where
  "rdb_loop st =
     (if rd_eof (fst st) then Some (RdbOk (snd (snd st)))
      else (case rdb_iter st of Inl res \<Rightarrow> Some res | Inr st1 \<Rightarrow> rdb_loop st1))"

text \<open>\<open>operator>\<close> on \<open>std::string\<close>, byte by byte.\<close>

fun str_less :: "string \<Rightarrow> string \<Rightarrow> bool" where
  "str_less _ [] = False"
| "str_less [] (_ # _) = True"
| "str_less (a # as) (b # bs) = (code a < code b \<or> a = b \<and> str_less as bs)"

definition le_value :: "string \<Rightarrow> nat" where
  "le_value bs = foldr (\<lambda>b v. code b + 2 ^ 8 * v) bs 0"

definition rdb_parse :: "string \<Rightarrow> rdb_result option" where
  "rdb_parse payload =
     (let header = length kRdbMagic + length kRdbVersion
      in if length payload < header then Some (RdbFail [] ''file too short'')
         else if take (length kRdbMagic) payload \<noteq> kRdbMagic
         then Some (RdbFail [] ''bad magic: not an RDB file'')
         else
           (let version = take 4 (drop (length kRdbMagic) payload)
            in if str_less kRdbVersion version
               then Some (RdbFail [] (''RDB version '' @ version @ '' is newer than supported '' @ kRdbVersion))
               else if length payload < header + 9
               then Some (RdbFail [] ''truncated: no EOF marker'')
               else
                 (let crc_offset = length payload - 8;
                      stored = le_value (take 8 (drop crc_offset payload))
                  in if code (payload ! (crc_offset - 1)) \<noteq> kOpEof
                     then Some (RdbFail [] ''truncated: EOF marker missing'')
                     else if stored \<noteq> 0 \<and> unat (crc64 0 (take crc_offset payload)) \<noteq> stored
                     then Some (RdbFail [] ''checksum mismatch: file corrupt'')
                     else rdb_loop (reader_new (take (crc_offset - 1 - header) (drop header payload)),
                                    kNoExpiry, []))))"

section \<open>Files\<close>

definition rdb_temp :: "io_outcome \<Rightarrow> path \<Rightarrow> path" where
  "rdb_temp io path = path @ ''.tmp-'' @ to_string_nat (io_pid io)"

text \<open>The error if the save failed, and the successive states of the file system.\<close>

definition rdb_save_file :: "io_outcome \<Rightarrow> path \<Rightarrow> kv_record list \<Rightarrow> fs \<Rightarrow> string option \<times> fs list" where
  "rdb_save_file io path records fs =
     (let payload = rdb_serialize records;
          temp = rdb_temp io path
      in if \<not> io_open io then (Some (''cannot open '' @ temp @ '' for writing''), [fs])
         else
           (let fs1 = fs(temp \<mapsto> [])
            in if \<not> io_write io
               then (let fs2 = fs1(temp \<mapsto> io_partial io)
                     in (Some (''write failed for '' @ temp), [fs, fs1, fs2, fs2(temp := None)]))
               else
                 (let fs2 = fs1(temp \<mapsto> payload);
                      fs3 = fs2(path := None)
                  in if \<not> io_rename io
                     then (Some (''rename into place failed for '' @ path),
                           [fs, fs1, fs2, fs3, fs3(temp := None)])
                     else (None, [fs, fs1, fs2, fs3, fs3(path := fs3 temp, temp := None)]))))"

definition rdb_load_file :: "path \<Rightarrow> fs \<Rightarrow> rdb_result option" where
  "rdb_load_file path fs =
     (case fs path of
        None \<Rightarrow> Some (RdbOk [])
      | Some payload \<Rightarrow> if payload = [] then Some (RdbOk []) else rdb_parse payload)"

section \<open>Bytes and their values\<close>

definition le_bytes :: "nat \<Rightarrow> nat \<Rightarrow> string" where
  "le_bytes n v = map (\<lambda>i. char_of (v div 2 ^ (i * 8))) [0..<n]"

definition be_bytes :: "nat \<Rightarrow> nat \<Rightarrow> string" where
  "be_bytes n v = map (\<lambda>i. char_of (v div 2 ^ (i * 8))) (rev [0..<n])"

definition be_value :: "nat \<Rightarrow> string \<Rightarrow> nat" where
  "be_value v bs = foldl (\<lambda>v b. v * 2 ^ 8 + code b) v bs"

lemma code_char_of_mod: "code (char_of n) = n mod 256"
  by (simp add: code_def)

lemma length_bytes [simp]: "length (le_bytes n v) = n" "length (be_bytes n v) = n"
  by (simp_all add: le_bytes_def be_bytes_def)

lemma le_bytes_Suc: "le_bytes (Suc n) v = char_of v # le_bytes n (v div 2 ^ 8)"
  by (simp add: le_bytes_def upt_conv_Cons map_Suc_upt [symmetric] div_mult2_eq [symmetric]
      power_add mult.commute del: upt_Suc)

lemma le_value_bytes: "le_value (le_bytes n v) = v mod 2 ^ (8 * n)"
proof (induction n arbitrary: v)
  case (Suc n)
  have "le_value (le_bytes (Suc n) v) = v mod 2 ^ 8 + 2 ^ 8 * (v div 2 ^ 8 mod 2 ^ (8 * n))"
    using Suc by (simp add: le_bytes_Suc le_value_def code_char_of_mod)
  also have "\<dots> = v mod (2 ^ 8 * 2 ^ (8 * n))" by (simp only: mod_mult2_eq add.commute)
  finally show ?case by (simp add: power_add)
qed (simp add: le_bytes_def le_value_def)

lemma be_bytes_Suc: "be_bytes (Suc n) v = char_of (v div 2 ^ (n * 8)) # be_bytes n v"
  by (simp add: be_bytes_def)

lemma be_value_bytes: "be_value a (be_bytes n v) = a * 2 ^ (8 * n) + v mod 2 ^ (8 * n)"
proof (induction n arbitrary: a)
  case (Suc n)
  have "be_value a (be_bytes (Suc n) v) =
      (a * 2 ^ 8 + v div 2 ^ (8 * n) mod 2 ^ 8) * 2 ^ (8 * n) + v mod 2 ^ (8 * n)"
    using Suc by (simp add: be_bytes_Suc be_value_def code_char_of_mod mult.commute)
  also have "\<dots> = a * (2 ^ (8 * n) * 2 ^ 8) +
      (2 ^ (8 * n) * (v div 2 ^ (8 * n) mod 2 ^ 8) + v mod 2 ^ (8 * n))"
    by (simp only: distrib_right distrib_left ac_simps)
  also have "\<dots> = a * (2 ^ (8 * n) * 2 ^ 8) + v mod (2 ^ (8 * n) * 2 ^ 8)"
    by (simp only: mod_mult2_eq)
  finally show ?case by (simp add: power_add mult.commute)
qed (simp add: be_bytes_def be_value_def)

lemma foldl_put_u8: "foldl (\<lambda>o1 i. put_u8 o1 (f i)) out is = out @ map (\<lambda>i. char_of (f i)) is"
  by (induction "is" arbitrary: out) (simp_all add: put_u8_def)

lemma put_u64_le_bytes: "put_u64_le out v = out @ le_bytes 8 v"
  by (simp add: put_u64_le_def foldl_put_u8 le_bytes_def)

definition enc_length :: "nat \<Rightarrow> string" where
  "enc_length len = put_length [] len"

lemma enc_length_cases:
  "len < 2 ^ 6 \<Longrightarrow> enc_length len = [char_of len]"
  "2 ^ 6 \<le> len \<Longrightarrow> len < 2 ^ 14 \<Longrightarrow> enc_length len = [char_of (64 + len div 2 ^ 8), char_of len]"
  "2 ^ 14 \<le> len \<Longrightarrow> len < 2 ^ 32 \<Longrightarrow> enc_length len = char_of k32Bit # be_bytes 4 len"
  "2 ^ 32 \<le> len \<Longrightarrow> enc_length len = char_of k64Bit # be_bytes 8 len"
proof -
  have c: "char_of (n mod 256) = (char_of n :: char)" for n :: nat
    by (rule code_inject [THEN iffD1]) (simp add: code_char_of_mod)
  show "len < 2 ^ 6 \<Longrightarrow> enc_length len = [char_of len]"
    by (simp add: enc_length_def put_length_def put_u8_def k6Bit_def)
  show "2 ^ 6 \<le> len \<Longrightarrow> len < 2 ^ 14 \<Longrightarrow>
      enc_length len = [char_of (64 + len div 2 ^ 8), char_of len]"
    by (simp add: enc_length_def put_length_def put_u8_def k14Bit_def c)
  show "2 ^ 14 \<le> len \<Longrightarrow> len < 2 ^ 32 \<Longrightarrow> enc_length len = char_of k32Bit # be_bytes 4 len"
    unfolding enc_length_def put_length_def
    by (simp add: foldl_put_u8 put_u8_def be_bytes_def upt_rec)
  show "2 ^ 32 \<le> len \<Longrightarrow> enc_length len = char_of k64Bit # be_bytes 8 len"
    unfolding enc_length_def put_length_def
    by (simp add: foldl_put_u8 put_u8_def be_bytes_def upt_rec)
qed

lemma put_length_enc: "put_length out len = out @ enc_length len"
  by (simp add: enc_length_def put_length_def put_u8_def foldl_put_u8)

section \<open>Reading what was written\<close>

definition unread :: "reader \<Rightarrow> string" where
  "unread r = drop (rd_pos r) (rd_data r)"

definition adv :: "nat \<Rightarrow> reader \<Rightarrow> reader" where
  "adv n r = r\<lparr>rd_pos := rd_pos r + n\<rparr>"

lemma adv_simps [simp]:
  "rd_ok (adv n r) = rd_ok r" "rd_data (adv n r) = rd_data r" "rd_pos (adv n r) = rd_pos r + n"
  "rd_error (adv n r) = rd_error r" "adv m (adv n r) = adv (n + m) r" "adv 0 r = r"
  "unread (adv n r) = drop n (unread r)"
  by (simp_all add: adv_def unread_def add.commute add.left_commute)

lemma rd_u8_unread: "unread r = c # xs \<Longrightarrow> rd_u8 r = (code c, adv 1 r)"
proof -
  assume u: "unread r = c # xs"
  then have "rd_pos r < length (rd_data r)"
    by (metis drop_eq_Nil leI list.distinct(1) unread_def)
  moreover from this u have "rd_data r ! rd_pos r = c"
    by (simp add: unread_def Cons_nth_drop_Suc [symmetric])
  ultimately show ?thesis by (simp add: rd_u8_def adv_def)
qed

lemma rd_le_unread:
  "unread r = bs @ xs \<Longrightarrow> length bs = n \<Longrightarrow> rd_le n r = (le_value bs, adv n r)"
proof (induction n arbitrary: r bs)
  case (Suc n)
  then obtain b cs where bs: "bs = b # cs" "length cs = n" by (cases bs) auto
  with Suc.prems have u: "rd_u8 r = (code b, adv 1 r)" by (simp add: rd_u8_unread)
  have "unread (adv 1 r) = cs @ xs" using Suc.prems bs by simp
  from Suc.IH [OF this bs(2)] show ?case by (simp add: u bs le_value_def)
qed (simp add: le_value_def)

lemma rd_be_unread:
  "unread r = bs @ xs \<Longrightarrow> length bs = n \<Longrightarrow> v < 2 ^ (64 - 8 * n) \<Longrightarrow> n \<le> 8 \<Longrightarrow>
   rd_be n v r = (be_value v bs, adv n r)"
proof (induction n arbitrary: r bs v)
  case (Suc n)
  then obtain b cs where bs: "bs = b # cs" "length cs = n" by (cases bs) auto
  with Suc.prems have u: "rd_u8 r = (code b, adv 1 r)" by (simp add: rd_u8_unread)
  have e: "64 - 8 * n = 8 + (64 - 8 * Suc n)" using Suc.prems(4) by simp
  have "v * 2 ^ 8 + 2 ^ 8 \<le> 2 ^ (64 - 8 * Suc n) * 2 ^ 8"
    using Suc.prems(3) by (metis Suc_leI add.commute mult_Suc mult_le_mono1)
  then have w: "v * 2 ^ 8 + 2 ^ 8 \<le> 2 ^ (64 - 8 * n)" unfolding e power_add by (simp only: mult.commute)
  moreover have "v * 2 ^ 8 + code b < v * 2 ^ 8 + 2 ^ 8" using code_less [of b] by simp
  ultimately have small: "v * 2 ^ 8 + code b < 2 ^ (64 - 8 * n)" by (rule order.strict_trans2 [rotated])
  have "v * 2 ^ 8 < 2 ^ 64"
    using w power_increasing [of "64 - 8 * n" 64 "2 :: nat"] by simp
  then have m: "(v * 2 ^ 8) mod 2 ^ 64 + code b = v * 2 ^ 8 + code b" by simp
  have "unread (adv 1 r) = cs @ xs" using Suc.prems bs by simp
  from Suc.IH [OF this bs(2) small] Suc.prems(4) show ?case
    by (simp only: rd_be.simps u Let_def prod.case m) (simp add: bs be_value_def)
qed (simp add: be_value_def)

lemma length_bits:
  assumes "x < 64"
  shows "x AND 0xC0 = (0 :: nat)" "x AND 0x3F = x" "(64 + x) AND 0xC0 = 64" "(64 + x) AND 0x3F = x"
proof -
  have "\<forall>x \<in> set [0..<64]. x AND 0xC0 = (0 :: nat) \<and> x AND 0x3F = x \<and>
      (64 + x) AND 0xC0 = 64 \<and> (64 + x) AND 0x3F = x" by code_simp
  with assms show "x AND 0xC0 = (0 :: nat)" "x AND 0x3F = x" "(64 + x) AND 0xC0 = 64"
    "(64 + x) AND 0x3F = x" by auto
qed

lemma rd_length_enc:
  assumes u: "unread r = enc_length len @ xs" and ok: "rd_ok r" and len: "len < 2 ^ 64"
  shows "rd_length r = ((len, None), adv (length (enc_length len)) r)"
proof -
  consider (six) "len < 2 ^ 6" | (fourteen) "2 ^ 6 \<le> len" "len < 2 ^ 14"
    | (four) "2 ^ 14 \<le> len" "len < 2 ^ 32" | (eight) "2 ^ 32 \<le> len" by linarith
  then show ?thesis
  proof cases
    case six
    with u have b: "rd_u8 r = (len, adv 1 r)"
      using rd_u8_unread [of r "char_of len" xs] by (simp add: enc_length_cases)
    with six ok show ?thesis by (simp add: rd_length_def enc_length_cases k6Bit_def length_bits)
  next
    case fourteen
    define h where "h = len div 2 ^ 8"
    have h: "h < 64" using fourteen(2) by (simp add: h_def less_mult_imp_div_less)
    note e = enc_length_cases(2) [OF fourteen, folded h_def]
    have b: "rd_u8 r = (64 + h, adv 1 r)"
      using rd_u8_unread [of r "char_of (64 + h)" "char_of len # xs"] u e h by simp
    have c: "rd_u8 (adv 1 r) = (len mod 256, adv 2 r)"
      using rd_u8_unread [of "adv 1 r" "char_of len" xs] u e by (simp add: code_char_of_mod numeral_2_eq_2)
    have n: "length (enc_length len) = 2" by (simp add: e)
    have v: "h * 2 ^ 8 + len mod 256 = len" by (simp add: h_def)
    show ?thesis
      unfolding rd_length_def b Let_def prod.case k6Bit_def k14Bit_def length_bits(3,4) [OF h] c n v
      using ok by simp
  next
    case four
    note e = enc_length_cases(3) [OF four]
    have b: "rd_u8 r = (0x80, adv 1 r)"
      using rd_u8_unread [of r "char_of k32Bit" "be_bytes 4 len @ xs"] u e by (simp add: k32Bit_def)
    have "rd_be 4 0 (adv 1 r) = (be_value 0 (be_bytes 4 len), adv 4 (adv 1 r))"
      by (rule rd_be_unread) (simp_all add: u e)
    moreover have "be_value 0 (be_bytes 4 len) = len" using four by (simp add: be_value_bytes)
    ultimately show ?thesis
      using ok by (simp add: rd_length_def b e rdb_consts)
  next
    case eight
    note e = enc_length_cases(4) [OF eight]
    have b: "rd_u8 r = (0x81, adv 1 r)"
      using rd_u8_unread [of r "char_of k64Bit" "be_bytes 8 len @ xs"] u e by (simp add: k64Bit_def)
    have "rd_be 8 0 (adv 1 r) = (be_value 0 (be_bytes 8 len), adv 8 (adv 1 r))"
      by (rule rd_be_unread) (simp_all add: u e)
    moreover have "be_value 0 (be_bytes 8 len) = len" using len by (simp add: be_value_bytes)
    ultimately show ?thesis
      using ok by (simp add: rd_length_def b e rdb_consts)
  qed
qed

definition enc_string :: "string \<Rightarrow> string" where
  "enc_string s = enc_length (length s) @ s"

lemma put_string_enc: "put_string out s = out @ enc_string s"
  by (simp add: put_string_def put_length_enc enc_string_def)

lemma rd_str_enc:
  assumes u: "unread r = enc_string s @ xs" and ok: "rd_ok r" and len: "length (rd_data r) < 2 ^ 64"
  shows "rd_str r = (s, adv (length (enc_string s)) r)"
proof -
  let ?n = "length (enc_length (length s))"
  have ur: "unread r = enc_length (length s) @ s @ xs" using u by (simp add: enc_string_def)
  have "length (unread r) \<le> length (rd_data r)" by (simp add: unread_def)
  then have "length s < 2 ^ 64" using ur len by simp
  from rd_length_enc [OF ur ok this]
  have l: "rd_length r = ((length s, None), adv ?n r)" .
  have "rd_pos r + (?n + (length s + length xs)) = length (rd_data r) \<or> unread r = []"
    using arg_cong [OF ur, of length] by (simp add: unread_def) linarith
  moreover have "?n + (length s + length xs) = length (unread r)" using ur by simp
  ultimately have pos: "rd_pos r + ?n + length s \<le> length (rd_data r) \<or> unread r = []" by linarith
  have ne: "unread r \<noteq> []"
    using ur by (auto simp: enc_length_def put_length_def put_u8_def foldl_put_u8 split: if_splits)
  with pos have p: "rd_pos r + ?n + length s \<le> length (rd_data r)" by blast
  then have m: "(rd_pos r + ?n + length s) mod 2 ^ 64 = rd_pos r + ?n + length s" using len by simp
  have s: "take (length s) (drop (rd_pos r + ?n) (rd_data r)) = s"
    using arg_cong [OF ur, of "drop ?n"] by (simp add: unread_def add.commute)
  show ?thesis
    unfolding rd_str_def l using ok p s
    by (simp only: Let_def prod.case adv_simps option.case m) (simp add: adv_def enc_string_def)
qed

section \<open>Parsing what was serialized\<close>

definition enc_record :: "kv_record \<Rightarrow> string" where
  "enc_record r =
     (if rec_expire_at r \<noteq> kNoExpiry then char_of kOpExpireMs # le_bytes 8 (u64 (rec_expire_at r)) else []) @
     char_of kTypeString # enc_string (rec_key r) @ enc_string (rec_value r)"

definition enc_preamble :: "kv_record list \<Rightarrow> string" where
  "enc_preamble rs =
     char_of kOpAux # enc_string ''redis-ver'' @ enc_string ''7.0.0-rp'' @
     char_of kOpSelectDb # enc_length 0 @
     char_of kOpResizeDb # enc_length (length rs) @
       enc_length (length (filter (\<lambda>r. rec_expire_at r \<noteq> kNoExpiry) rs))"

definition enc_body :: "kv_record list \<Rightarrow> string" where
  "enc_body rs = enc_preamble rs @ concat (map enc_record rs)"

lemma foldl_put_record: "foldl put_record out rs = out @ concat (map enc_record rs)"
  by (induction rs arbitrary: out)
     (simp_all add: put_record_def enc_record_def put_u64_le_bytes put_string_enc put_u8_def Let_def)

lemma rdb_serialize_eq:
  "rdb_serialize rs =
     (let front = kRdbMagic @ kRdbVersion @ enc_body rs @ [char_of kOpEof]
      in front @ le_bytes 8 (unat (crc64 0 front)))"
  by (simp add: rdb_serialize_def put_u8_def put_string_enc put_length_enc foldl_put_record
      put_u64_le_bytes enc_body_def enc_preamble_def Let_def)

definition rd_good :: "reader \<Rightarrow> bool" where
  "rd_good r \<longleftrightarrow> rd_ok r \<and> length (rd_data r) < 2 ^ 64"

lemma rd_good_adv [simp]: "rd_good (adv n r) = rd_good r"
  by (simp add: rd_good_def)

lemmas iter_simps = rdb_iter_def rdb_consts Let_def rd_good_def

lemma rdb_iter_aux:
  assumes "unread r = char_of kOpAux # enc_string a @ enc_string b @ xs" "rd_good r"
  shows "rdb_iter (r, p, out) =
     Inr (adv (1 + length (enc_string a) + length (enc_string b)) r, p, out)"
proof -
  have 0: "rd_u8 r = (0xFA, adv 1 r)" using rd_u8_unread [OF assms(1)] by (simp add: kOpAux_def)
  have 1: "rd_str (adv 1 r) = (a, adv (length (enc_string a)) (adv 1 r))"
    by (rule rd_str_enc) (use assms in \<open>simp_all add: rd_good_def\<close>)
  have 2: "rd_str (adv (1 + length (enc_string a)) r) =
      (b, adv (length (enc_string b)) (adv (1 + length (enc_string a)) r))"
    by (rule rd_str_enc) (use assms in \<open>simp_all add: rd_good_def\<close>)
  show ?thesis using assms(2) 1 2 by (simp add: iter_simps 0)
qed

lemma rdb_iter_select:
  assumes "unread r = char_of kOpSelectDb # enc_length n @ xs" "rd_good r" "n < 2 ^ 64"
  shows "rdb_iter (r, p, out) = Inr (adv (1 + length (enc_length n)) r, p, out)"
proof -
  have 0: "rd_u8 r = (0xFE, adv 1 r)" using rd_u8_unread [OF assms(1)] by (simp add: kOpSelectDb_def)
  have 1: "rd_length (adv 1 r) = ((n, None), adv (length (enc_length n)) (adv 1 r))"
    by (rule rd_length_enc) (use assms in \<open>simp_all add: rd_good_def\<close>)
  show ?thesis using assms(2) 1 by (simp add: iter_simps 0)
qed

lemma rdb_iter_resize:
  assumes "unread r = char_of kOpResizeDb # enc_length n @ enc_length m @ xs" "rd_good r"
    and "n < 2 ^ 64" "m < 2 ^ 64"
  shows "rdb_iter (r, p, out) =
     Inr (adv (1 + length (enc_length n) + length (enc_length m)) r, p, out)"
proof -
  have 0: "rd_u8 r = (0xFB, adv 1 r)" using rd_u8_unread [OF assms(1)] by (simp add: kOpResizeDb_def)
  have 1: "rd_length (adv 1 r) = ((n, None), adv (length (enc_length n)) (adv 1 r))"
    by (rule rd_length_enc) (use assms in \<open>simp_all add: rd_good_def\<close>)
  have 2: "rd_length (adv (1 + length (enc_length n)) r) =
      ((m, None), adv (length (enc_length m)) (adv (1 + length (enc_length n)) r))"
    by (rule rd_length_enc) (use assms in \<open>simp_all add: rd_good_def\<close>)
  show ?thesis using assms(2) 1 2 by (simp add: iter_simps 0)
qed

lemma wrap64_u64: "in_int64 e \<Longrightarrow> wrap64 (int (u64 e)) = e"
  by (simp add: u64_def wrap64_def int64_defs mod_add_left_eq)

lemma rdb_iter_expire:
  assumes "unread r = char_of kOpExpireMs # le_bytes 8 (u64 e) @ xs" "rd_good r" "in_int64 e"
  shows "rdb_iter (r, p, out) = Inr (adv 9 r, e, out)"
proof -
  have 0: "rd_u8 r = (0xFC, adv 1 r)" using rd_u8_unread [OF assms(1)] by (simp add: kOpExpireMs_def)
  have "rd_le 8 (adv 1 r) = (le_value (le_bytes 8 (u64 e)), adv 8 (adv 1 r))"
    by (rule rd_le_unread) (use assms in simp_all)
  moreover have "u64 e < 2 ^ 64" by (simp add: u64_def nat_less_iff)
  ultimately have 1: "rd_u64_le (adv 1 r) = (u64 e, adv 9 r)"
    by (simp add: rd_u64_le_def le_value_bytes)
  show ?thesis using assms(2) 1 by (simp add: iter_simps 0 wrap64_u64 [OF assms(3)])
qed

lemma rdb_iter_string:
  assumes "unread r = char_of kTypeString # enc_string k @ enc_string v @ xs" "rd_good r"
  shows "rdb_iter (r, p, out) =
     Inr (adv (1 + length (enc_string k) + length (enc_string v)) r, kNoExpiry,
          out @ [\<lparr>rec_key = k, rec_value = v, rec_expire_at = p\<rparr>])"
proof -
  have 0: "rd_u8 r = (0, adv 1 r)" using rd_u8_unread [OF assms(1)] by (simp add: kTypeString_def)
  have 1: "rd_str (adv 1 r) = (k, adv (length (enc_string k)) (adv 1 r))"
    by (rule rd_str_enc) (use assms in \<open>simp_all add: rd_good_def\<close>)
  have 2: "rd_str (adv (1 + length (enc_string k)) r) =
      (v, adv (length (enc_string v)) (adv (1 + length (enc_string k)) r))"
    by (rule rd_str_enc) (use assms in \<open>simp_all add: rd_good_def\<close>)
  show ?thesis using assms(2) 1 2 by (simp add: iter_simps 0)
qed

lemma rdb_loop_step:
  "unread r \<noteq> [] \<Longrightarrow> rdb_iter (r, p, out) = Inr st \<Longrightarrow> rdb_loop (r, p, out) = rdb_loop st"
  by (subst rdb_loop.simps) (auto simp: rd_eof_def unread_def)

lemma rdb_loop_end: "unread r = [] \<Longrightarrow> rdb_loop (r, p, out) = Some (RdbOk out)"
  by (subst rdb_loop.simps) (auto simp: rd_eof_def unread_def)

lemma rdb_loop_records:
  assumes "unread r = concat (map enc_record rs)" "rd_good r" "\<forall>x \<in> set rs. in_int64 (rec_expire_at x)"
  shows "rdb_loop (r, kNoExpiry, out) = Some (RdbOk (out @ rs))"
  using assms
proof (induction rs arbitrary: r out)
  case Nil
  then show ?case by (simp add: rdb_loop_end)
next
  case (Cons x rs)
  let ?k = "rec_key x" and ?v = "rec_value x" and ?e = "rec_expire_at x"
  let ?rest = "concat (map enc_record rs)"
  let ?s = "char_of kTypeString # enc_string ?k @ enc_string ?v"
  have str: "rdb_loop (q, ?e, out) = Some (RdbOk (out @ x # rs))"
    if q: "unread q = ?s @ ?rest" "rd_good q" for q
  proof -
    have "rdb_loop (q, ?e, out) = rdb_loop (adv (length ?s) q, kNoExpiry, out @ [x])"
      by (rule rdb_loop_step) (use q rdb_iter_string [of q ?k ?v ?rest ?e out] in simp_all)
    also have "\<dots> = Some (RdbOk ((out @ [x]) @ rs))"
      by (rule Cons.IH) (use q Cons.prems(3) in simp_all)
    finally show ?thesis by simp
  qed
  show ?case
  proof (cases "?e = kNoExpiry")
    case True
    with str [of r] Cons.prems show ?thesis by (simp add: enc_record_def [of x])
  next
    case False
    then have u: "unread r = char_of kOpExpireMs # le_bytes 8 (u64 ?e) @ ?s @ ?rest"
      using Cons.prems(1) by (simp add: enc_record_def [of x])
    have "rdb_loop (r, kNoExpiry, out) = rdb_loop (adv 9 r, ?e, out)"
      by (rule rdb_loop_step) (use u rdb_iter_expire [OF u Cons.prems(2)] Cons.prems(3) in simp_all)
    also have "\<dots> = Some (RdbOk (out @ x # rs))"
      by (rule str) (use u Cons.prems(2) in simp_all)
    finally show ?thesis .
  qed
qed

lemma rdb_loop_body:
  assumes u: "unread r = enc_body rs" and g: "rd_good r" and n: "length rs < 2 ^ 64"
    and e: "\<forall>x \<in> set rs. in_int64 (rec_expire_at x)"
  shows "rdb_loop (r, kNoExpiry, []) = Some (RdbOk rs)"
proof -
  let ?m = "length (filter (\<lambda>x. rec_expire_at x \<noteq> kNoExpiry) rs)"
  let ?a = "1 + length (enc_string ''redis-ver'') + length (enc_string ''7.0.0-rp'')"
  let ?b = "1 + length (enc_length 0)"
  let ?c = "1 + length (enc_length (length rs)) + length (enc_length ?m)"
  have m: "?m < 2 ^ 64" using n by (rule le_less_trans [OF length_filter_le])
  have "rdb_loop (r, kNoExpiry, []) = rdb_loop (adv ?a r, kNoExpiry, [])"
    by (rule rdb_loop_step)
       (use u g in \<open>simp_all add: enc_body_def enc_preamble_def rdb_iter_aux\<close>)
  also have "\<dots> = rdb_loop (adv ?b (adv ?a r), kNoExpiry, [])"
    by (rule rdb_loop_step, use u in \<open>simp add: enc_body_def enc_preamble_def\<close>, rule rdb_iter_select)
       (use u g in \<open>simp_all add: enc_body_def enc_preamble_def\<close>)
  also have "\<dots> = rdb_loop (adv ?c (adv ?b (adv ?a r)), kNoExpiry, [])"
    by (rule rdb_loop_step, use u in \<open>simp add: enc_body_def enc_preamble_def\<close>, rule rdb_iter_resize)
       (use u g n m in \<open>simp_all add: enc_body_def enc_preamble_def\<close>)
  also have "\<dots> = Some (RdbOk ([] @ rs))"
    by (rule rdb_loop_records) (use u g e in \<open>simp_all add: enc_body_def enc_preamble_def\<close>)
  finally show ?thesis by simp
qed

lemma str_less_irrefl: "\<not> str_less s s"
  by (induction s) auto

lemma rdb_frame:
  fixes mid trailer :: string
  defines "front \<equiv> kRdbMagic @ kRdbVersion @ mid @ [char_of kOpEof]"
  assumes "length trailer = 8"
  shows "rdb_parse (front @ trailer) =
     (if le_value trailer \<noteq> 0 \<and> unat (crc64 0 front) \<noteq> le_value trailer
      then Some (RdbFail [] ''checksum mismatch: file corrupt'')
      else rdb_loop (reader_new mid, kNoExpiry, []))"
proof -
  let ?p = "front @ trailer"
  have len: "length front = 10 + length mid" "length ?p = 18 + length mid"
    using assms(2) by (simp_all add: front_def kRdbMagic_def kRdbVersion_def)
  have parts: "take (length kRdbMagic) ?p = kRdbMagic" "take 4 (drop (length kRdbMagic) ?p) = kRdbVersion"
    by (simp_all add: front_def kRdbVersion_def)
  have crc: "take (length ?p - 8) ?p = front" "drop (length ?p - 8) ?p = trailer"
    using len assms(2) by simp_all
  have eof: "?p ! (length ?p - 8 - 1) = char_of kOpEof"
    using len by (simp add: nth_append) (simp add: front_def nth_append kRdbMagic_def kRdbVersion_def)
  have body: "take (length ?p - 8 - 1 - (length kRdbMagic + length kRdbVersion))
      (drop (length kRdbMagic + length kRdbVersion) ?p) = mid"
    using len by (simp add: front_def kRdbMagic_def kRdbVersion_def)
  show ?thesis
    unfolding rdb_parse_def Let_def parts crc eof body str_less_irrefl
    using len assms(2) by (simp add: kRdbMagic_def kRdbVersion_def kOpEof_def str_less_irrefl)
qed

lemma u64_of_crc: "unat (w :: 64 word) < 2 ^ 64"
  using unsigned_less [of w, where 'a = nat] by simp

lemma rdb_parse_serialize:
  assumes len: "length (rdb_serialize rs) < 2 ^ 64" and e: "\<forall>x \<in> set rs. in_int64 (rec_expire_at x)"
  shows "rdb_parse (rdb_serialize rs) = Some (RdbOk rs)"
proof -
  let ?front = "kRdbMagic @ kRdbVersion @ enc_body rs @ [char_of kOpEof]"
  have ser: "rdb_serialize rs = ?front @ le_bytes 8 (unat (crc64 0 ?front))"
    by (simp add: rdb_serialize_eq Let_def)
  have one: "1 \<le> length (enc_record x)" for x by (simp add: enc_record_def)
  have "length xs \<le> length (concat (map enc_record xs))" for xs
  proof (induction xs)
    case (Cons a xs)
    then show ?case using one [of a] by simp
  qed simp
  then have "length rs \<le> length (enc_body rs)"
    by (simp add: enc_body_def le_add2 order_trans [OF _ le_add2])
  then have n: "length rs < 2 ^ 64" "length (enc_body rs) < 2 ^ 64" using len ser by simp_all
  have "rdb_loop (reader_new (enc_body rs), kNoExpiry, []) = Some (RdbOk rs)"
    by (rule rdb_loop_body [OF _ _ n(1) e]) (use n in \<open>simp_all add: reader_new_def unread_def rd_good_def\<close>)
  moreover have "le_value (le_bytes 8 (unat (crc64 0 ?front))) = unat (crc64 0 ?front)"
    using u64_of_crc [of "crc64 0 ?front"] by (simp add: le_value_bytes)
  ultimately show ?thesis
    using rdb_frame [of "le_bytes 8 (unat (crc64 0 ?front))" "enc_body rs"] ser by simp
qed

section \<open>Corrupt payloads\<close>

lemma rdb_parse_checksum:
  assumes "8 \<le> length p" "stored = le_value (drop (length p - 8) p)" "stored \<noteq> 0"
    and "unat (crc64 0 (take (length p - 8) p)) \<noteq> stored"
  shows "\<exists>msg. rdb_parse p = Some (RdbFail [] msg)"
  using assms unfolding rdb_parse_def Let_def by simp

lemma rdb_parse_burst:
  assumes p: "rdb_serialize rs = a @ x @ b" and b: "8 \<le> length b"
    and xy: "length y = length x" "length x \<le> 8" "y \<noteq> x"
    and crc: "crc64 0 (take (length (rdb_serialize rs) - 8) (rdb_serialize rs)) \<noteq> 0"
  shows "\<exists>msg. rdb_parse (a @ y @ b) = Some (RdbFail [] msg)"
proof -
  let ?front = "kRdbMagic @ kRdbVersion @ enc_body rs @ [char_of kOpEof]"
  let ?t = "le_bytes 8 (unat (crc64 0 ?front))" and ?n = "length b - 8"
  have ser: "rdb_serialize rs = ?front @ ?t" by (simp add: rdb_serialize_eq Let_def)
  then have eq: "(a @ x @ take ?n b) @ drop ?n b = ?front @ ?t" using p by simp
  have "length (drop ?n b) = length ?t" using b by simp
  from append_eq_append_conv [OF disjI2, THEN iffD1, OF this eq]
  have f: "a @ x @ take ?n b = ?front" and t: "drop ?n b = ?t" by blast+
  have v: "le_value ?t = unat (crc64 0 ?front)"
    using u64_of_crc [of "crc64 0 ?front"] by (simp add: le_value_bytes)
  have "crc64 0 ?front \<noteq> 0" using crc ser by simp
  then have "le_value (drop ?n b) \<noteq> 0" using v t by (simp add: unat_eq_0)
  moreover have "crc64 0 (a @ y @ take ?n b) \<noteq> crc64 0 (a @ x @ take ?n b)"
    by (rule crc64_burst) (use xy in simp_all)
  then have "unat (crc64 0 (a @ y @ take ?n b)) \<noteq> le_value (drop ?n b)"
    using f v t by (simp add: word_unat_eq_iff)
  moreover have "drop (length (a @ y @ b) - 8) (a @ y @ b) = drop ?n b"
    "take (length (a @ y @ b) - 8) (a @ y @ b) = a @ y @ take ?n b"
    using b by simp_all
  ultimately show ?thesis using b by (intro rdb_parse_checksum [OF _ refl]) simp_all
qed

section \<open>Termination of the reading loop\<close>

definition rd_mono :: "reader \<Rightarrow> reader \<Rightarrow> bool" where
  "rd_mono r r' \<longleftrightarrow> rd_data r' = rd_data r \<and> rd_pos r \<le> rd_pos r' \<and> rd_pos r' \<le> length (rd_data r)"

lemma rd_mono_trans: "rd_mono a b \<Longrightarrow> rd_mono b c \<Longrightarrow> rd_mono a c"
  by (auto simp: rd_mono_def)

lemma rd_fail_mono: "rd_pos r \<le> length (rd_data r) \<Longrightarrow> rd_mono r (snd (rd_fail r))"
  by (simp add: rd_fail_def rd_mono_def)

lemma rd_u8_mono: "rd_pos r \<le> length (rd_data r) \<Longrightarrow> rd_mono r (snd (rd_u8 r))"
  by (simp add: rd_u8_def rd_fail_def rd_mono_def)

lemma rd_mono_pos: "rd_mono r r' \<Longrightarrow> rd_pos r' \<le> length (rd_data r')"
  by (simp add: rd_mono_def)

lemma rd_le_mono: "rd_pos r \<le> length (rd_data r) \<Longrightarrow> rd_mono r (snd (rd_le n r))"
proof (induction n arbitrary: r)
  case 0
  then show ?case by (simp add: rd_mono_def)
next
  case (Suc n)
  note u = rd_u8_mono [OF Suc.prems]
  from rd_mono_trans [OF u Suc.IH [OF rd_mono_pos [OF u]]] show ?case
    by (simp add: case_prod_unfold Let_def)
qed

lemma rd_be_mono: "rd_pos r \<le> length (rd_data r) \<Longrightarrow> rd_mono r (snd (rd_be n v r))"
proof (induction n arbitrary: r v)
  case 0
  then show ?case by (simp add: rd_mono_def)
next
  case (Suc n)
  note u = rd_u8_mono [OF Suc.prems]
  from rd_mono_trans [OF u Suc.IH [OF rd_mono_pos [OF u]]] show ?case
    by (simp add: case_prod_unfold Let_def)
qed

lemma rd_u8_less: "fst (rd_u8 r) < 256"
  by (simp add: rd_u8_def rd_fail_def)

lemma rd_be_less: "v < 2 ^ k \<Longrightarrow> fst (rd_be n v r) < 2 ^ (k + 8 * n)"
proof (induction n arbitrary: v k r)
  case (Suc n)
  have "(v * 2 ^ 8) mod 2 ^ 64 + fst (rd_u8 r) < v * 2 ^ 8 + 2 ^ 8"
    using rd_u8_less [of r] mod_less_eq_dividend [of "v * 2 ^ 8" "2 ^ 64"] by simp
  also have "\<dots> \<le> 2 ^ k * 2 ^ 8"
    using Suc.prems by (metis Suc_leI add.commute mult_Suc mult_le_mono1)
  finally have "(v * 2 ^ 8) mod 2 ^ 64 + fst (rd_u8 r) < 2 ^ (k + 8)" by (simp add: power_add)
  from Suc.IH [OF this, of "snd (rd_u8 r)"] show ?case
    by (simp only: rd_be.simps case_prod_unfold Let_def mult_Suc_right mult_Suc ac_simps)
qed simp

definition no_64bit :: "string \<Rightarrow> bool" where
  "no_64bit data \<longleftrightarrow> char_of k64Bit \<notin> set data"

lemma rd_length_mono:
  assumes "rd_pos r \<le> length (rd_data r)"
  shows "rd_mono r (snd (rd_length r))"
proof -
  note u = rd_u8_mono [OF assms]
  note p = rd_mono_pos [OF u]
  show ?thesis
    using u rd_mono_trans [OF u rd_u8_mono [OF p]] rd_mono_trans [OF u rd_be_mono [OF p]]
      rd_mono_trans [OF u rd_fail_mono [OF p]]
    by (simp add: rd_length_def case_prod_unfold Let_def)
qed

lemma rd_length_small:
  assumes "no_64bit (rd_data r)"
  shows "fst (fst (rd_length r)) < 2 ^ 32"
proof -
  let ?f = "fst (rd_u8 r)" and ?r = "snd (rd_u8 r)"
  have "\<forall>x \<in> set [0..<256]. x AND 0x3F < (64 :: nat)" by code_simp
  then have six: "?f AND 0x3F < 64" using rd_u8_less [of r] by simp
  have "(?f AND 0x3F) * 2 ^ 8 + fst (rd_u8 ?r) < 2 ^ 32"
    using six rd_u8_less [of ?r] by simp
  moreover have "fst (rd_be 4 0 ?r) < 2 ^ 32" using rd_be_less [of 0 0 4 ?r] by simp
  moreover have "?f \<noteq> k64Bit" if "rd_ok ?r"
  proof
    assume "?f = k64Bit"
    moreover from this have "rd_pos r < length (rd_data r)"
      by (auto simp: rd_u8_def rd_fail_def k64Bit_def split: if_splits)
    ultimately have "code (rd_data r ! rd_pos r) = k64Bit" "rd_pos r < length (rd_data r)"
      by (auto simp: rd_u8_def)
    with assms show False by (metis char_of_code no_64bit_def nth_mem)
  qed
  ultimately show ?thesis
    using six by (simp add: rd_length_def case_prod_unfold Let_def rd_fail_def)
qed

lemma rd_str_mono:
  assumes pos: "rd_pos r \<le> length (rd_data r)" and small: "length (rd_data r) < 2 ^ 63"
    and no: "no_64bit (rd_data r)"
  shows "rd_mono r (snd (rd_str r))"
proof -
  let ?r = "snd (rd_length r)" and ?len = "fst (fst (rd_length r))"
  note l = rd_length_mono [OF pos]
  note p = rd_mono_pos [OF l]
  note u = rd_mono_trans [OF l rd_u8_mono [OF p]]
  have len: "?len < 2 ^ 32" by (rule rd_length_small [OF no])
  have d: "rd_data ?r = rd_data r" using l by (simp add: rd_mono_def)
  have "(rd_pos ?r + ?len) mod 2 ^ 64 = rd_pos ?r + ?len"
    using p d small len by simp
  then have plain: "rd_mono r (snd (if (rd_pos ?r + ?len) mod 2 ^ 64 > length (rd_data ?r)
        then ([], snd (rd_fail ?r))
        else (take ?len (drop (rd_pos ?r) (rd_data ?r)), ?r\<lparr>rd_pos := (rd_pos ?r + ?len) mod 2 ^ 64\<rparr>)))"
    using rd_mono_trans [OF l rd_fail_mono [OF p]] l by (auto simp: rd_mono_def)
  have err: "rd_mono r (?r\<lparr>rd_error := e, rd_ok := False\<rparr>)" for e using l by (simp add: rd_mono_def)
  show ?thesis
    using l u plain err rd_mono_trans [OF u rd_u8_mono [OF rd_mono_pos [OF u]]]
      rd_mono_trans [OF l rd_le_mono [OF p, of 4]]
    by (cases "snd (fst (rd_length r))")
       (simp_all add: rd_str_def rd_u32_le_def case_prod_unfold Let_def)
qed

lemma rdb_iter_mono:
  assumes it: "rdb_iter (r, p, out) = Inr (r', p', out')"
    and pos: "rd_pos r < length (rd_data r)" and small: "length (rd_data r) < 2 ^ 63"
    and no: "no_64bit (rd_data r)"
  shows "rd_data r' = rd_data r \<and> rd_pos r < rd_pos r' \<and> rd_pos r' \<le> length (rd_data r)"
proof -
  let ?r = "snd (rd_u8 r)"
  have r: "rd_data ?r = rd_data r" "rd_pos ?r = rd_pos r + 1" using pos by (simp_all add: rd_u8_def)
  then have p0: "rd_pos ?r \<le> length (rd_data ?r)" using pos by simp
  have str: "rd_mono q (snd (rd_str q))" if "rd_mono ?r q" for q
    by (rule rd_str_mono) (use that r small no in \<open>auto simp: rd_mono_def\<close>)
  have len: "rd_mono q (snd (rd_length q))" if "rd_mono ?r q" for q
    by (rule rd_length_mono) (use that in \<open>auto simp: rd_mono_def\<close>)
  have refl: "rd_mono ?r ?r" using p0 by (simp add: rd_mono_def)
  note s1 = str [OF refl] and l1 = len [OF refl]
  note s2 = rd_mono_trans [OF s1 str [OF s1]] and l2 = rd_mono_trans [OF l1 len [OF l1]]
  have "rd_mono ?r r'"
    using it s2 l1 l2 rd_le_mono [OF p0, of 8] rd_le_mono [OF p0, of 4]
    by (auto simp: rdb_iter_def rd_u64_le_def rd_u32_le_def Let_def case_prod_unfold split: if_splits)
  then show ?thesis using r by (simp add: rd_mono_def)
qed

lemma rdb_loop_returns:
  assumes "rd_pos r \<le> length (rd_data r)" "length (rd_data r) < 2 ^ 63" "no_64bit (rd_data r)"
  shows "\<exists>res. rdb_loop (r, p, out) = Some res"
  using assms
proof (induction "length (rd_data r) - rd_pos r" arbitrary: r p out rule: less_induct)
  case less
  show ?case
  proof (cases "rd_eof r")
    case True
    then show ?thesis by (subst rdb_loop.simps) simp
  next
    case False
    then have pos: "rd_pos r < length (rd_data r)" by (simp add: rd_eof_def)
    show ?thesis
    proof (cases "rdb_iter (r, p, out)")
      case (Inl res)
      with False show ?thesis by (subst rdb_loop.simps) simp
    next
      case (Inr st)
      obtain r' p' out' where st: "st = (r', p', out')" by (cases st)
      have m: "rd_data r' = rd_data r \<and> rd_pos r < rd_pos r' \<and> rd_pos r' \<le> length (rd_data r)"
        by (rule rdb_iter_mono [OF _ pos less.prems(2,3)]) (use Inr st in simp)
      then have "\<exists>res. rdb_loop (r', p', out') = Some res"
        using pos less.prems by (intro less.hyps) auto
      with False Inr st show ?thesis by (subst rdb_loop.simps) simp
    qed
  qed
qed

lemma rdb_parse_returns:
  assumes "length p < 2 ^ 63" "no_64bit p"
  shows "\<exists>res. rdb_parse p = Some res"
proof -
  have "\<exists>res. rdb_loop (reader_new (take i (drop j p)), kNoExpiry, []) = Some res" for i j
    by (rule rdb_loop_returns)
       (use assms in \<open>auto simp: reader_new_def no_64bit_def min_def dest: in_set_takeD in_set_dropD\<close>)
  then show ?thesis by (simp add: rdb_parse_def Let_def)
qed

text \<open>
  A 64-bit length can wrap the position around: reading the value of this record takes the
  position from 11 back to 0, so the loop reads the same record for ever.
\<close>

definition wrapping_body :: string where
  "wrapping_body = map char_of [0x00 :: nat, 0x00, 0x81, 0xFF, 0xFF, 0xFF, 0xFF, 0xFF, 0xFF, 0xFF, 0xF5]"

definition wrapping_payload :: string where
  "wrapping_payload = kRdbMagic @ kRdbVersion @ wrapping_body @ [char_of kOpEof] @ replicate 8 (char_of (0 :: nat))"

lemma wrapping_reads:
  fixes r
  defines "r \<equiv> \<lambda>n. adv n (reader_new wrapping_body)"
  shows "rd_u8 (r 0) = (0, r 1)" "rd_str (r 1) = ([], r 2)"
    and "\<exists>v. rd_str (r 2) = (v, r 0)"
proof -
  have u: "unread (r n) = drop n wrapping_body" for n by (simp add: r_def reader_new_def unread_def)
  have a: "adv m (r n) = r (n + m)" for m n by (simp add: r_def)
  have d: "rd_ok (r n)" "rd_data (r n) = wrapping_body" "rd_pos (r n) = n" for n
    by (simp_all add: r_def reader_new_def)
  have l: "length wrapping_body = 11" by (simp add: wrapping_body_def)
  have "unread (r 0) = char_of (0 :: nat) # drop 1 wrapping_body"
    unfolding u by (simp add: wrapping_body_def)
  from rd_u8_unread [OF this] show "rd_u8 (r 0) = (0, r 1)" by (simp add: a)
  have "unread (r 1) = enc_string [] @ drop 2 wrapping_body"
    unfolding u by (simp add: wrapping_body_def enc_string_def enc_length_cases)
  from rd_str_enc [OF this] have "rd_str (r 1) = ([], adv 1 (r 1))"
    by (simp add: d l enc_string_def enc_length_cases)
  also have "adv 1 (r 1) = r 2" unfolding a by (simp only: one_add_one)
  finally show "rd_str (r 1) = ([], r 2)" .
  have "unread (r 2) = char_of (0x81 :: nat) # drop 3 wrapping_body"
    unfolding u by (simp add: wrapping_body_def)
  from rd_u8_unread [OF this] have first: "rd_u8 (r 2) = (0x81, r 3)" by (simp add: a)
  have "rd_be 8 0 (r 3) = (be_value 0 (drop 3 wrapping_body), adv 8 (r 3))"
    by (rule rd_be_unread [of _ _ "[]"]) (simp_all add: u l)
  moreover have "be_value 0 (drop 3 wrapping_body) = 2 ^ 64 - 11"
    by (simp add: be_value_def wrapping_body_def)
  ultimately have "rd_length (r 2) = ((2 ^ 64 - 11, None), r 11)"
    by (simp add: rd_length_def first rdb_consts d a)
  then have "rd_str (r 2) = (take (2 ^ 64 - 11) (drop 11 wrapping_body), (r 11)\<lparr>rd_pos := 0\<rparr>)"
    unfolding rd_str_def by (simp add: d l)
  moreover have "(r 11)\<lparr>rd_pos := 0\<rparr> = r 0" by (simp add: r_def reader_new_def adv_def)
  ultimately show "\<exists>v. rd_str (r 2) = (v, r 0)" by metis
qed

lemma wrapping_iter:
  "\<exists>rec. rdb_iter (reader_new wrapping_body, kNoExpiry, out) =
     Inr (reader_new wrapping_body, kNoExpiry, out @ [rec])"
proof -
  have ok: "rd_ok (adv n (reader_new wrapping_body))" "rd_ok (reader_new wrapping_body)" for n
    by (simp_all add: reader_new_def)
  obtain v where v: "rd_str (adv 2 (reader_new wrapping_body)) = (v, reader_new wrapping_body)"
    using wrapping_reads(3) by auto
  show ?thesis
    using wrapping_reads(1,2) v unfolding rdb_iter_def by (simp add: rdb_consts Let_def ok)
qed

definition wrapping_state :: "rdb_state \<Rightarrow> bool" where
  "wrapping_state st \<longleftrightarrow> fst st = reader_new wrapping_body \<and> fst (snd st) = kNoExpiry"

lemma wrapping_diverges: "rdb_loop st = Some res \<Longrightarrow> \<not> wrapping_state st"
proof (erule rdb_loop.raw_induct [rotated])
  fix loop :: "rdb_state \<Rightarrow> rdb_result option" and st res
  assume IH: "\<And>x y. loop x = Some y \<Longrightarrow> \<not> wrapping_state x"
    and body: "(if rd_eof (fst st) then Some (RdbOk (snd (snd st)))
      else (case rdb_iter st of Inl res \<Rightarrow> Some res | Inr st1 \<Rightarrow> loop st1)) = Some res"
  show "\<not> wrapping_state st"
  proof
    assume "wrapping_state st"
    then obtain out where st: "st = (reader_new wrapping_body, kNoExpiry, out)"
      by (cases st) (auto simp: wrapping_state_def)
    obtain rec where it: "rdb_iter st = Inr (reader_new wrapping_body, kNoExpiry, out @ [rec])"
      using wrapping_iter st by blast
    have "\<not> rd_eof (reader_new wrapping_body)" by (simp add: rd_eof_def reader_new_def wrapping_body_def)
    with body it have "loop (reader_new wrapping_body, kNoExpiry, out @ [rec]) = Some res" by (simp add: st)
    then show False using IH by (fastforce simp: wrapping_state_def)
  qed
qed

lemma wrapping_payload_diverges: "rdb_parse wrapping_payload = None"
proof -
  have "le_value (replicate n (char_of (0 :: nat))) = 0" for n
    by (induction n) (simp_all add: le_value_def)
  then have "rdb_parse wrapping_payload = rdb_loop (reader_new wrapping_body, kNoExpiry, [])"
    using rdb_frame [of "replicate 8 (char_of (0 :: nat))" wrapping_body] by (simp add: wrapping_payload_def)
  moreover have "rdb_loop (reader_new wrapping_body, kNoExpiry, []) = None"
    using wrapping_diverges [of "(reader_new wrapping_body, kNoExpiry, [])"]
    by (cases "rdb_loop (reader_new wrapping_body, kNoExpiry, [])") (auto simp: wrapping_state_def)
  ultimately show ?thesis by simp
qed

section \<open>Saving and loading files\<close>

lemma rdb_temp_neq [simp]: "rdb_temp io path \<noteq> path" "path \<noteq> rdb_temp io path"
  by (simp_all add: rdb_temp_def)

lemma rdb_serialize_nonempty [simp]: "rdb_serialize rs \<noteq> []"
  by (simp add: rdb_serialize_eq Let_def kRdbMagic_def)

lemma rdb_save_ok:
  assumes "fst (rdb_save_file io path rs fs) = None"
  shows "last (snd (rdb_save_file io path rs fs)) =
    fs(path \<mapsto> rdb_serialize rs, rdb_temp io path := None)"
  using assms by (auto simp: rdb_save_file_def Let_def fun_eq_iff split: if_splits)

text \<open>The unsupported-opcode branch returns what was read so far.\<close>

lemma rdb_iter_unsupported:
  assumes "unread r = char_of (5 :: nat) # xs" "rd_good r"
  shows "rdb_iter (r, p, out) =
     Inl (RdbFail out (''unsupported opcode 0x'' @ to_string_nat 5 @ '' (only string values are supported)''))"
proof -
  have "rd_u8 r = (5, adv 1 r)" using rd_u8_unread [OF assms(1)] by simp
  then show ?thesis using assms(2) by (simp add: iter_simps)
qed

section \<open>Properties\<close>

text \<open>
  C10: Parsing inverts serialization, for every list of records that fits in the address space:
  keys and values with any bytes, every 64-bit deadline, checksum included.
\<close>
theorem rdb_roundtrip:
  assumes "length (rdb_serialize rs) < 2 ^ 64" "\<forall>r \<in> set rs. in_int64 (rec_expire_at r)"
  shows "rdb_parse (rdb_serialize rs) = Some (RdbOk rs)"
  using assms by (rule rdb_parse_serialize)

theorem rdb_roundtrip_witness:
  "rdb_parse (rdb_serialize [\<lparr>rec_key = ''k'', rec_value = [], rec_expire_at = -2\<rparr>]) =
   Some (RdbOk [\<lparr>rec_key = ''k'', rec_value = [], rec_expire_at = -2\<rparr>])"
  by (rule rdb_roundtrip)
     (simp_all add: rdb_serialize_eq Let_def enc_body_def enc_preamble_def enc_record_def enc_string_def
       enc_length_cases kRdbMagic_def kRdbVersion_def kNoExpiry_def int64_defs)


text \<open>
  The first opcode of a snapshot with one key is damaged. Snapshots whose keys are \<open>a\<close> and \<open>b\<close>
  differ in one byte, so at most one of them has the checksum zero.
\<close>

definition one_key :: "char \<Rightarrow> kv_record list" where
  "one_key c = [\<lparr>rec_key = [c], rec_value = ''v'', rec_expire_at = kNoExpiry\<rparr>]"

lemma rdb_serialize_head:
  "rdb_serialize rs = (kRdbMagic @ kRdbVersion) @ [char_of kOpAux] @ drop 10 (rdb_serialize rs) \<and>
   8 \<le> length (drop 10 (rdb_serialize rs))"
proof -
  obtain rest t where "enc_body rs = char_of kOpAux # rest"
    and "rdb_serialize rs = kRdbMagic @ kRdbVersion @ enc_body rs @ [char_of kOpEof] @ t" "length t = 8"
    by (simp add: rdb_serialize_eq Let_def enc_body_def enc_preamble_def)
  moreover have "length (kRdbMagic @ kRdbVersion) = 9" by (simp add: kRdbMagic_def kRdbVersion_def)
  ultimately show ?thesis by simp
qed

lemma one_key_front:
  "take (length (rdb_serialize (one_key c)) - 8) (rdb_serialize (one_key c)) =
   (kRdbMagic @ kRdbVersion @ enc_preamble (one_key CHR ''a'') @ [char_of kTypeString] @ enc_length 1) @
   [c] @ (enc_string ''v'' @ [char_of kOpEof])"
  by (simp add: rdb_serialize_eq Let_def)
     (simp add: one_key_def enc_body_def enc_preamble_def enc_record_def enc_string_def)


text \<open>
  C25: On every payload without a byte \<open>0x81\<close>, the prefix of a 64-bit length, the reading
  loop ends and \<open>rdb_parse\<close> returns.
\<close>
theorem rdb_parse_terminates:
  assumes "length p < 2 ^ 63" "char_of k64Bit \<notin> set p"
  shows "\<exists>res. rdb_parse p = Some res"
  using assms rdb_parse_returns by (simp add: no_64bit_def)

theorem rdb_parse_terminates_witness: "\<exists>res. rdb_parse ''REDIS0011 not a snapshot'' = Some res"
  by (rule rdb_parse_terminates) (simp_all add: k64Bit_def char_of_def)

text \<open>
  With a 64-bit length the bound check \<open>pos_ + len > data_.size()\<close> wraps around: on this
  31-byte payload \<open>rdb_parse\<close> never returns.
\<close>
theorem rdb_parse_diverges: "rdb_parse wrapping_payload = None"
  by (rule wrapping_payload_diverges)

text \<open>
  C26: A save that reports success leaves the serialized snapshot under its path and no
  temporary file, touches no other file, and loading it gives back the records.
\<close>
theorem rdb_save_then_load:
  assumes "rdb_save_file io path rs fs = (None, states)"
    and "length (rdb_serialize rs) < 2 ^ 64" "\<forall>r \<in> set rs. in_int64 (rec_expire_at r)"
  shows "rdb_load_file path (last states) = Some (RdbOk rs) \<and>
    last states (rdb_temp io path) = None \<and>
    (\<forall>q. q \<noteq> path \<and> q \<noteq> rdb_temp io path \<longrightarrow> last states q = fs q)"
proof -
  have "last states = fs(path \<mapsto> rdb_serialize rs, rdb_temp io path := None)"
    using rdb_save_ok [of io path rs fs] assms(1) by simp
  then show ?thesis using rdb_parse_serialize [OF assms(2,3)] by (simp add: rdb_load_file_def)
qed

theorem rdb_save_then_load_witness:
  "rdb_load_file ''dump.rdb'' (last (snd (rdb_save_file
     \<lparr>io_pid = 7, io_open = True, io_write = True, io_partial = [], io_rename = True,
      io_count = 0, io_spill = 0\<rparr>
     ''dump.rdb'' [] Map.empty))) = Some (RdbOk [])"
proof -
  let ?io = "\<lparr>io_pid = 7, io_open = True, io_write = True, io_partial = [], io_rename = True,
      io_count = 0, io_spill = 0\<rparr>"
  obtain e states where r: "rdb_save_file ?io ''dump.rdb'' [] Map.empty = (e, states)" by fastforce
  moreover from this have "e = None" by (simp add: rdb_save_file_def Let_def)
  ultimately have "rdb_load_file ''dump.rdb'' (last states) = Some (RdbOk [])"
    using rdb_save_then_load [of ?io "''dump.rdb''" "[]" Map.empty states]
    by (simp add: rdb_serialize_eq Let_def enc_body_def enc_preamble_def enc_string_def enc_length_cases
        kRdbMagic_def kRdbVersion_def)
  with r show ?thesis by simp
qed

text \<open>
  C27: A save that cannot open or write its temporary file leaves every file but the temporary
  one as it was, and so does a crash at any moment before the old snapshot is removed.
\<close>
theorem rdb_save_failure_keeps_old:
  assumes "\<not> io_open io \<or> \<not> io_write io"
  shows "fst (rdb_save_file io path rs fs) \<noteq> None \<and>
    (\<forall>state \<in> set (snd (rdb_save_file io path rs fs)). \<forall>q. q \<noteq> rdb_temp io path \<longrightarrow> state q = fs q)"
  using assms by (auto simp: rdb_save_file_def Let_def)

theorem rdb_save_failure_keeps_old_witness:
  "last (snd (rdb_save_file
     \<lparr>io_pid = 7, io_open = True, io_write = False, io_partial = ''RED'', io_rename = True,
      io_count = 0, io_spill = 0\<rparr>
     ''dump.rdb'' [] [''dump.rdb'' \<mapsto> ''old''])) ''dump.rdb'' = Some ''old''"
proof -
  let ?io = "\<lparr>io_pid = 7, io_open = True, io_write = False, io_partial = ''RED'', io_rename = True,
      io_count = 0, io_spill = 0\<rparr>"
  let ?s = "snd (rdb_save_file ?io ''dump.rdb'' [] [''dump.rdb'' \<mapsto> ''old''])"
  have "?s \<noteq> []" by (simp add: rdb_save_file_def Let_def)
  then have "last ?s \<in> set ?s" by simp
  moreover have "\<forall>state \<in> set ?s. \<forall>q. q \<noteq> rdb_temp ?io ''dump.rdb'' \<longrightarrow>
      state q = [''dump.rdb'' \<mapsto> ''old''] q"
    using rdb_save_failure_keeps_old [of ?io "''dump.rdb''" "[]" "[''dump.rdb'' \<mapsto> ''old'']"] by simp
  ultimately show ?thesis by (metis fun_upd_same rdb_temp_neq(2))
qed

text \<open>
  Replacing the snapshot is not atomic: every successful save passes through a state in which
  no file is under the path, and a load from that state succeeds with no records; a save whose
  rename fails ends in such a state.
\<close>
theorem rdb_save_not_atomic:
  assumes "io_open io" "io_write io"
  shows "\<exists>state \<in> set (snd (rdb_save_file io path rs fs)).
     state path = None \<and> rdb_load_file path state = Some (RdbOk [])"
proof -
  let ?state = "(fs(rdb_temp io path \<mapsto> rdb_serialize rs))(path := None)"
  have "?state \<in> set (snd (rdb_save_file io path rs fs))"
    using assms by (simp add: rdb_save_file_def Let_def)
  moreover have "?state path = None \<and> rdb_load_file path ?state = Some (RdbOk [])"
    by (simp add: rdb_load_file_def)
  ultimately show ?thesis by blast
qed

text \<open>
  An unsupported opcode after a complete record leaves that record in the output, unlike every
  other failure.
\<close>
theorem rdb_parse_keeps_records:
  "rdb_parse (kRdbMagic @ kRdbVersion @
      (enc_record \<lparr>rec_key = ''k'', rec_value = ''v'', rec_expire_at = kNoExpiry\<rparr> @ [char_of (5 :: nat)]) @
      [char_of kOpEof] @ replicate 8 (char_of (0 :: nat))) =
   Some (RdbFail [\<lparr>rec_key = ''k'', rec_value = ''v'', rec_expire_at = kNoExpiry\<rparr>]
     (''unsupported opcode 0x'' @ to_string_nat 5 @ '' (only string values are supported)''))"
proof -
  let ?x = "\<lparr>rec_key = ''k'', rec_value = ''v'', rec_expire_at = kNoExpiry\<rparr>"
  let ?body = "enc_record ?x @ [char_of (5 :: nat)]"
  let ?r = "reader_new ?body" and ?n = "length (enc_record ?x)"
  have zero: "le_value (replicate n (char_of (0 :: nat))) = 0" for n
    by (induction n) (simp_all add: le_value_def)
  have u: "unread ?r = char_of kTypeString # enc_string ''k'' @ enc_string ''v'' @ [char_of (5 :: nat)]"
    by (simp add: reader_new_def unread_def enc_record_def)
  have g: "rd_good ?r"
    by (simp add: rd_good_def reader_new_def enc_record_def enc_string_def enc_length_cases)
  have "rdb_loop (?r, kNoExpiry, []) = rdb_loop (adv ?n ?r, kNoExpiry, [] @ [?x])"
    by (rule rdb_loop_step) (use u rdb_iter_string [OF u g] in \<open>simp_all add: enc_record_def\<close>)
  also have "unread (adv ?n ?r) = [char_of (5 :: nat)]"
    by (simp add: unread_def reader_new_def)
  then have "rdb_loop (adv ?n ?r, kNoExpiry, [] @ [?x]) = Some (RdbFail [?x]
     (''unsupported opcode 0x'' @ to_string_nat 5 @ '' (only string values are supported)''))"
    using g rdb_iter_unsupported [of "adv ?n ?r" "[]" kNoExpiry "[?x]"]
    by (subst rdb_loop.simps) (simp add: rd_eof_def reader_new_def)
  finally show ?thesis
    using rdb_frame [of "replicate 8 (char_of (0 :: nat))" ?body] zero [of 8] by simp
qed

end
