(* ===== verification/Stats.thy ===== *)
theory Stats
  imports Resp
begin

text \<open>
  The process-wide counters, \<open>struct Stats\<close> of \<open>include/rp/stats.hpp\<close>, and the \<open>INFO\<close> text
  of \<open>src/stats.cpp\<close>. The counters are updated on the event-loop thread, where the
  compare-and-swap loop of \<open>on_connect\<close> stores the maximum. \<open>connections_active\<close> is unsigned and
  wraps below zero.
\<close>

record stats =
  connections_received :: nat
  connections_active :: nat
  connections_peak :: nat
  connections_rejected :: nat
  commands_processed :: nat
  bytes_read :: nat
  bytes_written :: nat
  output_buffer_overflows :: nat

definition stats_new :: stats where
  "stats_new = \<lparr>connections_received = 0, connections_active = 0, connections_peak = 0,
     connections_rejected = 0, commands_processed = 0, bytes_read = 0, bytes_written = 0,
     output_buffer_overflows = 0\<rparr>"

definition stats_on_connect :: "stats \<Rightarrow> stats" where
  "stats_on_connect st =
     (let now = connections_active st + 1;
          peak = connections_peak st
      in st\<lparr>connections_received := connections_received st + 1, connections_active := now,
           connections_peak := (if now > peak then now else peak)\<rparr>)"

definition stats_on_disconnect :: "stats \<Rightarrow> stats" where
  "stats_on_disconnect st =
     st\<lparr>connections_active := (connections_active st + (2 ^ 64 - 1)) mod 2 ^ 64\<rparr>"

definition info_line :: "string \<Rightarrow> nat \<Rightarrow> string" where
  "info_line name v = name @ '':'' @ to_string_nat v @ kCrlf"

definition stats_to_info :: "nat \<Rightarrow> stats \<Rightarrow> string" where
  "stats_to_info uptime st =
     ''# Server'' @ kCrlf @ ''redis_version:7.0.0-rp'' @ kCrlf @
     info_line ''uptime_in_seconds'' uptime @ kCrlf @
     ''# Clients'' @ kCrlf @
     info_line ''connected_clients'' (connections_active st) @
     info_line ''peak_connected_clients'' (connections_peak st) @
     info_line ''rejected_connections'' (connections_rejected st) @ kCrlf @
     ''# Stats'' @ kCrlf @
     info_line ''total_connections_received'' (connections_received st) @
     info_line ''total_commands_processed'' (commands_processed st) @
     info_line ''total_net_input_bytes'' (bytes_read st) @
     info_line ''total_net_output_bytes'' (bytes_written st) @
     info_line ''client_output_buffer_overflows'' (output_buffer_overflows st)"

text \<open>
  A history of connections: the number open now, and the most that were ever open, as long as no
  connection is closed twice.
\<close>

datatype conn_event = Opened | Closed

primrec stats_event :: "stats \<Rightarrow> conn_event \<Rightarrow> stats" where
  "stats_event st Opened = stats_on_connect st"
| "stats_event st Closed = stats_on_disconnect st"

fun open_counts :: "nat \<Rightarrow> conn_event list \<Rightarrow> nat list" where
  "open_counts n [] = [n]"
| "open_counts n (Opened # es) = n # open_counts (n + 1) es"
| "open_counts n (Closed # es) = n # open_counts (n - 1) es"

fun closes_ok :: "nat \<Rightarrow> conn_event list \<Rightarrow> bool" where
  "closes_ok n [] \<longleftrightarrow> True"
| "closes_ok n (Opened # es) \<longleftrightarrow> closes_ok (n + 1) es"
| "closes_ok n (Closed # es) \<longleftrightarrow> 0 < n \<and> closes_ok (n - 1) es"

lemma open_counts_nonempty [simp]: "open_counts n es \<noteq> []"
  by (cases "(n, es)" rule: open_counts.cases) auto

lemma dec64:
  fixes n :: nat
  assumes "0 < n" "n < 2 ^ 64"
  shows "(n + (2 ^ 64 - 1)) mod 2 ^ 64 = n - 1"
proof -
  have "n + (2 ^ 64 - 1) = (n - 1) + 2 ^ 64" using assms by simp
  moreover have "n - 1 < 2 ^ 64" using assms by simp
  ultimately show ?thesis by (simp only: mod_add_self2 mod_less)
qed

lemma stats_events:
  assumes "closes_ok (connections_active st) es" "connections_active st + length es < 2 ^ 64"
    and "connections_active st \<le> connections_peak st"
  shows "connections_active (foldl stats_event st es) = last (open_counts (connections_active st) es) \<and>
    connections_peak (foldl stats_event st es) =
      Max (insert (connections_peak st) (set (open_counts (connections_active st) es)))"
  using assms
proof (induction es arbitrary: st)
  case Nil
  then show ?case by (simp add: max_def)
next
  case (Cons e es)
  let ?st = "stats_event st e"
  show ?case
  proof (cases e)
    case Opened
    have a: "connections_active ?st = connections_active st + 1"
      "connections_peak ?st = max (connections_active st + 1) (connections_peak st)"
      using Opened by (simp_all add: stats_on_connect_def Let_def max_def)
    have IH: "connections_active (foldl stats_event ?st es) = last (open_counts (connections_active st + 1) es) \<and>
      connections_peak (foldl stats_event ?st es) =
        Max (insert (max (connections_active st + 1) (connections_peak st))
          (set (open_counts (connections_active st + 1) es)))"
      using Cons.IH [of ?st] Cons.prems Opened a by simp
    have "connections_active st + 1 \<in> set (open_counts (connections_active st + 1) es)"
      by (cases "(connections_active st + 1, es)" rule: open_counts.cases) auto
    then have "Max (insert (max (connections_active st + 1) (connections_peak st))
          (set (open_counts (connections_active st + 1) es))) =
        Max (insert (connections_peak st) (insert (connections_active st)
          (set (open_counts (connections_active st + 1) es))))"
      using Cons.prems(3) by (intro Max_eq_if) auto
    with IH Opened show ?thesis by simp
  next
    case Closed
    then have pos: "0 < connections_active st" using Cons.prems(1) by simp
    then have a: "connections_active ?st = connections_active st - 1" "connections_peak ?st = connections_peak st"
      using Closed Cons.prems(2) dec64 [OF pos] by (simp_all add: stats_on_disconnect_def)
    have "connections_active (foldl stats_event ?st es) = last (open_counts (connections_active st - 1) es) \<and>
      connections_peak (foldl stats_event ?st es) =
        Max (insert (connections_peak st) (set (open_counts (connections_active st - 1) es)))"
      using Cons.IH [of ?st] Cons.prems Closed a pos by simp
    moreover have "Max (insert (connections_peak st) (set (open_counts (connections_active st - 1) es))) =
        Max (insert (connections_peak st) (insert (connections_active st)
          (set (open_counts (connections_active st - 1) es))))"
      using Cons.prems(3) by (intro Max_eq_if) auto
    ultimately show ?thesis using Closed by simp
  qed
qed

section \<open>Properties\<close>



end
