(* ===== verification/Wire.thy ===== *)
theory Wire
  imports Resp
begin

text \<open>
  What the four readers of a request stream rely on (\<open>RespHandler::on_data\<close>, \<open>Aof::replay\<close>, the
  replica's stream loop and \<open>PingPongHandler::on_data\<close>): a framing function that recognises
  encoded requests at the head of its input and waits on every proper prefix of one
  (\<open>wire_format\<close>), and a loop that handles one request after another until it has to wait
  (\<open>stream_consumer\<close>). The lemmas about a whole stream, and about a stream that arrives in
  arbitrary pieces, are proved once here. The RESP parser provides the format.
\<close>

datatype 'r framed = Wait | Request 'r nat | Broken string

locale wire_format =
  fixes frame :: "string \<Rightarrow> 'r framed"
    and enc :: "'c \<Rightarrow> string"
    and dec :: "'c \<Rightarrow> 'r"
    and ok :: "'c \<Rightarrow> bool"
  assumes frame_enc: "ok c \<Longrightarrow> frame (enc c @ rest) = Request (dec c) (length (enc c))"
    and frame_prefix: "ok c \<Longrightarrow> n < length (enc c) \<Longrightarrow> frame (take n (enc c)) = Wait"
    and frame_empty: "frame [] = Wait"
begin

definition stream :: "'c list \<Rightarrow> string" where
  "stream cs = concat (map enc cs)"

lemma stream_simps [simp]: "stream [] = []" "stream (c # cs) = enc c @ stream cs"
  "stream (cs @ ds) = stream cs @ stream ds"
  by (simp_all add: stream_def)

text \<open>The complete requests in a prefix of a stream, and the bytes after them.\<close>

fun split :: "nat \<Rightarrow> 'c list \<Rightarrow> 'c list \<times> string \<times> 'c list" where
  "split m [] = ([], [], [])"
| "split m (c # cs) =
     (if m < length (enc c) then ([], take m (enc c), c # cs)
      else (let (ds, q, es) = split (m - length (enc c)) cs in (c # ds, q, es)))"

lemma split_correct:
  assumes "split m cs = (ds, q, es)" "\<forall>c \<in> set cs. ok c"
  shows "cs = ds @ es \<and> take m (stream cs) = stream ds @ q \<and> frame q = Wait \<and>
    (\<exists>r. q @ r = stream es \<and> r = drop m (stream cs))"
  using assms
proof (induction m cs arbitrary: ds q es rule: split.induct)
  case (1 m)
  then show ?case by (simp add: frame_empty)
next
  case (2 m c cs)
  show ?case
  proof (cases "m < length (enc c)")
    case True
    have "q @ drop m (stream (c # cs)) = stream es"
      using True 2(2) append_take_drop_id [of m "stream (c # cs)"] by auto
    with True 2(2,3) show ?thesis by (auto simp: frame_prefix)
  next
    case False
    obtain ds' where ds: "split (m - length (enc c)) cs = (ds', q, es)" "ds = c # ds'"
      using 2(2) False by (auto split: prod.splits)
    from 2(1) [OF False ds(1)] 2(3) False ds(2) show ?thesis by auto
  qed
qed

end

locale stream_consumer = wire_format frame enc dec ok
  for frame :: "string \<Rightarrow> 'r framed" and enc :: "'c \<Rightarrow> string" and dec :: "'c \<Rightarrow> 'r"
    and ok :: "'c \<Rightarrow> bool" +
  fixes run :: "'s \<Rightarrow> string \<Rightarrow> 's \<times> string"
    and handle :: "'s \<Rightarrow> 'r \<Rightarrow> 's"
  assumes run_take: "frame inp = Request r n \<Longrightarrow> run st inp = run (handle st r) (drop n inp)"
    and run_wait: "frame inp = Wait \<Longrightarrow> run st inp = (st, inp)"
begin

definition handle_all :: "'s \<Rightarrow> 'c list \<Rightarrow> 's" where
  "handle_all = foldl (\<lambda>st c. handle st (dec c))"

lemma handle_all_simps [simp]:
  "handle_all st [] = st" "handle_all st (c # cs) = handle_all (handle st (dec c)) cs"
  "handle_all st (cs @ ds) = handle_all (handle_all st cs) ds"
  by (simp_all add: handle_all_def)

lemma run_prefix: "\<forall>c \<in> set cs. ok c \<Longrightarrow> run st (stream cs @ q) = run (handle_all st cs) q"
proof (induction cs arbitrary: st)
  case (Cons c cs)
  have "run st (stream (c # cs) @ q) = run (handle st (dec c)) (stream cs @ q)"
    using run_take [OF frame_enc [of c "stream cs @ q"]] Cons.prems by simp
  with Cons show ?case by simp
qed simp

lemma run_stream:
  assumes "\<forall>c \<in> set cs. ok c" "frame q = Wait"
  shows "run st (stream cs @ q) = (handle_all st cs, q)"
  by (simp add: run_prefix [OF assms(1)] run_wait [OF assms(2)])

text \<open>Feeding the stream piece by piece, keeping the bytes that wait.\<close>

fun feed :: "'s \<Rightarrow> string \<Rightarrow> string list \<Rightarrow> 's \<times> string" where
  "feed st pending [] = (st, pending)"
| "feed st pending (x # xs) = (let (st1, rest) = run st (pending @ x) in feed st1 rest xs)"

lemma stream_waits_empty:
  assumes "\<forall>c \<in> set cs. ok c" "frame (stream cs) = Wait"
  shows "cs = []"
proof (cases cs)
  case (Cons c ds)
  then have "frame (stream cs) = Request (dec c) (length (enc c))"
    using assms(1) frame_enc [of c "stream ds"] by simp
  with assms(2) show ?thesis by simp
qed simp

lemma feed_stream:
  assumes "\<forall>c \<in> set cs. ok c" "pending @ concat xs = stream cs" "frame pending = Wait"
  shows "feed st pending xs = (handle_all st cs, [])"
  using assms
proof (induction xs arbitrary: st pending cs)
  case Nil
  then have "cs = []" by (intro stream_waits_empty) auto
  with Nil show ?case by simp
next
  case (Cons x xs)
  obtain ds q es where s: "split (length (pending @ x)) cs = (ds, q, es)" by (metis prod_cases3)
  have "take (length (pending @ x)) (stream cs) = pending @ x"
    "drop (length (pending @ x)) (stream cs) = concat xs"
    by (simp_all flip: Cons.prems(2))
  then have px: "pending @ x = stream ds @ q" "q @ concat xs = stream es" "frame q = Wait" "cs = ds @ es"
    using split_correct [OF s Cons.prems(1)] by auto
  have "run st (pending @ x) = (handle_all st ds, q)"
    unfolding px(1) by (rule run_stream) (use Cons.prems(1) px in auto)
  moreover have "feed (handle_all st ds) q xs = (handle_all (handle_all st ds) es, [])"
    using px Cons.prems(1) by (intro Cons.IH) auto
  ultimately show ?case using px(4) by simp
qed

corollary feed_pieces:
  "\<forall>c \<in> set cs. ok c \<Longrightarrow> concat xs = stream cs \<Longrightarrow> feed st [] xs = (handle_all st cs, [])"
  by (rule feed_stream) (simp_all add: frame_empty)

end

section \<open>RESP requests are such a format\<close>

definition resp_frame :: "string \<Rightarrow> args framed" where
  "resp_frame inp =
     (let r = parse_request inp
      in case status r of
           kOk \<Rightarrow> Request (res_args r) (consumed r)
         | kIncomplete \<Rightarrow> Wait
         | kError \<Rightarrow> Broken (res_error r))"

interpretation resp: wire_format resp_frame resp_array "\<lambda>as. as" wire_ok
proof
  fix as rest n
  assume ok: "wire_ok as"
  show "resp_frame (resp_array as @ rest) = Request as (length (resp_array as))"
    using parse_request_resp_array [OF ok] by (simp add: resp_frame_def)
  show "resp_frame (take n (resp_array as)) = Wait" if "n < length (resp_array as)"
    using parse_request_prefix [OF ok that] by (simp add: resp_frame_def)
next
  show "resp_frame [] = Wait"
    by (simp add: resp_frame_def parse_request_def parse_request_opt_def)
qed

lemma resp_frame_progress: "resp_frame inp = Request r n \<Longrightarrow> 0 < n \<and> n \<le> length inp"
  using parse_request_progress [of inp]
  by (auto simp: resp_frame_def Let_def split: parse_status.splits)

end
