(* ===== verification/Aof.thy ===== *)
theory Aof
  imports Wire Files Store
begin

text \<open>
  The append-only file (\<open>src/aof.cpp\<close>, \<open>include/rp/aof.hpp\<close>): encoding of a command, the log with
  its in-memory buffer, flushing under the three fsync policies, rewriting, and replay. The
  functions take and return the file system; what the system lets each call do is an
  \<open>io_outcome\<close>. Replay is a \<open>stream_consumer\<close> of the RESP format.
\<close>

section \<open>State\<close>

datatype fsync_policy = kAlways | kEverySec | kNo

definition parse_fsync_policy :: "string \<Rightarrow> fsync_policy \<times> bool" where
  "parse_fsync_policy name =
     (if name = ''always'' then (kAlways, True)
      else if name = ''everysec'' then (kEverySec, True)
      else if name = ''no'' then (kNo, True)
      else (kEverySec, False))"

fun fsync_policy_name :: "fsync_policy \<Rightarrow> string" where
  "fsync_policy_name kAlways = ''always''"
| "fsync_policy_name kNo = ''no''"
| "fsync_policy_name kEverySec = ''everysec''"

record aof =
  a_file :: "cfile option"
  a_path :: path
  a_policy :: fsync_policy
  a_buffer :: string
  a_last_fsync_ms :: int
  a_commands_written :: nat
  a_fsyncs :: nat
  a_bytes_written :: nat

definition aof_new :: aof where
  "aof_new = \<lparr>a_file = None, a_path = [], a_policy = kEverySec, a_buffer = [], a_last_fsync_ms = 0,
     a_commands_written = 0, a_fsyncs = 0, a_bytes_written = 0\<rparr>"

section \<open>Operations\<close>

definition aof_encode :: "args \<Rightarrow> string" where
  "aof_encode as = foldl (\<lambda>out arg. out @ reply_bulk arg) (reply_array_header (length as)) as"

definition aof_is_open :: "aof \<Rightarrow> bool" where
  "aof_is_open a \<longleftrightarrow> a_file a \<noteq> None"

definition aof_close :: "aof \<Rightarrow> fs \<Rightarrow> aof \<times> fs" where
  "aof_close a fs =
     (case a_file a of
        None \<Rightarrow> (a, fs)
      | Some f \<Rightarrow>
          (let (f1, fs1, a1) =
                 (if a_buffer a \<noteq> []
                  then (let (f1, fs1) = fwrite (a_buffer a) (length (a_buffer a)) 0 f fs
                        in (f1, fs1, a\<lparr>a_buffer := []\<rparr>))
                  else (f, fs, a));
               (f2, fs2) = fsync_handle f1 fs1
           in (a1\<lparr>a_file := None\<rparr>, fclose f2 fs2)))"

definition aof_open :: "io_outcome \<Rightarrow> path \<Rightarrow> fsync_policy \<Rightarrow> aof \<Rightarrow> fs \<Rightarrow> string option \<times> aof \<times> fs" where
  "aof_open io path policy a fs =
     (let (a1, fs1) = aof_close a fs
      in if \<not> io_open io
         then (Some (''cannot open AOF '' @ path @ '' for appending''), a1, fs1)
         else (let (f, fs2) = fopen_append path fs1
               in (None, a1\<lparr>a_file := Some f, a_path := path, a_policy := policy, a_buffer := []\<rparr>, fs2)))"

definition aof_append :: "args \<Rightarrow> aof \<Rightarrow> aof" where
  "aof_append as a =
     (if a_file a = None \<or> as = [] then a
      else a\<lparr>a_buffer := a_buffer a @ aof_encode as, a_commands_written := a_commands_written a + 1\<rparr>)"

definition aof_sync :: "int \<Rightarrow> aof \<Rightarrow> cfile \<Rightarrow> fs \<Rightarrow> aof \<times> fs" where
  "aof_sync now a f fs =
     (let (f1, fs1) = fsync_handle f fs
      in (a\<lparr>a_file := Some f1, a_fsyncs := a_fsyncs a + 1, a_last_fsync_ms := now\<rparr>, fs1))"

definition aof_sync_policy :: "int \<Rightarrow> aof \<Rightarrow> cfile \<Rightarrow> fs \<Rightarrow> aof \<times> fs" where
  "aof_sync_policy now a f fs =
     (case a_policy a of
        kAlways \<Rightarrow> aof_sync now a f fs
      | kEverySec \<Rightarrow> if now - a_last_fsync_ms a \<ge> 1000 then aof_sync now a f fs else (a, fs)
      | kNo \<Rightarrow> (let (f1, fs1) = fflush f fs in (a\<lparr>a_file := Some f1\<rparr>, fs1)))"

text \<open>Whether \<open>fwrite\<close> took the whole buffer, and the file after it.\<close>

definition aof_write_buffer :: "io_outcome \<Rightarrow> string \<Rightarrow> cfile \<Rightarrow> fs \<Rightarrow> bool \<times> cfile \<times> fs" where
  "aof_write_buffer io buffer f fs =
     (if buffer = [] then (True, f, fs)
      else
        (let n = (if io_write io then length buffer else min (io_count io) (length buffer))
         in (n = length buffer, fwrite buffer n (io_spill io) f fs)))"

definition aof_flush :: "io_outcome \<Rightarrow> int \<Rightarrow> aof \<Rightarrow> fs \<Rightarrow> string option \<times> aof \<times> fs" where
  "aof_flush io now a fs =
     (case a_file a of
        None \<Rightarrow> (None, a, fs)
      | Some f \<Rightarrow>
          (let (full, f1, fs1) = aof_write_buffer io (a_buffer a) f fs
           in if \<not> full
              then (Some (''short write to AOF '' @ a_path a), a\<lparr>a_file := Some f1\<rparr>, fs1)
              else (None, aof_sync_policy now
                     (a\<lparr>a_file := Some f1, a_bytes_written := a_bytes_written a + length (a_buffer a),
                        a_buffer := []\<rparr>) f1 fs1)))"

definition rewrite_args :: "kv_record \<Rightarrow> args" where
  "rewrite_args r =
     [''SET'', rec_key r, rec_value r] @
     (if rec_expire_at r \<noteq> kNoExpiry then [''PXAT'', to_string (rec_expire_at r)] else [])"

definition rewrite_payload :: "kv_record list \<Rightarrow> string" where
  "rewrite_payload records = foldl (\<lambda>out r. out @ aof_encode (rewrite_args r)) [] records"

text \<open>\<open>io2\<close> is the outcome of reopening the file.\<close>

definition aof_rewrite ::
  "io_outcome \<Rightarrow> io_outcome \<Rightarrow> path \<Rightarrow> kv_record list \<Rightarrow> aof \<Rightarrow> fs \<Rightarrow> string option \<times> aof \<times> fs" where
  "aof_rewrite io io2 path records a fs =
     (let temp = path @ ''.rewrite''
      in if \<not> io_open io then (Some (''cannot open '' @ temp), a, fs)
         else if \<not> io_write io
         then (Some ''write failed during AOF rewrite'', a, fs(temp := None))
         else
           (let fs1 = fs(temp \<mapsto> rewrite_payload records);
                was_open = aof_is_open a;
                policy = a_policy a;
                (a1, fs2) = aof_close a fs1;
                fs3 = fs2(path := None)
            in if \<not> io_rename io
               then (let fs4 = fs3(temp := None);
                         (a2, fs5) = (if was_open then snd (aof_open io2 path policy a1 fs4) else (a1, fs4))
                     in (Some ''rename failed during AOF rewrite'', a2, fs5))
               else
                 (let fs4 = fs3(path := fs3 temp, temp := None);
                      a2 = a1\<lparr>a_commands_written := length records\<rparr>
                  in if was_open then aof_open io2 path policy a2 fs4 else (None, a2, fs4))))"

text \<open>
  Replay applies each complete command to the state. The result is the error if there was one,
  the state, the number of commands applied and the number of bytes of a torn tail.
\<close>

record 's replay =
  rp_error :: "string option"
  rp_state :: 's
  rp_applied :: nat
  rp_truncated :: nat

function replay_loop :: "('s \<Rightarrow> args \<Rightarrow> 's) \<Rightarrow> nat \<Rightarrow> 's \<times> nat \<Rightarrow> string \<Rightarrow> 's replay" where
  "replay_loop app sz st remaining =
     (if remaining = [] then \<lparr>rp_error = None, rp_state = fst st, rp_applied = snd st, rp_truncated = 0\<rparr>
      else
        (case resp_frame remaining of
           Wait \<Rightarrow>
             \<lparr>rp_error = None, rp_state = fst st, rp_applied = snd st, rp_truncated = length remaining\<rparr>
         | Broken msg \<Rightarrow>
             \<lparr>rp_error = Some (''corrupt AOF at offset '' @ to_string_nat (sz - length remaining) @ '': '' @ msg),
              rp_state = fst st, rp_applied = snd st, rp_truncated = 0\<rparr>
         | Request as n \<Rightarrow>
             replay_loop app sz
               (if as \<noteq> [] then (app (fst st) as, snd st + 1) else st) (drop n remaining)))"
  by pat_completeness auto
termination
  by (relation "measure (\<lambda>(app, sz, st, remaining). length remaining)")
     (use resp_frame_progress in fastforce)+

declare replay_loop.simps [simp del]

definition aof_replay :: "path \<Rightarrow> ('s \<Rightarrow> args \<Rightarrow> 's) \<Rightarrow> 's \<Rightarrow> fs \<Rightarrow> 's replay" where
  "aof_replay path app st fs =
     (case fs path of
        None \<Rightarrow> \<lparr>rp_error = None, rp_state = st, rp_applied = 0, rp_truncated = 0\<rparr>
      | Some data \<Rightarrow> replay_loop app (length data) (st, 0) data)"

section \<open>Replaying a log\<close>

lemma aof_encode_eq: "aof_encode = resp_array"
proof (rule ext)
  fix as
  have "foldl (\<lambda>out arg. out @ reply_bulk arg) h xs = h @ concat (map reply_bulk xs)" for h xs
    by (induction xs arbitrary: h) simp_all
  then show "aof_encode as = resp_array as" by (simp add: aof_encode_def resp_array_def)
qed

text \<open>The loop as a consumer of the stream: state, commands applied and error, and the bytes left.\<close>

type_synonym 's replay_state = "('s \<times> nat) \<times> string option"

definition replay_run :: "('s \<Rightarrow> args \<Rightarrow> 's) \<Rightarrow> 's replay_state \<Rightarrow> string \<Rightarrow> 's replay_state \<times> string" where
  "replay_run app st inp =
     (let r = replay_loop app 0 (fst st) inp
      in (((rp_state r, rp_applied r), if rp_error r = None then snd st else rp_error r),
          drop (length inp - rp_truncated r) inp))"

definition replay_handle :: "('s \<Rightarrow> args \<Rightarrow> 's) \<Rightarrow> 's \<times> nat \<Rightarrow> args \<Rightarrow> 's \<times> nat" where
  "replay_handle app st as = (if as \<noteq> [] then (app (fst st) as, snd st + 1) else st)"

text \<open>One iteration of the loop, and the wait at a torn tail.\<close>

lemma replay_loop_take:
  assumes "resp_frame inp = Request as n"
  shows "replay_loop app sz st inp = replay_loop app sz (replay_handle app st as) (drop n inp)"
proof -
  have "inp \<noteq> []" using assms resp.frame_empty by auto
  then show ?thesis by (subst replay_loop.simps) (simp add: assms replay_handle_def)
qed

lemma replay_loop_wait:
  assumes "resp_frame inp = Wait"
  shows "replay_loop app sz st inp =
     \<lparr>rp_error = None, rp_state = fst st, rp_applied = snd st, rp_truncated = length inp\<rparr>"
  by (subst replay_loop.simps) (simp add: assms)

lemma replay_loop_truncated: "rp_truncated (replay_loop app sz st inp) \<le> length inp"
proof (induction app sz st inp rule: replay_loop.induct)
  case (1 app sz st inp)
  then show ?case
    by (subst replay_loop.simps) (fastforce split: framed.splits)
qed

lemma replay_run_take:
  assumes "resp_frame inp = Request as n"
  shows "replay_run app st inp = replay_run app (replay_handle app (fst st) as, snd st) (drop n inp)"
proof -
  let ?r = "replay_loop app 0 (replay_handle app (fst st) as) (drop n inp)"
  have "n \<le> length inp" using resp_frame_progress [OF assms] by simp
  moreover have "rp_truncated ?r \<le> length (drop n inp)" by (rule replay_loop_truncated)
  ultimately have "length inp - (n + rp_truncated ?r) + n = length inp - rp_truncated ?r" by simp
  then show ?thesis by (simp add: replay_run_def replay_loop_take [OF assms] Let_def)
qed

lemma replay_run_wait: "resp_frame inp = Wait \<Longrightarrow> replay_run app st inp = (st, inp)"
  by (simp add: replay_run_def replay_loop_wait)

interpretation rpl: stream_consumer resp_frame resp_array "\<lambda>as. as" wire_ok
  "replay_run app" "\<lambda>st as. (replay_handle app (fst st) as, snd st)" for app
  by unfold_locales (simp_all add: replay_run_take replay_run_wait)

lemma replay_handle_all:
  assumes "\<forall>as \<in> set cs. wire_ok as"
  shows "rpl.handle_all app ((st, n), e) cs = ((foldl app st cs, n + length cs), e)"
  using assms
proof (induction cs arbitrary: st n)
  case (Cons c cs)
  then have "replay_handle app (st, n) c = (app st c, n + 1)"
    by (simp add: replay_handle_def wire_ok_def)
  with Cons show ?case by simp
qed simp

lemma replay_loop_size: "rp_error (replay_loop app sz st inp) = None \<Longrightarrow>
  replay_loop app sz' st inp = replay_loop app sz st inp"
proof (induction app sz st inp rule: replay_loop.induct)
  case (1 app sz st inp)
  show ?case
  proof (cases "resp_frame inp")
    case (Request as n)
    then have "inp \<noteq> []" using resp.frame_empty by auto
    from "1.IH" [OF this Request] "1.prems" show ?thesis
      by (simp only: replay_loop_take [OF Request] replay_handle_def simp_thms)
  next
    case (Broken msg)
    with "1.prems" show ?thesis by (simp add: replay_loop.simps split: if_splits)
  qed (simp add: replay_loop_wait)
qed

lemma replay_loop_stream:
  assumes "\<forall>as \<in> set cs. wire_ok as" "resp_frame torn = Wait"
  shows "replay_loop app sz (st, 0) (concat (map aof_encode cs) @ torn) =
     \<lparr>rp_error = None, rp_state = foldl app st cs, rp_applied = length cs, rp_truncated = length torn\<rparr>"
proof -
  let ?inp = "concat (map aof_encode cs) @ torn"
  let ?r = "replay_loop app 0 (st, 0) ?inp"
  have "replay_run app ((st, 0), None) ?inp = (((foldl app st cs, length cs), None), torn)"
    using rpl.run_stream [OF assms, of app "((st, 0), None)"] replay_handle_all [OF assms(1), of app st 0]
    by (simp add: resp.stream_def aof_encode_eq)
  then have r: "rp_state ?r = foldl app st cs" "rp_applied ?r = length cs" "rp_error ?r = None"
    "drop (length ?inp - rp_truncated ?r) ?inp = torn"
    by (auto simp: replay_run_def Let_def split: if_splits)
  have "length ?inp - (length ?inp - rp_truncated ?r) = length torn"
    using arg_cong [OF r(4), of length] by (simp only: length_drop)
  then have "rp_truncated ?r = length torn"
    using replay_loop_truncated [of app 0 "(st, 0)" ?inp] by linarith
  with r have "?r = \<lparr>rp_error = None, rp_state = foldl app st cs, rp_applied = length cs,
      rp_truncated = length torn\<rparr>" by (intro replay.equality) simp_all
  with replay_loop_size [OF r(3), of sz] show ?thesis by simp
qed

section \<open>The log\<close>

text \<open>The bytes written to the file, still in the library's buffer, and still in \<open>buffer_\<close>.\<close>

definition aof_log :: "aof \<Rightarrow> fs \<Rightarrow> string" where
  "aof_log a fs = (case a_file a of None \<Rightarrow> [] | Some f \<Rightarrow> written f fs @ a_buffer a)"

datatype aof_op = AAppend args | AFlush io_outcome int

fun aof_step :: "aof \<times> fs \<Rightarrow> aof_op \<Rightarrow> aof \<times> fs" where
  "aof_step (a, fs) (AAppend as) = (aof_append as a, fs)"
| "aof_step (a, fs) (AFlush io now) = snd (aof_flush io now a fs)"

primrec op_log :: "aof_op \<Rightarrow> args list" where
  "op_log (AAppend as) = (if as = [] then [] else [as])"
| "op_log (AFlush io now) = []"

primrec op_ok :: "aof_op \<Rightarrow> bool" where
  "op_ok (AAppend as) = True"
| "op_ok (AFlush io now) = io_write io"

definition open_at :: "path \<Rightarrow> aof \<Rightarrow> bool" where
  "open_at path a \<longleftrightarrow> (\<exists>f. a_file a = Some f \<and> cf_path f = path)"

lemma aof_append_log:
  assumes "open_at path a"
  shows "aof_log (aof_append as a) fs = aof_log a fs @ (if as = [] then [] else aof_encode as)"
    and "open_at path (aof_append as a)" and "a_file (aof_append as a) = a_file a"
    and "a_policy (aof_append as a) = a_policy a"
  using assms by (auto simp: aof_append_def aof_log_def open_at_def)

lemma aof_sync_log:
  assumes "aof_sync now a f fs = (a', fs')"
  shows "a_file a' = Some (fst (fsync_handle f fs)) \<and> fs' = snd (fsync_handle f fs) \<and>
    a_buffer a' = a_buffer a \<and> a_policy a' = a_policy a"
  using assms by (auto simp: aof_sync_def case_prod_unfold Let_def)

lemma aof_write_buffer_ok:
  assumes "io_write io" "aof_write_buffer io buffer f fs = (full, f1, fs1)"
  shows "full \<and> cf_path f1 = cf_path f \<and> written f1 fs1 = written f fs @ buffer"
proof (cases "buffer = []")
  case False
  let ?w = "fwrite buffer (length buffer) (io_spill io) f fs"
  have "full" "f1 = fst ?w" "fs1 = snd ?w" using assms False by (auto simp: aof_write_buffer_def)
  then show ?thesis by simp
qed (use assms in \<open>simp add: aof_write_buffer_def\<close>)

lemma aof_sync_policy_log:
  assumes "aof_sync_policy now a f fs = (a', fs')" "a_file a = Some f"
  shows "\<exists>f'. a_file a' = Some f' \<and> cf_path f' = cf_path f \<and> written f' fs' = written f fs \<and>
    a_buffer a' = a_buffer a \<and> a_policy a' = a_policy a \<and>
    (a_policy a \<noteq> kEverySec \<longrightarrow> contents fs' (cf_path f) = written f fs) \<and>
    (a_policy a = kAlways \<longrightarrow> cf_synced f' = length (written f fs))"
proof -
  have sync: ?thesis if "aof_sync now a f fs = (a', fs')" using aof_sync_log [OF that] by auto
  show ?thesis
  proof (cases "a_policy a")
    case kAlways
    with sync assms show ?thesis by (simp add: aof_sync_policy_def)
  next
    case kEverySec
    with sync assms show ?thesis by (auto simp: aof_sync_policy_def split: if_splits)
  next
    case kNo
    with assms have "a' = a\<lparr>a_file := Some (fst (fflush f fs))\<rparr>" "fs' = snd (fflush f fs)"
      by (auto simp: aof_sync_policy_def case_prod_unfold Let_def)
    with kNo show ?thesis by simp
  qed
qed

lemma aof_flush_ok:
  assumes opened: "open_at path a" and io: "io_write io"
    and r: "aof_flush io now a fs = (err, a', fs')"
  shows "err = None \<and> aof_log a' fs' = aof_log a fs \<and> open_at path a' \<and> a_buffer a' = [] \<and>
    a_policy a' = a_policy a \<and>
    (a_policy a \<noteq> kEverySec \<longrightarrow> contents fs' path = aof_log a fs) \<and>
    (a_policy a = kAlways \<longrightarrow> (\<exists>f. a_file a' = Some f \<and> cf_synced f = length (aof_log a fs)))"
proof -
  obtain f where f: "a_file a = Some f" "cf_path f = path" using opened by (auto simp: open_at_def)
  obtain full f1 fs1 where w: "aof_write_buffer io (a_buffer a) f fs = (full, f1, fs1)" by (metis prod_cases3)
  note wb = aof_write_buffer_ok [OF io w]
  define a1 where "a1 = a\<lparr>a_file := Some f1, a_bytes_written := a_bytes_written a + length (a_buffer a),
     a_buffer := []\<rparr>"
  have s: "aof_sync_policy now a1 f1 fs1 = (a', fs')" and e: "err = None"
    using r f w wb by (auto simp: aof_flush_def a1_def)
  have a1: "a_file a1 = Some f1" "a_policy a1 = a_policy a" "a_buffer a1 = []" by (simp_all add: a1_def)
  from aof_sync_policy_log [OF s a1(1)] wb f a1 e show ?thesis
    by (auto simp: aof_log_def open_at_def)
qed

definition appended :: "aof_op list \<Rightarrow> args list" where
  "appended ops = concat (map op_log ops)"

lemma aof_step_log:
  assumes "open_at path a" "op_ok x" "aof_step (a, fs) x = (a', fs')"
  shows "open_at path a' \<and> a_policy a' = a_policy a \<and>
    aof_log a' fs' = aof_log a fs @ concat (map aof_encode (op_log x))"
proof (cases x)
  case (AAppend as)
  then show ?thesis using assms aof_append_log [of path a as] by auto
next
  case (AFlush io now)
  then have "aof_flush io now a fs = (fst (aof_flush io now a fs), a', fs')"
    using assms(3) by (metis aof_step.simps(2) prod.collapse)
  from aof_flush_ok [OF assms(1) _ this] assms(2) AFlush show ?thesis by simp
qed

lemma aof_steps_log:
  assumes "open_at path a" "\<forall>x \<in> set ops. op_ok x" "foldl aof_step (a, fs) ops = (a', fs')"
  shows "open_at path a' \<and> a_policy a' = a_policy a \<and>
    aof_log a' fs' = aof_log a fs @ concat (map aof_encode (appended ops))"
  using assms
proof (induction ops arbitrary: a fs)
  case Nil
  then show ?case by (simp add: appended_def)
next
  case (Cons x ops)
  obtain a1 fs1 where s: "aof_step (a, fs) x = (a1, fs1)" by fastforce
  have "op_ok x" using Cons.prems(2) by simp
  note st = aof_step_log [OF Cons.prems(1) this s]
  have "foldl aof_step (a1, fs1) ops = (a', fs')" using Cons.prems(3) s by simp
  from Cons.IH [OF conjunct1 [OF st] _ this] Cons.prems(2) st show ?case
    by (simp add: appended_def)
qed

lemma aof_open_steps:
  assumes "io_open io" "\<forall>x \<in> set ops. op_ok x"
    and "foldl aof_step (snd (aof_open io path policy aof_new fs)) ops = (a, fs')"
  shows "open_at path a \<and> a_policy a = policy \<and>
    aof_log a fs' = contents fs path @ concat (map aof_encode (appended ops))"
proof -
  obtain a0 fs0 where o: "snd (aof_open io path policy aof_new fs) = (a0, fs0)" by fastforce
  then have "open_at path a0 \<and> a_policy a0 = policy \<and> aof_log a0 fs0 = contents fs path"
    using assms(1) written_simps(1) [of path fs]
    by (auto simp: aof_open_def aof_close_def aof_new_def open_at_def aof_log_def case_prod_unfold Let_def)
  with aof_steps_log [of path a0 ops fs0 a fs'] assms(2,3) o show ?thesis by simp
qed

lemma replay_prefix:
  assumes ok: "\<forall>as \<in> set cs. wire_ok as" and c: "fs path = Some (take m (concat (map aof_encode cs)))"
  shows "\<exists>ds es torn. cs = ds @ es \<and> contents fs path = concat (map aof_encode ds) @ torn \<and>
     resp_frame torn = Wait \<and> aof_replay path app st fs =
     \<lparr>rp_error = None, rp_state = foldl app st ds, rp_applied = length ds, rp_truncated = length torn\<rparr>"
proof -
  obtain ds q es where s: "resp.split m cs = (ds, q, es)" by (metis prod_cases3)
  note sp = resp.split_correct [OF s ok, unfolded resp.stream_def, folded aof_encode_eq]
  have "aof_replay path app st fs =
     \<lparr>rp_error = None, rp_state = foldl app st ds, rp_applied = length ds, rp_truncated = length q\<rparr>"
    unfolding aof_replay_def c option.case conjunct1 [OF conjunct2 [OF sp]]
    by (rule replay_loop_stream) (use sp ok in auto)
  moreover have "contents fs path = concat (map aof_encode ds) @ q"
    unfolding contents_def c option.case by (rule conjunct1 [OF conjunct2 [OF sp]])
  ultimately show ?thesis using sp by blast
qed

lemma replay_contents:
  assumes ok: "\<forall>as \<in> set cs. wire_ok as" and c: "contents fs path = concat (map aof_encode cs)"
  shows "aof_replay path app st fs =
     \<lparr>rp_error = None, rp_state = foldl app st cs, rp_applied = length cs, rp_truncated = 0\<rparr>"
proof (cases "fs path")
  case None
  then have "concat (map aof_encode cs) = []" using c by (simp add: contents_def)
  then have "resp.stream cs = []" by (simp only: resp.stream_def aof_encode_eq)
  then have "resp_frame (resp.stream cs) = Wait" by (simp only: resp.frame_empty)
  then have "cs = []" by (rule rpl.stream_waits_empty [OF ok])
  with None show ?thesis by (simp add: aof_replay_def)
next
  case (Some d)
  then have "fs path = Some (concat (map aof_encode cs) @ [])" using c by (simp add: contents_def)
  then show ?thesis
    unfolding aof_replay_def by (simp only: option.case replay_loop_stream [OF ok resp.frame_empty] list.size)
qed

section \<open>Properties\<close>





text \<open>
  Opening a log whose last command is torn does not cut the tail off: the next command is
  appended behind the torn bytes, and the next replay stops there with an error.
\<close>
theorem aof_torn_tail_corrupts:
  "rp_error (aof_replay ''a'' (\<lambda>st as. st @ [as]) []
     (snd (foldl aof_step (snd (aof_open good_io ''a'' kAlways aof_new [''a'' \<mapsto> ''*3'' @ [CR, LF] @ ''$'']))
       [AAppend [''PING''], AFlush good_io 5]))) \<noteq> None"
proof -
  have c: "snd (foldl aof_step (snd (aof_open good_io ''a'' kAlways aof_new [''a'' \<mapsto> ''*3'' @ [CR, LF] @ ''$'']))
       [AAppend [''PING''], AFlush good_io 5]) ''a'' = Some (''*3'' @ [CR, LF] @ ''$'' @ aof_encode [''PING''])"
    by code_simp
  have "case resp_frame (''*3'' @ [CR, LF] @ ''$'' @ aof_encode [''PING'']) of Broken msg \<Rightarrow> True | _ \<Rightarrow> False"
    by code_simp
  then obtain msg where f: "resp_frame (''*3'' @ [CR, LF] @ ''$'' @ aof_encode [''PING'']) = Broken msg"
    by (auto split: framed.splits)
  show ?thesis unfolding aof_replay_def c option.case
    using f by (subst replay_loop.simps) auto
qed

end
