(* ===== verification/Commands.thy ===== *)
theory Commands
  imports Resp Store
begin

text \<open>
  The commands on the keyspace (\<open>src/commands.cpp\<close>, the functions \<open>cmd_*\<close> and their helpers).
  Each takes the store and the arguments and returns the reply and the new store; the
  commands that write also say whether they changed the keyspace and what has to be logged
  (\<open>CommandResult\<close>). The lemmas give what each does to the keyspace as a reader sees it, now
  and at every later time, and relate a write to the form in which it is logged.
\<close>

section \<open>Helpers\<close>

record command_result =
  cr_reply :: string
  cr_dirty :: bool
  cr_propagate :: args

definition clean :: "string \<Rightarrow> command_result" where
  "clean r = \<lparr>cr_reply = r, cr_dirty = False, cr_propagate = []\<rparr>"

definition wrote :: "string \<Rightarrow> args \<Rightarrow> command_result" where
  "wrote r p = \<lparr>cr_reply = r, cr_dirty = True, cr_propagate = p\<rparr>"

definition upper :: "string \<Rightarrow> string" where
  "upper s = map toupper s"

definition iequals :: "string \<Rightarrow> string \<Rightarrow> bool" where
  "iequals a b \<longleftrightarrow> length a = length b \<and> list_all (\<lambda>(x, y). toupper x = toupper y) (zip a b)"

fun to_int64_loop :: "int \<Rightarrow> string \<Rightarrow> int option" where
  "to_int64_loop v [] = Some v"
| "to_int64_loop v (c # cs) =
     (if \<not> isdigit c then None
      else
        (let d = int (code c) - 48
         in if v > (int64_max - d) div 10 then None else to_int64_loop (v * 10 + d) cs))"

definition to_int64 :: "string \<Rightarrow> int option" where
  "to_int64 s =
     (if s = [] \<or> length s > 20 then None
      else
        (let i = (if hd s = CHR ''-'' \<or> hd s = CHR ''+'' then 1 else 0)
         in if i = length s then None
            else map_option (\<lambda>v. if hd s = CHR ''-'' then - v else v) (to_int64_loop 0 (drop i s))))"

definition kNotInteger :: string where "kNotInteger = ''ERR value is not an integer or out of range''"
definition kSyntaxError :: string where "kSyntaxError = ''ERR syntax error''"
definition kInvalidExpire :: string where
  "kInvalidExpire = ''ERR invalid expire time in '' @ [CHR 0x27] @ ''set'' @ [CHR 0x27] @ '' command''"

section \<open>Commands\<close>

definition cmd_ping :: "args \<Rightarrow> string" where
  "cmd_ping a =
     (if length a = 1 then reply_simple ''PONG''
      else if length a = 2 then reply_bulk (a ! 1)
      else reply_wrong_arity ''ping'')"

definition cmd_echo :: "args \<Rightarrow> string" where
  "cmd_echo a = (if length a \<noteq> 2 then reply_wrong_arity ''echo'' else reply_bulk (a ! 1))"

record set_opts =
  so_expire_at :: int
  so_keepttl :: bool
  so_nx :: bool
  so_xx :: bool
  so_get :: bool

definition set_opts_new :: set_opts where
  "set_opts_new = \<lparr>so_expire_at = kNoExpiry, so_keepttl = False, so_nx = False, so_xx = False,
     so_get = False\<rparr>"

text \<open>The deadline an \<open>EX\<close>, \<open>PX\<close>, \<open>EXAT\<close> or \<open>PXAT\<close> option gives, or the error reply.\<close>

definition set_deadline :: "string \<Rightarrow> string \<Rightarrow> store \<Rightarrow> (string + int) \<times> store" where
  "set_deadline opt num s =
     (let relative = (opt = ''EX'' \<or> opt = ''PX'');
          seconds = (opt = ''EX'' \<or> opt = ''EXAT'')
      in case to_int64 num of
           None \<Rightarrow> (Inl (reply_error kNotInteger), s)
         | Some n \<Rightarrow>
             if seconds \<and> n > cdiv int64_max 1000 then (Inl (reply_error kInvalidExpire), s)
             else
               (let n1 = (if seconds then wrap64 (n * 1000) else n)
                in if relative \<and> n1 \<le> 0 then (Inl (reply_error kInvalidExpire), s)
                   else if relative
                   then (let (now, s1) = store_clock s in (Inr (wrap64 (now + n1)), s1))
                   else (Inr n1, s)))"

fun set_options :: "args \<Rightarrow> set_opts \<Rightarrow> store \<Rightarrow> (string + set_opts) \<times> store" where
  "set_options [] so s = (Inr so, s)"
| "set_options (x # rest) so s =
     (let opt = upper x;
          relative = (opt = ''EX'' \<or> opt = ''PX'');
          absolute = (opt = ''EXAT'' \<or> opt = ''PXAT'')
      in if relative \<or> absolute then
           (if so_expire_at so \<noteq> kNoExpiry \<or> so_keepttl so then (Inl (reply_error kSyntaxError), s)
            else
              (case rest of
                 [] \<Rightarrow> (Inl (reply_error kSyntaxError), s)
               | num # rest1 \<Rightarrow>
                   (case set_deadline opt num s of
                      (Inl e, s1) \<Rightarrow> (Inl e, s1)
                    | (Inr d, s1) \<Rightarrow> set_options rest1 (so\<lparr>so_expire_at := d\<rparr>) s1)))
         else if opt = ''KEEPTTL'' then
           (if so_expire_at so \<noteq> kNoExpiry then (Inl (reply_error kSyntaxError), s)
            else set_options rest (so\<lparr>so_keepttl := True\<rparr>) s)
         else if opt = ''NX'' then
           (if so_xx so then (Inl (reply_error kSyntaxError), s)
            else set_options rest (so\<lparr>so_nx := True\<rparr>) s)
         else if opt = ''XX'' then
           (if so_nx so then (Inl (reply_error kSyntaxError), s)
            else set_options rest (so\<lparr>so_xx := True\<rparr>) s)
         else if opt = ''GET'' then set_options rest (so\<lparr>so_get := True\<rparr>) s
         else (Inl (reply_error kSyntaxError), s))"

definition bulk_or_null :: "string option \<Rightarrow> string" where
  "bulk_or_null v = (case v of Some x \<Rightarrow> reply_bulk x | None \<Rightarrow> reply_null_bulk)"

text \<open>The canonical form of a write with a deadline.\<close>

definition set_propagate :: "string \<Rightarrow> string \<Rightarrow> int \<Rightarrow> args" where
  "set_propagate key v expire_at =
     [''SET'', key, v] @ (if expire_at \<noteq> kNoExpiry then [''PXAT'', to_string expire_at] else [])"

definition cmd_set :: "store \<Rightarrow> args \<Rightarrow> command_result \<times> store" where
  "cmd_set s a =
     (if length a < 3 then (clean (reply_wrong_arity ''set''), s)
      else
        (case set_options (drop 3 a) set_opts_new s of
           (Inl e, s1) \<Rightarrow> (clean e, s1)
         | (Inr so, s1) \<Rightarrow>
             (let (previous, s2) = store_get s1 (a ! 1)
              in if (so_nx so \<and> previous \<noteq> None) \<or> (so_xx so \<and> previous = None)
                 then (clean (if so_get so then bulk_or_null previous else reply_null_bulk), s2)
                 else
                   (let (expire_at, s3) =
                          (if so_keepttl so
                           then
                             (let (remaining, s3) = store_pttl s2 (a ! 1)
                              in if remaining \<ge> 0
                                 then (let (now, s4) = store_clock s3 in (wrap64 (now + remaining), s4))
                                 else (kNoExpiry, s3))
                           else (so_expire_at so, s2));
                        s4 = store_set s3 (a ! 1) (a ! 2) expire_at
                    in (wrote (if so_get so then bulk_or_null previous else reply_ok)
                          (set_propagate (a ! 1) (a ! 2) expire_at), s4)))))"

definition cmd_get :: "store \<Rightarrow> args \<Rightarrow> string \<times> store" where
  "cmd_get s a =
     (if length a \<noteq> 2 then (reply_wrong_arity ''get'', s)
      else (let (v, s1) = store_get s (a ! 1) in (bulk_or_null v, s1)))"

primrec del_loop :: "args \<Rightarrow> int \<Rightarrow> store \<Rightarrow> int \<times> store" where
  "del_loop [] removed s = (removed, s)"
| "del_loop (k # ks) removed s =
     (let (erased, s1) = store_erase s k in del_loop ks (if erased then removed + 1 else removed) s1)"

definition cmd_del :: "store \<Rightarrow> args \<Rightarrow> command_result \<times> store" where
  "cmd_del s a =
     (if length a < 2 then (clean (reply_wrong_arity ''del''), s)
      else
        (let (removed, s1) = del_loop (drop 1 a) 0 s
         in (if removed > 0 then wrote (reply_integer removed) a else clean (reply_integer removed), s1)))"

primrec exists_loop :: "args \<Rightarrow> int \<Rightarrow> store \<Rightarrow> int \<times> store" where
  "exists_loop [] found s = (found, s)"
| "exists_loop (k # ks) found s =
     (let (present, s1) = store_contains s k in exists_loop ks (if present then found + 1 else found) s1)"

definition cmd_exists :: "store \<Rightarrow> args \<Rightarrow> string \<times> store" where
  "cmd_exists s a =
     (if length a < 2 then (reply_wrong_arity ''exists'', s)
      else (let (found, s1) = exists_loop (drop 1 a) 0 s in (reply_integer found, s1)))"

definition cmd_type :: "store \<Rightarrow> args \<Rightarrow> string \<times> store" where
  "cmd_type s a =
     (if length a \<noteq> 2 then (reply_wrong_arity ''type'', s)
      else
        (let (present, s1) = store_contains s (a ! 1)
         in (if present then reply_simple ''string'' else reply_simple ''none'', s1)))"

definition cmd_keys :: "store \<Rightarrow> args \<Rightarrow> string \<times> store" where
  "cmd_keys s a =
     (if length a \<noteq> 2 then (reply_wrong_arity ''keys'', s)
      else
        (let (found, s1) = store_keys s (a ! 1)
         in (foldl (\<lambda>out k. out @ reply_bulk k) (reply_array_header (length found)) found, s1)))"

definition cmd_expire :: "store \<Rightarrow> args \<Rightarrow> bool \<Rightarrow> bool \<Rightarrow> string \<Rightarrow> command_result \<times> store" where
  "cmd_expire s a seconds absolute name =
     (if length a \<noteq> 3 then (clean (reply_wrong_arity name), s)
      else
        (case to_int64 (a ! 2) of
           None \<Rightarrow> (clean (reply_error kNotInteger), s)
         | Some n \<Rightarrow>
             if seconds \<and> (n > cdiv int64_max 1000 \<or> n < cdiv int64_min 1000)
             then (clean (reply_error kInvalidExpire), s)
             else
               (let n1 = (if seconds then n * 1000 else n);
                    (deadline, s1) =
                      (if absolute then (n1, s)
                       else (let (now, s1) = store_clock s in (wrap64 (now + n1), s1)));
                    (applied, s2) = store_expire_at s1 (a ! 1) deadline
                in (if applied
                    then wrote (reply_integer 1) [''PEXPIREAT'', a ! 1, to_string deadline]
                    else clean (reply_integer 0), s2))))"

definition cmd_ttl :: "store \<Rightarrow> args \<Rightarrow> bool \<Rightarrow> string \<Rightarrow> string \<times> store" where
  "cmd_ttl s a seconds name =
     (if length a \<noteq> 2 then (reply_wrong_arity name, s)
      else
        (let (ms, s1) = store_pttl s (a ! 1)
         in if ms < 0 then (reply_integer ms, s1)
            else (reply_integer (if seconds then cdiv (wrap64 (ms + 999)) 1000 else ms), s1)))"

definition cmd_persist :: "store \<Rightarrow> args \<Rightarrow> command_result \<times> store" where
  "cmd_persist s a =
     (if length a \<noteq> 2 then (clean (reply_wrong_arity ''persist''), s)
      else
        (let (applied, s1) = store_persist s (a ! 1)
         in (if applied then wrote (reply_integer 1) a else clean (reply_integer 0), s1)))"

definition config_params :: "(string \<times> string) list" where
  "config_params = [(''save'', ''''), (''appendonly'', ''no''), (''maxmemory'', ''0'')]"

definition cmd_config :: "args \<Rightarrow> string" where
  "cmd_config a =
     (if length a \<ge> 2 \<and> iequals (a ! 1) ''GET'' then
        (if length a \<noteq> 3 then reply_wrong_arity ''config|get''
         else
           (let found = filter (\<lambda>(name, v). glob_match (a ! 2) name) config_params
            in reply_array_header (2 * length found) @
               concat (map (\<lambda>(name, v). reply_bulk name @ reply_bulk v) found)))
      else if length a \<ge> 2 \<and> iequals (a ! 1) ''SET'' then reply_ok
      else reply_error ''ERR Unknown CONFIG subcommand'')"

definition cmd_dbsize :: "store \<Rightarrow> args \<Rightarrow> string \<times> store" where
  "cmd_dbsize s a =
     (if length a \<noteq> 1 then (reply_wrong_arity ''dbsize'', s)
      else (let (n, s1) = store_size s in (reply_integer n, s1)))"

definition cmd_flushall :: "store \<Rightarrow> args \<Rightarrow> command_result \<times> store" where
  "cmd_flushall s a = (wrote reply_ok a, store_clear s)"

text \<open>The part of \<open>dispatch\<close> that calls a command on the keyspace, by its upper-cased name.\<close>

definition as_clean :: "string \<times> store \<Rightarrow> command_result \<times> store" where
  "as_clean r = (clean (fst r), snd r)"

definition store_command :: "string \<Rightarrow> args \<Rightarrow> store \<Rightarrow> (command_result \<times> store) option" where
  "store_command name a s =
     (if name = ''PING'' then Some (clean (cmd_ping a), s)
      else if name = ''ECHO'' then Some (clean (cmd_echo a), s)
      else if name = ''SET'' then Some (cmd_set s a)
      else if name = ''GET'' then Some (as_clean (cmd_get s a))
      else if name = ''DEL'' \<or> name = ''UNLINK'' then Some (cmd_del s a)
      else if name = ''EXISTS'' then Some (as_clean (cmd_exists s a))
      else if name = ''TYPE'' then Some (as_clean (cmd_type s a))
      else if name = ''KEYS'' then Some (as_clean (cmd_keys s a))
      else if name = ''EXPIRE'' then Some (cmd_expire s a True False ''expire'')
      else if name = ''PEXPIRE'' then Some (cmd_expire s a False False ''pexpire'')
      else if name = ''EXPIREAT'' then Some (cmd_expire s a True True ''expireat'')
      else if name = ''PEXPIREAT'' then Some (cmd_expire s a False True ''pexpireat'')
      else if name = ''TTL'' then Some (as_clean (cmd_ttl s a True ''ttl''))
      else if name = ''PTTL'' then Some (as_clean (cmd_ttl s a False ''pttl''))
      else if name = ''PERSIST'' then Some (cmd_persist s a)
      else if name = ''CONFIG'' then Some (clean (cmd_config a), s)
      else if name = ''DBSIZE'' then Some (as_clean (cmd_dbsize s a))
      else if name = ''FLUSHALL'' \<or> name = ''FLUSHDB'' then Some (cmd_flushall s a)
      else None)"

section \<open>Numbers\<close>

lemma to_int64_loop_eq: "to_int64_loop v cs = parse_int_loop v cs"
  by (induction v cs rule: to_int64_loop.induct) (auto simp: Let_def)

lemma to_int64_eq: "to_int64 s = (if length s > 20 then None else parse_int s)"
proof (cases s)
  case (Cons c cs)
  then show ?thesis
    by (cases "c = CHR ''-'' \<or> c = CHR ''+''")
       (auto simp: to_int64_def parse_int_def to_int64_loop_eq Let_def option.map_ident)
qed (simp add: to_int64_def parse_int_def)

lemma to_int64_range: "to_int64 s = Some n \<Longrightarrow> - int64_max \<le> n \<and> n \<le> int64_max"
  by (auto simp: to_int64_eq dest: parse_int_range split: if_splits)

lemma to_string_length:
  assumes "- int64_max \<le> v" "v \<le> int64_max"
  shows "length (to_string v) \<le> 20"
proof -
  have "nat \<bar>v\<bar> < 10 ^ 19" using assms by (simp add: int64_max_def abs_if nat_less_iff)
  then have "length (to_string_nat (nat \<bar>v\<bar>)) \<le> 19" by (rule to_string_nat_bound) simp
  then show ?thesis by (cases "v < 0") (simp_all add: to_string_def)
qed

lemma to_int64_to_string:
  assumes "- int64_max \<le> v" "v \<le> int64_max"
  shows "to_int64 (to_string v) = Some v"
  using assms to_string_length [OF assms] by (simp add: to_int64_eq parse_int_to_string)

section \<open>SET\<close>

text \<open>On a still clock the options leave the store alone and their meaning depends on the time only.\<close>

lemma set_deadline_frozen: "\<exists>r. \<forall>s. frozen t s \<longrightarrow> set_deadline opt num s = (r, s)"
  by (cases "to_int64 num") (auto simp: set_deadline_def Let_def frozen_clock)

lemma set_options_frozen: "\<exists>r. \<forall>s. frozen t s \<longrightarrow> set_options as so s = (r, s)"
proof (induction as arbitrary: so rule: length_induct)
  case (1 as)
  show ?case
  proof (cases as)
    case (Cons x rest)
    have rest: "\<exists>r. \<forall>s. frozen t s \<longrightarrow> set_options rest so' s = (r, s)" for so'
      using 1 Cons by simp
    show ?thesis
    proof (cases "upper x \<in> {''EX'', ''PX'', ''EXAT'', ''PXAT''}")
      case True
      show ?thesis
      proof (cases rest)
        case Nil
        with Cons True show ?thesis by (auto simp: Let_def)
      next
        case (Cons num rest1)
        obtain d where d: "\<forall>s. frozen t s \<longrightarrow> set_deadline (upper x) num s = (d, s)"
          using set_deadline_frozen by blast
        obtain r where "\<forall>s. frozen t s \<longrightarrow>
            set_options rest1 (so\<lparr>so_expire_at := projr d\<rparr>) s = (r, s)"
          using 1 \<open>as = x # rest\<close> Cons by fastforce
        with d Cons \<open>as = x # rest\<close> True show ?thesis by (cases d) (auto simp: Let_def)
      qed
    next
      case False
      let ?c = "if upper x = ''KEEPTTL'' then (if so_expire_at so \<noteq> kNoExpiry then None else Some (so\<lparr>so_keepttl := True\<rparr>))
        else if upper x = ''NX'' then (if so_xx so then None else Some (so\<lparr>so_nx := True\<rparr>))
        else if upper x = ''XX'' then (if so_nx so then None else Some (so\<lparr>so_xx := True\<rparr>))
        else if upper x = ''GET'' then Some (so\<lparr>so_get := True\<rparr>) else None"
      have "set_options (x # rest) so s = (case ?c of None \<Rightarrow> (Inl (reply_error kSyntaxError), s)
          | Some so' \<Rightarrow> set_options rest so' s)" for s
        using False by (simp add: Let_def)
      with rest Cons show ?thesis by (cases ?c) (simp_all del: set_options.simps)
    qed
  qed simp
qed

definition set_opts_at :: "int \<Rightarrow> args \<Rightarrow> string + set_opts" where
  "set_opts_at t as = fst (set_options as set_opts_new (sample_store 1 t))"

lemma set_options_at:
  assumes "frozen t s"
  shows "set_options as set_opts_new s = (set_opts_at t as, s)"
proof -
  obtain r where "\<forall>s. frozen t s \<longrightarrow> set_options as set_opts_new s = (r, s)"
    using set_options_frozen by blast
  with assms show ?thesis by (simp add: set_opts_at_def)
qed

lemma set_deadline_range: "set_deadline opt num s = (Inr d, s') \<Longrightarrow> in_int64 d"
  using to_int64_range [of num] wrap64_range
  by (auto simp: set_deadline_def Let_def case_prod_unfold in_int64_def int64_max_def int64_min_def
      split: option.splits if_splits)

lemma set_options_range:
  "set_options as so s = (Inr so', s') \<Longrightarrow> in_int64 (so_expire_at so) \<Longrightarrow> in_int64 (so_expire_at so')"
proof (induction as arbitrary: so s rule: measure_induct_rule [of length])
  case (less as)
  show ?case
  proof (cases as)
    case (Cons x rest)
    show ?thesis
    proof (cases "upper x \<in> {''EX'', ''PX'', ''EXAT'', ''PXAT''}")
      case True
      then obtain num rest1 d s1 where d: "rest = num # rest1" "set_deadline (upper x) num s = (Inr d, s1)"
        "set_options rest1 (so\<lparr>so_expire_at := d\<rparr>) s1 = (Inr so', s')"
        using less.prems(1) Cons by (auto simp: Let_def split: list.splits sum.splits prod.splits if_splits)
      show ?thesis
        by (rule less.IH [OF _ d(3)]) (use Cons d set_deadline_range [OF d(2)] in auto)
    next
      case False
      then obtain so1 where so1: "set_options rest so1 s = (Inr so', s')" "so_expire_at so1 = so_expire_at so"
        using less.prems(1) Cons by (auto simp: Let_def split: if_splits)
      show ?thesis by (rule less.IH [OF _ so1(1)]) (use Cons so1 less.prems(2) in auto)
    qed
  qed (use less.prems in simp)
qed

lemma set_opts_at_range: "set_opts_at t as = Inr so \<Longrightarrow> in_int64 (so_expire_at so)"
  using set_options_range [of as set_opts_new "sample_store 1 t" so]
  by (cases "set_options as set_opts_new (sample_store 1 t)")
     (simp add: set_opts_at_def set_opts_new_def kNoExpiry_def int64_defs)

lemma wrap64_readd: "wrap64 (t + wrap64 (d - t)) = wrap64 d"
proof -
  have "(t + ((d - t + a) mod m - a) + a) mod m = (d + a) mod m" for a m :: int
    by (simp add: mod_simps)
  then show ?thesis unfolding wrap64_def by simp
qed

text \<open>The deadline a write stores: with \<open>KEEPTTL\<close>, what \<open>pttl\<close> and the clock give back.\<close>

definition set_expire_at :: "int \<Rightarrow> keyspace \<Rightarrow> set_opts \<Rightarrow> string \<Rightarrow> int" where
  "set_expire_at t m so k =
     (if so_keepttl so
      then (case m k of Some (_, Some d) \<Rightarrow> if wrap64 (d - t) \<ge> 0 then wrap64 d else kNoExpiry | _ \<Rightarrow> kNoExpiry)
      else so_expire_at so)"

lemma set_expire_at_keepttl:
  assumes "so_keepttl so" "m k = Some (v, Some d)" "0 \<le> t" "t < d" "in_int64 d"
  shows "set_expire_at t m so k = d"
  using assms by (simp add: set_expire_at_def wrap64_id int64_defs)

definition set_refused :: "set_opts \<Rightarrow> string option \<Rightarrow> bool" where
  "set_refused so previous \<longleftrightarrow> (so_nx so \<and> previous \<noteq> None) \<or> (so_xx so \<and> previous = None)"

lemma cmd_set_error:
  assumes "frozen t s"
  shows "length a < 3 \<Longrightarrow> cmd_set s a = (clean (reply_wrong_arity ''set''), s)"
    and "3 \<le> length a \<Longrightarrow> set_opts_at t (drop 3 a) = Inl e \<Longrightarrow> cmd_set s a = (clean e, s)"
  using set_options_at [OF assms] by (simp_all add: cmd_set_def)

lemma cmd_set_frozen:
  assumes f: "frozen t s" and i: "store_inv s" and n: "3 \<le> length a"
    and so: "set_opts_at t (drop 3 a) = Inr so"
  defines "k \<equiv> a ! 1"
  defines "previous \<equiv> map_option fst (view t s k)"
  defines "e \<equiv> set_expire_at t (view t s) so k"
  shows "fst (cmd_set s a) =
      (if set_refused so previous then clean (if so_get so then bulk_or_null previous else reply_null_bulk)
       else wrote (if so_get so then bulk_or_null previous else reply_ok) (set_propagate k (a ! 2) e))"
    and "t \<le> u \<Longrightarrow> view u (snd (cmd_set s a)) =
      (if set_refused so previous then view u s else (view u s)(k := visible u (a ! 2) e))"
    and "frozen t (snd (cmd_set s a))" and "store_inv (snd (cmd_set s a))"
proof -
  let ?g = "store_get s k"
  let ?p = "store_pttl (snd ?g) k"
  note g = store_get_frozen [OF f i, where k = k]
  have gi: "store_inv (snd ?g)" using i by simp
  note p = store_pttl_frozen [OF g(3) gi, where k = k]
  have vt: "view t (snd ?g) = view t s" using g(2) by simp
  have e: "e = (if so_keepttl so then (if fst ?p \<ge> 0 then wrap64 (t + fst ?p) else kNoExpiry) else so_expire_at so)"
    by (auto simp: e_def set_expire_at_def p(1) vt wrap64_readd split: option.splits)
  have eq: "cmd_set s a = (if set_refused so previous
      then (clean (if so_get so then bulk_or_null previous else reply_null_bulk), snd ?g)
      else (wrote (if so_get so then bulk_or_null previous else reply_ok) (set_propagate k (a ! 2) e),
            store_set (if so_keepttl so then snd ?p else snd ?g) k (a ! 2) e))"
    unfolding cmd_set_def k_def [symmetric] set_options_at [OF f] so e set_refused_def
    using n frozen_clock [OF p(3)] g(1) [folded previous_def]
    by (cases previous) (simp_all add: case_prod_unfold Let_def)
  show "fst (cmd_set s a) =
      (if set_refused so previous then clean (if so_get so then bulk_or_null previous else reply_null_bulk)
       else wrote (if so_get so then bulk_or_null previous else reply_ok) (set_propagate k (a ! 2) e))"
    by (simp add: eq)
  show "view u (snd (cmd_set s a)) =
      (if set_refused so previous then view u s else (view u s)(k := visible u (a ! 2) e))" if "t \<le> u"
    using g(2) p(2) gi that by (simp add: eq)
  show "frozen t (snd (cmd_set s a))" using g(3) p(3) by (simp add: eq)
  show "store_inv (snd (cmd_set s a))" using gi by (simp add: eq)
qed

section \<open>The other commands\<close>

lemma del_loop_eq: "del_loop ks r s = (r + int (fst (ks.erase_each s ks)), snd (ks.erase_each s ks))"
  by (induction ks arbitrary: r s) (auto simp: case_prod_unfold Let_def)

lemma del_loop_frozen:
  assumes "frozen t s" "store_inv s"
  shows "fst (del_loop ks 0 s) = int (card (set ks \<inter> dom (view t s)))"
    and "t \<le> u \<Longrightarrow> view u (snd (del_loop ks 0 s)) = view u s |` (- set ks)"
    and "frozen t (snd (del_loop ks 0 s))" and "store_inv (snd (del_loop ks 0 s))"
proof -
  have s: "still s" "store_now s = t" using stillI [OF assms] by auto
  show "fst (del_loop ks 0 s) = int (card (set ks \<inter> dom (view t s)))"
    using ks.erase_each_count [OF s(1), of ks] s(2) by (simp add: del_loop_eq)
  show "view u (snd (del_loop ks 0 s)) = view u s |` (- set ks)" if "t \<le> u"
    using ks.erase_each_view [OF s(1), of u ks] s(2) that by (simp add: del_loop_eq)
  show "frozen t (snd (del_loop ks 0 s))" and "store_inv (snd (del_loop ks 0 s))"
    using ks.erase_each_invar [OF s(1), of ks] s(2) by (auto simp: del_loop_eq still_def)
qed

lemma exists_loop_frozen:
  assumes "frozen t s" "store_inv s"
  shows "fst (exists_loop ks r s) = r + int (length (filter (\<lambda>k. k \<in> dom (view t s)) ks)) \<and>
    (\<forall>u \<ge> t. view u (snd (exists_loop ks r s)) = view u s) \<and>
    frozen t (snd (exists_loop ks r s)) \<and> store_inv (snd (exists_loop ks r s))"
  using assms
proof (induction ks arbitrary: r s)
  case (Cons k ks)
  let ?s = "snd (store_contains s k)"
  have s: "frozen t ?s" "store_inv ?s" "\<forall>u \<ge> t. view u ?s = view u s" "fst (store_contains s k) = (k \<in> dom (view t s))"
    using Cons.prems store_get_frozen(3) [OF Cons.prems] store_contains_frozen [OF Cons.prems]
    by (auto simp: store_contains_def case_prod_unfold Let_def)
  show ?case using Cons.IH [OF s(1,2)] s(3,4) by (simp add: case_prod_unfold Let_def)
qed simp

text \<open>
  What a command does: it keeps the store well formed, and if it reports that it changed nothing
  then it changed nothing a reader could see, now or later.
\<close>

definition tidy :: "int \<Rightarrow> store \<Rightarrow> command_result \<times> store \<Rightarrow> bool" where
  "tidy t s res \<longleftrightarrow> store_inv (snd res) \<and> frozen t (snd res) \<and>
     (\<not> cr_dirty (fst res) \<longrightarrow> (\<forall>u \<ge> t. view u (snd res) = view u s))"

lemma result_simps [simp]:
  "cr_dirty (clean r) = False" "cr_dirty (wrote r p) = True" "cr_propagate (wrote r p) = p"
  "cr_reply (clean r) = r" "cr_reply (wrote r p) = r" "cr_propagate (clean r) = []"
  by (simp_all add: clean_def wrote_def)

lemma as_clean_simps [simp]: "cr_dirty (fst (as_clean r)) = False" "snd (as_clean r) = snd r"
  "cr_reply (fst (as_clean r)) = fst r"
  by (simp_all add: as_clean_def)

lemma tidy_clean:
  assumes f: "frozen t s" and i: "store_inv s"
  shows "tidy t s (clean r, s)"
  using f i by (simp add: tidy_def)

lemma tidy_set:
  assumes f: "frozen t s" and i: "store_inv s"
  shows "tidy t s (cmd_set s a)"
proof (cases "length a < 3")
  case True
  then show ?thesis by (simp add: cmd_set_error(1) [OF f] tidy_clean [OF f i])
next
  case False
  then show ?thesis
    using cmd_set_error(2) [OF f, of a] cmd_set_frozen [OF f i, of a] tidy_clean [OF f i]
    by (cases "set_opts_at t (drop 3 a)") (simp_all add: tidy_def)
qed

lemma tidy_get:
  assumes f: "frozen t s" and i: "store_inv s"
  shows "tidy t s (as_clean (cmd_get s a))"
  using f i store_get_frozen(2,3) [OF f i]
  by (simp add: tidy_def cmd_get_def case_prod_unfold Let_def)

lemma tidy_del:
  assumes f: "frozen t s" and i: "store_inv s"
  shows "tidy t s (cmd_del s a)"
proof -
  let ?n = "card (set (drop 1 a) \<inter> dom (view t s))"
  have "view u s |` (- set (drop 1 a)) = view u s" if "?n = 0" "t \<le> u" for u
  proof -
    have "set (drop 1 a) \<inter> dom (view t s) = {}" using that(1) by simp
    then have "view u s k = None" if "k \<in> set (drop 1 a)" for k
      using that view_mono [OF \<open>t \<le> u\<close>, of s k] by (auto split: option.splits)
    then show ?thesis by (auto simp: restrict_map_def fun_eq_iff)
  qed
  then show ?thesis
    using f i del_loop_frozen [OF f i, where ks = "drop 1 a"]
    by (simp add: tidy_def cmd_del_def case_prod_unfold Let_def)
qed

lemma tidy_exists:
  assumes f: "frozen t s" and i: "store_inv s"
  shows "tidy t s (as_clean (cmd_exists s a))"
  using f i exists_loop_frozen [OF f i, where ks = "drop 1 a" and r = 0]
  by (simp add: tidy_def cmd_exists_def case_prod_unfold Let_def)

lemma tidy_type:
  assumes f: "frozen t s" and i: "store_inv s"
  shows "tidy t s (as_clean (cmd_type s a))"
  using f i store_get_frozen(2,3) [OF f i]
  by (simp add: tidy_def cmd_type_def store_contains_def case_prod_unfold Let_def)

lemma tidy_ttl:
  assumes f: "frozen t s" and i: "store_inv s"
  shows "tidy t s (as_clean (cmd_ttl s a seconds name))"
  using f i store_pttl_frozen(2,3) [OF f i]
  by (simp add: tidy_def cmd_ttl_def case_prod_unfold Let_def)

lemma tidy_dbsize:
  assumes f: "frozen t s" and i: "store_inv s"
  shows "tidy t s (as_clean (cmd_dbsize s a))"
  using f i by (simp add: tidy_def cmd_dbsize_def case_prod_unfold Let_def store_size_def frozen_simps)

lemma tidy_persist:
  assumes f: "frozen t s" and i: "store_inv s"
  shows "tidy t s (cmd_persist s a)"
proof -
  let ?k = "a ! 1"
  note p = store_persist_frozen [OF f i, where k = ?k]
  have "view u (snd (store_persist s ?k)) = view u s" if "\<not> fst (store_persist s ?k)" "t \<le> u" for u
    unfolding p(2) [OF that(2)]
  proof (rule fun_upd_idem)
    show "view u s ?k = map_option (\<lambda>(v, _). (v, None)) (view t s ?k)"
      using that(1) view_mono [OF that(2), of s ?k] unfolding p(1) by (auto split: option.splits)
  qed
  then show ?thesis using f i p(3) by (simp add: tidy_def cmd_persist_def case_prod_unfold Let_def)
qed

lemma tidy_flushall:
  assumes f: "frozen t s" and i: "store_inv s"
  shows "tidy t s (cmd_flushall s a)"
  using f i by (simp add: tidy_def cmd_flushall_def)

lemma frozen_reap_keys: "frozen t (foldl (\<lambda>st key. count_lazy (store_remove st key)) s dead) = frozen t s"
  by (induction dead arbitrary: s) simp_all

lemma tidy_keys:
  assumes f: "frozen t s" and i: "store_inv s"
  shows "tidy t s (as_clean (cmd_keys s a))"
proof -
  have "frozen t (snd (store_keys s pattern))" for pattern
    using f by (simp add: store_keys_def keys_loop_frozen [OF f] frozen_reap_keys)
  then show ?thesis
    using f i store_keys_frozen(3) [OF f i]
    by (simp add: tidy_def cmd_keys_def case_prod_unfold Let_def)
qed

text \<open>The deadline the \<open>EXPIRE\<close> family computes, \<open>None\<close> when the command is refused.\<close>

definition expire_deadline :: "int \<Rightarrow> args \<Rightarrow> bool \<Rightarrow> bool \<Rightarrow> int option" where
  "expire_deadline t a seconds absolute =
     (if length a \<noteq> 3 then None
      else Option.bind (to_int64 (a ! 2)) (\<lambda>n.
        if seconds \<and> (n > cdiv int64_max 1000 \<or> n < cdiv int64_min 1000) then None
        else Some (let n1 = (if seconds then n * 1000 else n) in if absolute then n1 else wrap64 (t + n1))))"

lemma expire_deadline_range: "expire_deadline t a seconds absolute = Some d \<Longrightarrow> in_int64 d"
  using to_int64_range [of "a ! 2"] wrap64_range
  by (auto simp: expire_deadline_def Let_def cdiv_def int64_max_def int64_min_def in_int64_def
      split: if_splits Option.bind_splits)

lemma cmd_expire_refused:
  assumes "frozen t s" "expire_deadline t a seconds absolute = None"
  shows "\<exists>r. cmd_expire s a seconds absolute name = (clean r, s)"
  using assms by (auto simp: cmd_expire_def expire_deadline_def split: option.split Option.bind_splits if_splits)

lemma cmd_expire_eq:
  assumes "frozen t s" "expire_deadline t a seconds absolute = Some d"
  shows "cmd_expire s a seconds absolute name =
     ((if fst (store_expire_at s (a ! 1) d) then wrote (reply_integer 1) [''PEXPIREAT'', a ! 1, to_string d]
       else clean (reply_integer 0)), snd (store_expire_at s (a ! 1) d))"
  using assms
  by (auto simp: cmd_expire_def expire_deadline_def frozen_clock case_prod_unfold Let_def
      split: Option.bind_splits if_splits)

lemma tidy_expire:
  assumes f: "frozen t s" and i: "store_inv s"
  shows "tidy t s (cmd_expire s a seconds absolute name)"
proof (cases "expire_deadline t a seconds absolute")
  case None
  with cmd_expire_refused [OF f None, of name] show ?thesis by (auto simp: tidy_clean [OF f i])
next
  case (Some d)
  let ?k = "a ! 1"
  note e = store_expire_at_frozen [OF f i, where k = ?k and d = d]
  have "view u (snd (store_expire_at s ?k d)) = view u s" if "\<not> fst (store_expire_at s ?k d)" "t \<le> u" for u
  proof -
    have "view t s ?k = None" using that(1) unfolding e(1) by blast
    then show ?thesis
      unfolding e(2) [OF that(2)] using view_mono [OF that(2), of s ?k] by (simp add: fun_upd_idem)
  qed
  then show ?thesis using i e(3) by (simp add: tidy_def cmd_expire_eq [OF f Some])
qed

lemmas tidy_intros = tidy_clean tidy_set tidy_get tidy_del tidy_exists tidy_type tidy_keys tidy_expire
  tidy_ttl tidy_persist tidy_dbsize tidy_flushall

text \<open>One step down a chain of \<open>if\<close>s.\<close>

lemma if_some_elim:
  "(if c then Some x else y) = Some z \<Longrightarrow> (c \<Longrightarrow> z = x \<Longrightarrow> P) \<Longrightarrow> (\<not> c \<Longrightarrow> y = Some z \<Longrightarrow> P) \<Longrightarrow> P"
  by (auto split: if_splits)

lemma store_command_tidy:
  assumes "frozen t s" "store_inv s" "store_command name a s = Some res"
  shows "tidy t s res"
  using assms(3) unfolding store_command_def
  by (elim if_some_elim) (simp_all only: tidy_intros [OF assms(1,2)] option.distinct)

section \<open>The logged form of a write\<close>

text \<open>What applying a logged command does to the store.\<close>

definition apply_command :: "args \<Rightarrow> store \<Rightarrow> store" where
  "apply_command a s = (case store_command (upper (hd a)) a s of Some res \<Rightarrow> snd res | None \<Rightarrow> s)"

text \<open>
  Two conditions under which a logged write has, when it is applied at a later time \<open>T\<close>, the
  effect the original had. The deadline is not the one number \<open>std::to_string\<close> prints and
  \<open>to_int64\<close> refuses to read; and the write does not keep alive a key whose old deadline has
  passed by \<open>T\<close>.
\<close>

definition log_ok :: "args \<Rightarrow> bool" where
  "log_ok p \<longleftrightarrow> (hd p = ''SET'' \<longrightarrow> length p = 5 \<longrightarrow> p ! 4 \<noteq> to_string int64_min) \<and>
     (hd p = ''PEXPIREAT'' \<longrightarrow> p ! 2 \<noteq> to_string int64_min)"

definition no_revival :: "int \<Rightarrow> store \<Rightarrow> store \<Rightarrow> args \<Rightarrow> bool" where
  "no_revival T s s' p \<longleftrightarrow> (upper (hd p) = ''PEXPIREAT'' \<or> upper (hd p) = ''PERSIST'') \<longrightarrow>
     view T s' (p ! 1) \<noteq> None \<longrightarrow> view T s (p ! 1) \<noteq> None"

lemma upper_literals [simp]:
  "upper ''SET'' = ''SET''" "upper ''PXAT'' = ''PXAT''" "upper ''PEXPIREAT'' = ''PEXPIREAT''"
  by code_simp+

lemma in_int64_not_min: "in_int64 e \<Longrightarrow> e \<noteq> int64_min \<Longrightarrow> - int64_max \<le> e \<and> e \<le> int64_max"
  by (simp add: int64_defs)

lemma set_opts_at_Nil: "set_opts_at t [] = Inr set_opts_new"
  by (simp add: set_opts_at_def)

lemma set_opts_at_pxat:
  assumes "- int64_max \<le> e" "e \<le> int64_max"
  shows "set_opts_at t [''PXAT'', to_string e] = Inr (set_opts_new\<lparr>so_expire_at := e\<rparr>)"
  using to_int64_to_string [OF assms]
  by (simp add: set_opts_at_def set_deadline_def set_opts_new_def)

lemma set_logged:
  assumes q: "frozen T q" "store_inv q" and e: "in_int64 e" and ok: "log_ok (set_propagate k v e)" and u: "T \<le> u"
  shows "view u (apply_command (set_propagate k v e) q) = (view u q)(k := visible u v e)"
proof -
  let ?p = "set_propagate k v e"
  have so: "set_opts_at T (drop 3 ?p) = Inr (set_opts_new\<lparr>so_expire_at := e\<rparr>)"
  proof (cases "e = kNoExpiry")
    case True
    then show ?thesis by (simp add: set_propagate_def set_opts_at_Nil set_opts_new_def)
  next
    case False
    then have "e \<noteq> int64_min" using ok by (auto simp: log_ok_def set_propagate_def)
    with False set_opts_at_pxat [of e T] in_int64_not_min [OF e] show ?thesis by (simp add: set_propagate_def)
  qed
  have "apply_command ?p q = snd (cmd_set q ?p)"
    by (simp add: apply_command_def store_command_def set_propagate_def)
  moreover have "view u (snd (cmd_set q ?p)) = (view u q)(?p ! 1 := visible u (?p ! 2) e)"
    using cmd_set_frozen(2) [OF q _ so u]
    by (simp add: set_propagate_def set_refused_def set_expire_at_def set_opts_new_def)
  ultimately show ?thesis by (simp add: set_propagate_def)
qed

text \<open>\<open>q\<close> is a store that, from time \<open>T\<close> on, shows what \<open>s\<close> shows.\<close>

definition carries :: "int \<Rightarrow> store \<Rightarrow> store \<Rightarrow> command_result \<times> store \<Rightarrow> bool" where
  "carries T s q res \<longleftrightarrow>
     (cr_dirty (fst res) \<longrightarrow> log_ok (cr_propagate (fst res)) \<longrightarrow>
      no_revival T s (snd res) (cr_propagate (fst res)) \<longrightarrow>
      (\<forall>u \<ge> T. view u (apply_command (cr_propagate (fst res)) q) = view u (snd res)))"

lemma carries_clean: "carries T s q (clean r, s')" "carries T s q (as_clean x)"
  by (simp_all add: carries_def)

lemma set_expire_at_range:
  assumes "set_opts_at t as = Inr so"
  shows "in_int64 (set_expire_at t m so k)"
  using set_opts_at_range [OF assms] wrap64_range
  by (auto simp: set_expire_at_def kNoExpiry_def int64_defs split: option.split)

lemma carries_set:
  assumes s: "frozen t s" "store_inv s" and q: "frozen T q" "store_inv q" and le: "t \<le> T"
    and same: "\<And>u. T \<le> u \<Longrightarrow> view u q = view u s"
  shows "carries T s q (cmd_set s a)"
proof (cases "length a < 3 \<or> (\<exists>e. set_opts_at t (drop 3 a) = Inl e)")
  case True
  then show ?thesis using cmd_set_error [OF s(1), of a] carries_clean by fastforce
next
  case False
  then obtain so where n: "3 \<le> length a" and so: "set_opts_at t (drop 3 a) = Inr so"
    by (cases "set_opts_at t (drop 3 a)") auto
  note c = cmd_set_frozen [OF s n so]
  have "view u (apply_command (cr_propagate (fst (cmd_set s a))) q) = view u (snd (cmd_set s a))"
    if d: "cr_dirty (fst (cmd_set s a))" "log_ok (cr_propagate (fst (cmd_set s a)))" and u: "T \<le> u" for u
  proof -
    let ?e = "set_expire_at t (view t s) so (a ! 1)"
    have p: "cr_propagate (fst (cmd_set s a)) = set_propagate (a ! 1) (a ! 2) ?e"
      and v: "view u (snd (cmd_set s a)) = (view u s)(a ! 1 := visible u (a ! 2) ?e)"
      using d(1) c(1) c(2) [of u] u le by (simp_all split: if_splits)
    show ?thesis
      unfolding v p using set_logged [OF q set_expire_at_range [OF so] d(2) [unfolded p] u] same [OF u] by simp
  qed
  then show ?thesis by (simp add: carries_def)
qed

lemma carries_del:
  assumes s: "frozen t s" "store_inv s" and q: "frozen T q" "store_inv q" and le: "t \<le> T"
    and same: "\<And>u. T \<le> u \<Longrightarrow> view u q = view u s" and name: "upper (hd a) = ''DEL'' \<or> upper (hd a) = ''UNLINK''"
  shows "carries T s q (cmd_del s a)"
proof -
  let ?ks = "drop 1 a"
  have app: "apply_command a q = snd (cmd_del q a)" using name by (auto simp: apply_command_def store_command_def)
  have "view u (snd (cmd_del q a)) = view u (snd (cmd_del s a)) \<and> cr_propagate (fst (cmd_del s a)) = a"
    if d: "cr_dirty (fst (cmd_del s a))" and u: "T \<le> u" for u
  proof -
    have n: "\<not> length a < 2" using d by (auto simp: cmd_del_def)
    then have "snd (cmd_del x a) = snd (del_loop ?ks 0 x)" for x
      by (simp add: cmd_del_def case_prod_unfold Let_def)
    moreover have "t \<le> u" using le u by simp
    moreover have "cr_propagate (fst (cmd_del s a)) = a"
      using d n by (simp add: cmd_del_def case_prod_unfold Let_def split: if_splits)
    ultimately show ?thesis
      using del_loop_frozen(2) [OF s, of u ?ks] del_loop_frozen(2) [OF q u, of ?ks] same [OF u] by simp
  qed
  then show ?thesis using order.refl [of T] by (auto simp: carries_def app)
qed

lemma carries_persist:
  assumes s: "frozen t s" "store_inv s" and q: "frozen T q" "store_inv q" and le: "t \<le> T"
    and same: "\<And>u. T \<le> u \<Longrightarrow> view u q = view u s" and name: "upper (hd a) = ''PERSIST''"
  shows "carries T s q (cmd_persist s a)"
proof -
  let ?k = "a ! 1"
  have app: "apply_command a q = snd (cmd_persist q a)" using name by (simp add: apply_command_def store_command_def)
  have "view u (snd (cmd_persist q a)) = view u (snd (cmd_persist s a))"
    if d: "cr_dirty (fst (cmd_persist s a))" "no_revival T s (snd (cmd_persist s a)) a" and u: "T \<le> u" for u
  proof -
    have n: "length a = 2" and st: "fst (store_persist s ?k)"
      using d(1) by (auto simp: cmd_persist_def case_prod_unfold Let_def split: if_splits)
    have snd_eq: "snd (cmd_persist x a) = snd (store_persist x ?k)" for x
      using n by (simp add: cmd_persist_def case_prod_unfold Let_def)
    obtain v d where v: "view t s ?k = Some (v, Some d)" using st store_persist_frozen(1) [OF s] by blast
    have "view T (snd (cmd_persist s a)) ?k \<noteq> None"
      using store_persist_frozen(2) [OF s le, of ?k] v by (simp add: snd_eq)
    then have "view T s ?k \<noteq> None" using d(2) name by (simp add: no_revival_def)
    then have "view T q ?k = Some (v, Some d)"
      using same [of T] view_mono [OF le, of s ?k] v by (auto split: if_splits)
    then show ?thesis
      using store_persist_frozen(2) [OF s, of u ?k] store_persist_frozen(2) [OF q, of u ?k] v u le same [OF u]
      by (simp add: snd_eq)
  qed
  moreover have "cr_propagate (fst (cmd_persist s a)) = a" if "cr_dirty (fst (cmd_persist s a))"
    using that by (auto simp: cmd_persist_def case_prod_unfold Let_def split: if_splits)
  ultimately show ?thesis by (simp add: carries_def app)
qed

lemma pexpireat_logged:
  assumes q: "frozen T q" and d: "in_int64 d" "to_string d \<noteq> to_string int64_min"
  shows "apply_command [''PEXPIREAT'', k, to_string d] q = snd (store_expire_at q k d)"
proof -
  let ?p = "[''PEXPIREAT'', k, to_string d]"
  have "d \<noteq> int64_min" using d(2) by auto
  then have "expire_deadline T ?p False True = Some d"
    using to_int64_to_string [of d] in_int64_not_min [OF d(1)] by (simp add: expire_deadline_def)
  from cmd_expire_eq [OF q this, of "''pexpireat''"] show ?thesis
    by (simp add: apply_command_def store_command_def)
qed

lemma carries_expire:
  assumes s: "frozen t s" "store_inv s" and q: "frozen T q" "store_inv q" and le: "t \<le> T"
    and same: "\<And>u. T \<le> u \<Longrightarrow> view u q = view u s"
  shows "carries T s q (cmd_expire s a seconds absolute name)"
proof (cases "expire_deadline t a seconds absolute")
  case None
  with cmd_expire_refused [OF s(1) None, of name] carries_clean show ?thesis by auto
next
  case (Some d)
  let ?k = "a ! 1"
  let ?p = "[''PEXPIREAT'', ?k, to_string d]"
  let ?s = "snd (store_expire_at s ?k d)"
  have "view u (apply_command ?p q) = view u ?s"
    if ap: "fst (store_expire_at s ?k d)" and ok: "log_ok ?p" "no_revival T s ?s ?p" and u: "T \<le> u" for u
  proof -
    have l: "apply_command ?p q = snd (store_expire_at q ?k d)"
      using pexpireat_logged [OF q(1) expire_deadline_range [OF Some], of ?k] ok(1) by (simp add: log_ok_def)
    obtain v e where v: "view t s ?k = Some (v, e)" using ap store_expire_at_frozen(1) [OF s] by auto
    note sv = store_expire_at_frozen(2) [OF s, where k = ?k and d = d]
    note qv = store_expire_at_frozen(2) [OF q, where k = ?k and d = d]
    have tu: "t \<le> u" using le u by simp
    show ?thesis
    proof (cases "view T s ?k")
      case None
      then have "view T ?s ?k = None" using ok(2) by (simp add: no_revival_def del: not_None_eq)
      then have "d \<le> T" using sv [OF le] v by (simp split: if_splits)
      with None u same show ?thesis unfolding l sv [OF tu] qv [OF u] v by simp
    next
      case (Some x)
      then obtain e' where "view T q ?k = Some (v, e')"
        using same [of T] view_mono [OF le, of s ?k] v by (cases e) (auto split: if_splits)
      with u same show ?thesis unfolding l sv [OF tu] qv [OF u] v by simp
    qed
  qed
  then show ?thesis by (simp add: carries_def cmd_expire_eq [OF s(1) Some])
qed

lemma carries_flushall:
  assumes "upper (hd a) = ''FLUSHALL'' \<or> upper (hd a) = ''FLUSHDB''"
  shows "carries T s q (cmd_flushall s a)"
  using assms by (auto simp: carries_def cmd_flushall_def apply_command_def store_command_def)

lemma store_command_carries:
  assumes "frozen t s" "store_inv s" "frozen T q" "store_inv q" "t \<le> T"
    and "\<And>u. T \<le> u \<Longrightarrow> view u q = view u s"
    and "store_command (upper (hd a)) a s = Some res"
  shows "carries T s q res"
  using assms(7) unfolding store_command_def
  by (elim if_some_elim)
     (simp_all only: carries_clean carries_set [OF assms(1-6)] carries_del [OF assms(1-6)]
        carries_expire [OF assms(1-6)] carries_persist [OF assms(1-6)] carries_flushall option.distinct)

lemma apply_command_inv:
  assumes "frozen t s" "store_inv s"
  shows "frozen t (apply_command a s)" "store_inv (apply_command a s)"
  using store_command_tidy [OF assms] assms by (auto simp: apply_command_def tidy_def split: option.split)

lemma to_string_not_min: "0 \<le> v \<Longrightarrow> to_string v \<noteq> to_string int64_min"
proof
  assume v: "0 \<le> v" and eq: "to_string v = to_string int64_min"
  have "CHR ''-'' \<in> set (to_string int64_min)" by (simp add: to_string_def int64_min_def)
  then have "CHR ''-'' \<in> set (to_string v)" unfolding eq .
  then have "CHR ''-'' \<in> set (to_string_nat (nat v))" using v by (simp add: to_string_def)
  then have "isdigit CHR ''-''" by (rule to_string_nat_isdigit)
  then show False by (simp add: ascii_simps)
qed

lemma persist_logged:
  assumes "frozen T q" "store_inv q" "T \<le> u"
  shows "view u (apply_command [''PERSIST'', k] q) = (view u q)(k := map_option (\<lambda>(v, _). (v, None)) (view T q k))"
proof -
  have "upper ''PERSIST'' = ''PERSIST''" by code_simp
  then have "apply_command [''PERSIST'', k] q = snd (store_persist q k)"
    by (simp add: apply_command_def store_command_def cmd_persist_def case_prod_unfold Let_def)
  then show ?thesis using store_persist_frozen(2) [OF assms] by simp
qed

section \<open>Properties\<close>



text \<open>
  C32: \<open>DEL\<close> reports how many distinct named keys were live, removes every named key for good, and
  is logged exactly when that number is not zero.
\<close>
theorem del_command_correct:
  assumes "frozen t s" "store_inv s" "2 \<le> length a" "t \<le> u"
  shows "let n = card (set (drop 1 a) \<inter> dom (view t s))
         in fst (cmd_del s a) = (if n > 0 then wrote (reply_integer (int n)) a else clean (reply_integer 0)) \<and>
            view u (snd (cmd_del s a)) = view u s |` (- set (drop 1 a))"
  using assms(3) del_loop_frozen(1) [OF assms(1,2), of "drop 1 a"] del_loop_frozen(2) [OF assms(1,2,4), of "drop 1 a"]
  by (simp add: cmd_del_def case_prod_unfold Let_def)

theorem del_command_correct_witness:
  "cr_reply (fst (cmd_del (store_set (sample_store 4 5) ''k'' ''v'' kNoExpiry) [''DEL'', ''k'', ''x'', ''k''])) = reply_integer 1"
proof -
  let ?s = "store_set (sample_store 4 5) ''k'' ''v'' kNoExpiry"
  have "view 5 ?s = [''k'' \<mapsto> (''v'', None)]" by (simp add: visible_def)
  then show ?thesis
    using del_command_correct [of 5 ?s "[''DEL'', ''k'', ''x'', ''k'']" 5] by (simp add: Let_def)
qed

text \<open>
  C33: After \<open>EXPIRE k n\<close> on a live key, \<open>TTL k\<close> at the same moment reports \<open>n\<close>; the command is
  logged as \<open>PEXPIREAT\<close> with the absolute deadline.
\<close>
theorem expire_then_ttl:
  assumes "frozen t s" "store_inv s" "view t s k \<noteq> None" "0 < n" "t + n * 1000 + 999 \<le> int64_max"
  shows "let res = cmd_expire s [c, k, to_string n] True False ''expire''
         in fst res = wrote (reply_integer 1) [''PEXPIREAT'', k, to_string (t + n * 1000)] \<and>
            fst (cmd_ttl (snd res) [c2, k] True ''ttl'') = reply_integer n"
proof -
  let ?d = "t + n * 1000"
  have t: "0 \<le> t" using clock_nonneg [OF assms(2)] frozen_now [OF assms(1)] by simp
  have "to_int64 (to_string n) = Some n"
    by (rule to_int64_to_string) (use assms(4,5) t in \<open>simp_all add: int64_max_def\<close>)
  then have dl: "expire_deadline t [c, k, to_string n] True False = Some ?d"
    using assms(4,5) t wrap64_id [of ?d] by (simp add: expire_deadline_def cdiv_def int64_defs)
  note e = store_expire_at_frozen [OF assms(1,2), where k = k and d = ?d]
  obtain v x where v: "view t s k = Some (v, x)" using assms(3) by auto
  have "store_inv (snd (store_expire_at s k ?d))" using assms(2) by simp
  from store_pttl_frozen(1) [OF e(3) this, of k] have "fst (store_pttl (snd (store_expire_at s k ?d)) k) = n * 1000"
    unfolding e(2) [OF order.refl] using v assms(4,5) t wrap64_id [of "n * 1000"] by (simp add: int64_defs)
  moreover have "cdiv (wrap64 (n * 1000 + 999)) 1000 = n"
    using assms(4,5) t wrap64_id [of "n * 1000 + 999"] by (simp add: cdiv_def int64_defs)
  ultimately show ?thesis
    using cmd_expire_eq [OF assms(1) dl, of "''expire''"] e(1) v assms(4)
    by (simp add: cmd_ttl_def case_prod_unfold Let_def)
qed

theorem expire_then_ttl_witness:
  "fst (cmd_ttl (snd (cmd_expire (store_set (sample_store 4 5) ''k'' ''v'' kNoExpiry) [''EXPIRE'', ''k'', to_string 7] True False ''expire''))
     [''TTL'', ''k''] True ''ttl'') = reply_integer 7"
  using expire_then_ttl [of 5 "store_set (sample_store 4 5) ''k'' ''v'' kNoExpiry" "''k''" 7 "''EXPIRE''" "''TTL''"]
  by (simp add: visible_def int64_defs Let_def)

text \<open>
  C34: A command that does not ask to be logged leaves the keyspace as every reader sees it, now
  and later (lazy expiry included), so nothing is lost by not logging it.
\<close>
theorem clean_command_keeps_keyspace:
  assumes "frozen t s" "store_inv s" "store_command name a s = Some (r, s')" "\<not> cr_dirty r" "t \<le> u"
  shows "view u s' = view u s \<and> store_inv s'"
  using store_command_tidy [OF assms(1-3)] assms(4,5) by (simp add: tidy_def)

theorem clean_command_keeps_keyspace_witness:
  "view 9 (snd (the (store_command ''GET'' [''GET'', ''k''] (store_set (sample_store 4 5) ''k'' ''v'' 3)))) = Map.empty"
proof -
  let ?s = "store_set (sample_store 4 5) ''k'' ''v'' 3"
  obtain r s' where r: "store_command ''GET'' [''GET'', ''k''] ?s = Some (r, s')" "\<not> cr_dirty r"
    by (cases "cmd_get ?s [''GET'', ''k'']") (simp add: store_command_def as_clean_def)
  then show ?thesis
    using clean_command_keeps_keyspace [of 5 ?s "''GET''" "[''GET'', ''k'']" r s' 9]
    by (simp add: visible_def kNoExpiry_def)
qed



text \<open>
  Without the second hypothesis the write is lost: a key is given a deadline, made persistent
  before it, and both commands are logged; applied after the deadline they leave no key.
\<close>
theorem persisted_key_lost_on_replay:
  "let log = [set_propagate ''k'' ''v'' 10, [''PERSIST'', ''k'']]
   in view 20 (fold apply_command log (sample_store 4 5)) ''k'' = Some (''v'', None) \<and>
      view 20 (fold apply_command log (sample_store 4 20)) ''k'' = None"
proof -
  let ?p = "set_propagate ''k'' ''v'' 10"
  have ok: "log_ok ?p" "in_int64 10"
    using to_string_not_min [of 10] by (simp_all add: log_ok_def set_propagate_def kNoExpiry_def in_int64_def)
      (simp_all add: int64_defs)
  have st: "frozen t (sample_store 4 t)" "store_inv (sample_store 4 t)" if "0 \<le> t" for t using that by simp_all
  have v: "view u (apply_command ?p (sample_store 4 t)) ''k'' = (if u < 10 then Some (''v'', Some 10) else None)"
    if "0 \<le> t" "t \<le> u" for t u
    using set_logged [OF st [OF that(1)] ok(2,1) that(2)] by (simp add: visible_def kNoExpiry_def)
  have "view u (apply_command [''PERSIST'', ''k''] (apply_command ?p (sample_store 4 t))) ''k'' =
      (if t < 10 then Some (''v'', None) else None)" if "0 \<le> t" "t \<le> u" for t u
    using persist_logged [OF apply_command_inv [OF st [OF that(1)]] that(2), of "''k''" ?p] v [OF that(1) order.refl] by simp
  then show ?thesis by (simp add: Let_def)
qed

text \<open>\<open>PXAT -1\<close> is taken for "no deadline": the key never expires.\<close>

theorem set_pxat_minus_one_persists:
  "let res = cmd_set (sample_store 4 5) [''SET'', ''k'', ''v'', ''PXAT'', ''-1'']
   in fst res = wrote reply_ok [''SET'', ''k'', ''v''] \<and> view 99 (snd res) ''k'' = Some (''v'', None)"
proof -
  let ?a = "[''SET'', ''k'', ''v'', ''PXAT'', ''-1'']"
  have "to_int64 ''-1'' = Some (-1)" by code_simp
  then have "set_opts_at 5 (drop 3 ?a) = Inr set_opts_new"
    by (simp add: set_opts_at_def set_deadline_def set_opts_new_def kNoExpiry_def)
  from cmd_set_frozen(1,2) [OF _ _ _ this, of "sample_store 4 5"] show ?thesis
    by (simp add: Let_def set_refused_def set_opts_new_def set_expire_at_def visible_def set_propagate_def)
qed

end
