(* ===== verification/Replication.thy ===== *)
theory Replication
  imports Aof Rdb
begin

text \<open>
  Replication as the event loop sees it (\<open>src/replication.cpp\<close>, \<open>include/rp/replication.hpp\<close>):
  the attached replicas, the full resynchronisation that attaches one, the stream of writes,
  acknowledgements, and the state of the link to a master. A connection is a number; what is
  sent to connections is a list of pairs in the order of the calls of \<open>ClientLink::send\<close>. The
  thread that talks to the master is in \<open>Replica_Link\<close>.
\<close>

section \<open>State\<close>

type_synonym sends = "(link \<times> string) list"

record replica_info =
  ri_address :: string
  ri_listening_port :: nat
  ri_ack_offset :: int
  ri_ack_time_ms :: int

datatype link_state = LkNone | LkConnecting | LkHandshaking | LkSyncing | LkConnected

record replica =
  rep_link :: link
  rep_info :: replica_info

text \<open>
  \<open>r_attached\<close> stands for \<open>server_ != nullptr\<close>; \<open>r_thread\<close> holds the arguments of the running
  link thread. The keys of \<open>r_pending_ports\<close> are pointers, the null pointer included.
\<close>

record replication =
  r_attached :: bool
  r_listening_port :: nat
  r_replid :: string
  r_master_offset :: int
  r_replicas :: "replica list"
  r_pending_ports :: "link option \<rightharpoonup> nat"
  r_of_host :: string
  r_of_port :: nat
  r_thread :: "(string \<times> nat) option"
  r_link_stop :: bool
  r_link_state :: link_state
  r_replica_offset :: int
  r_link_error :: string

definition repl_new :: "string \<Rightarrow> replication" where
  "repl_new replid =
     \<lparr>r_attached = False, r_listening_port = 0, r_replid = replid, r_master_offset = 0, r_replicas = [],
      r_pending_ports = Map.empty, r_of_host = [], r_of_port = 0, r_thread = None, r_link_stop = False,
      r_link_state = LkNone, r_replica_offset = 0, r_link_error = []\<rparr>"

fun link_state_name :: "link_state \<Rightarrow> string" where
  "link_state_name LkConnecting = ''connect''"
| "link_state_name LkHandshaking = ''handshake''"
| "link_state_name LkSyncing = ''sync''"
| "link_state_name LkConnected = ''up''"
| "link_state_name LkNone = ''down''"

definition is_write_command :: "string \<Rightarrow> bool" where
  "is_write_command name \<longleftrightarrow>
     name = ''SET'' \<or> name = ''DEL'' \<or> name = ''UNLINK'' \<or> name = ''EXPIRE'' \<or> name = ''PEXPIRE'' \<or>
     name = ''EXPIREAT'' \<or> name = ''PEXPIREAT'' \<or> name = ''PERSIST'' \<or> name = ''FLUSHALL'' \<or> name = ''FLUSHDB''"

section \<open>Master side\<close>

text \<open>\<open>now\<close> is the reading of the clock, \<open>peer\<close> what \<open>link->peer()\<close> returns.\<close>

definition start_full_resync ::
  "int \<Rightarrow> string \<Rightarrow> link option \<Rightarrow> replication \<Rightarrow> store \<Rightarrow> replication \<times> store \<times> sends" where
  "start_full_resync now peer link r s =
     (case link of
        None \<Rightarrow> (r, s, [])
      | Some l \<Rightarrow>
          (let header = ''+FULLRESYNC '' @ r_replid r @ '' '' @ to_string (r_master_offset r) @ kCrlf;
               (records, s1) = store_snapshot s;
               payload = rdb_serialize records;
               len_header = ''$'' @ to_string_nat (length payload) @ kCrlf;
               port = (case r_pending_ports r link of Some p \<Rightarrow> p | None \<Rightarrow> 0);
               replica = \<lparr>rep_link = l, rep_info = \<lparr>ri_address = peer, ri_listening_port = port,
                            ri_ack_offset = 0, ri_ack_time_ms = now\<rparr>\<rparr>
           in (r\<lparr>r_replicas := r_replicas r @ [replica]\<rparr>, s1,
               [(l, header), (l, len_header), (l, payload)])))"

definition set_replica_port :: "link option \<Rightarrow> nat \<Rightarrow> replication \<Rightarrow> replication" where
  "set_replica_port link port r =
     r\<lparr>r_replicas := map (\<lambda>x. if Some (rep_link x) = link
          then x\<lparr>rep_info := (rep_info x)\<lparr>ri_listening_port := port\<rparr>\<rparr> else x) (r_replicas r),
       r_pending_ports := (r_pending_ports r)(link \<mapsto> port)\<rparr>"

definition on_replica_ack :: "int \<Rightarrow> link option \<Rightarrow> int \<Rightarrow> replication \<Rightarrow> replication" where
  "on_replica_ack now link offset r =
     r\<lparr>r_replicas := map (\<lambda>x. if Some (rep_link x) = link
          then x\<lparr>rep_info := (rep_info x)\<lparr>ri_ack_offset := offset, ri_ack_time_ms := now\<rparr>\<rparr> else x) (r_replicas r)\<rparr>"

definition repl_on_disconnect :: "link option \<Rightarrow> replication \<Rightarrow> replication" where
  "repl_on_disconnect link r =
     r\<lparr>r_replicas := filter (\<lambda>x. Some (rep_link x) \<noteq> link) (r_replicas r),
       r_pending_ports := (r_pending_ports r)(link := None)\<rparr>"

definition repl_propagate :: "args \<Rightarrow> replication \<Rightarrow> replication \<times> sends" where
  "repl_propagate as r =
     (let encoded = aof_encode as
      in (r\<lparr>r_master_offset := r_master_offset r + int (length encoded)\<rparr>,
          map (\<lambda>x. (rep_link x, encoded)) (r_replicas r)))"

section \<open>Replica side\<close>

text \<open>\<open>stop_replication\<close> joins the thread, which ends with the state \<open>kNone\<close>.\<close>

definition stop_replication :: "replication \<Rightarrow> replication" where
  "stop_replication r =
     r\<lparr>r_link_stop := True, r_thread := None, r_of_host := [], r_of_port := 0, r_link_state := LkNone\<rparr>"

definition replicaof :: "string \<Rightarrow> nat \<Rightarrow> replication \<Rightarrow> string option \<times> replication" where
  "replicaof host port r =
     (if \<not> r_attached r then (Some ''replication is not attached to a server'', r)
      else (None, (stop_replication r)\<lparr>r_of_host := host, r_of_port := port, r_link_stop := False,
              r_link_state := LkConnecting, r_replica_offset := 0, r_thread := Some (host, port)\<rparr>))"

definition is_replica :: "replication \<Rightarrow> bool" where
  "is_replica r \<longleftrightarrow> r_of_port r \<noteq> 0"

definition replica_line :: "int \<Rightarrow> nat \<times> replica \<Rightarrow> string" where
  "replica_line master_offset = (\<lambda>(i, x).
     ''slave'' @ to_string_nat i @ '':addr='' @ ri_address (rep_info x) @
     '',port='' @ to_string_nat (ri_listening_port (rep_info x)) @
     '',state=online,offset='' @ to_string (ri_ack_offset (rep_info x)) @
     '',lag='' @ to_string (master_offset - ri_ack_offset (rep_info x)) @ kCrlf)"

definition repl_info_section :: "replication \<Rightarrow> string" where
  "repl_info_section r =
     (if is_replica r
      then ''role:slave'' @ kCrlf @ ''master_host:'' @ r_of_host r @ kCrlf @
           ''master_port:'' @ to_string_nat (r_of_port r) @ kCrlf @
           ''master_link_status:'' @ (if r_link_state r = LkConnected then ''up'' else ''down'') @ kCrlf @
           ''master_link_state:'' @ link_state_name (r_link_state r) @ kCrlf @
           ''slave_read_only:1'' @ kCrlf @
           ''slave_repl_offset:'' @ to_string (r_replica_offset r) @ kCrlf @
           (if r_link_error r \<noteq> [] then ''master_link_error:'' @ r_link_error r @ kCrlf else [])
      else ''role:master'' @ kCrlf) @
     ''connected_slaves:'' @ to_string_nat (length (r_replicas r)) @ kCrlf @
     concat (map (replica_line (r_master_offset r)) (enumerate 0 (r_replicas r))) @
     ''master_replid:'' @ r_replid r @ kCrlf @
     ''master_repl_offset:'' @ to_string (r_master_offset r) @ kCrlf"

section \<open>The stream each replica receives\<close>

text \<open>What happens to the master side, with the bytes it sends.\<close>

datatype repl_event =
  Write args
| Resync int string link
| Ack int "link option" int
| Port "link option" nat
| Gone link

fun repl_step :: "replication \<times> store \<Rightarrow> repl_event \<Rightarrow> (replication \<times> store) \<times> sends" where
  "repl_step (r, s) (Write as) = (let (r1, out) = repl_propagate as r in ((r1, s), out))"
| "repl_step (r, s) (Resync now peer l) =
     (let (r1, s1, out) = start_full_resync now peer (Some l) r s in ((r1, s1), out))"
| "repl_step (r, s) (Ack now l offset) = ((on_replica_ack now l offset r, s), [])"
| "repl_step (r, s) (Port l port) = ((set_replica_port l port r, s), [])"
| "repl_step (r, s) (Gone l) = ((repl_on_disconnect (Some l) r, s), [])"

fun repl_run :: "replication \<times> store \<Rightarrow> repl_event list \<Rightarrow> (replication \<times> store) \<times> sends" where
  "repl_run st [] = (st, [])"
| "repl_run st (e # es) =
     (let (st1, out) = repl_step st e; (st2, outs) = repl_run st1 es in (st2, out @ outs))"

definition sent_to :: "link \<Rightarrow> sends \<Rightarrow> string" where
  "sent_to l out = concat (map snd (filter (\<lambda>x. fst x = l) out))"

primrec event_writes :: "repl_event \<Rightarrow> args list" where
  "event_writes (Write as) = [as]"
| "event_writes (Resync now peer l) = []"
| "event_writes (Ack now l offset) = []"
| "event_writes (Port l port) = []"
| "event_writes (Gone l) = []"

fun concerns :: "link \<Rightarrow> repl_event \<Rightarrow> bool" where
  "concerns l (Resync now peer l') \<longleftrightarrow> l' = l"
| "concerns l (Gone l') \<longleftrightarrow> l' = l"
| "concerns l e \<longleftrightarrow> False"

definition attached_once :: "link \<Rightarrow> replication \<Rightarrow> bool" where
  "attached_once l r \<longleftrightarrow> length (filter (\<lambda>x. rep_link x = l) (r_replicas r)) = 1"

lemma sent_to_simps [simp]:
  "sent_to l [] = []" "sent_to l (x @ y) = sent_to l x @ sent_to l y"
  "sent_to l ((m, b) # y) = (if m = l then b @ sent_to l y else sent_to l y)"
  by (simp_all add: sent_to_def)

lemma sent_to_broadcast:
  "sent_to l (map (\<lambda>x. (rep_link x, b)) rs) =
     concat (replicate (length (filter (\<lambda>x. rep_link x = l) rs)) b)"
  by (induction rs) simp_all

lemma filter_map_link:
  assumes "\<And>x. rep_link (f x) = rep_link x"
  shows "filter ((\<lambda>x. rep_link x = l) \<circ> f) rs = filter (\<lambda>x. rep_link x = l) rs"
  by (simp add: comp_def assms)

lemma repl_step_attached:
  assumes "attached_once l r" "\<not> concerns l e" "repl_step (r, s) e = ((r', s'), out)"
  shows "attached_once l r' \<and> sent_to l out = concat (map aof_encode (event_writes e)) \<and>
    r_master_offset r' = r_master_offset r + int (length (concat (map aof_encode (event_writes e))))"
proof (cases e)
  case (Write as)
  then show ?thesis
    using assms by (auto simp: repl_propagate_def attached_once_def sent_to_broadcast Let_def)
next
  case (Resync now peer l')
  then show ?thesis
    using assms by (auto simp: start_full_resync_def attached_once_def Let_def case_prod_unfold)
next
  case (Ack now l' offset)
  then show ?thesis
    using assms by (auto simp: on_replica_ack_def attached_once_def filter_map_link)
next
  case (Port l' port)
  then show ?thesis
    using assms by (auto simp: set_replica_port_def attached_once_def filter_map_link)
next
  case (Gone l')
  then have "filter (\<lambda>x. rep_link x = l) (filter (\<lambda>x. Some (rep_link x) \<noteq> Some l') (r_replicas r)) =
      filter (\<lambda>x. rep_link x = l) (r_replicas r)"
    using assms(2) by (auto intro: filter_cong)
  with Gone show ?thesis using assms by (auto simp: repl_on_disconnect_def attached_once_def)
qed

lemma repl_run_attached:
  assumes "attached_once l r" "\<forall>e \<in> set es. \<not> concerns l e" "repl_run (r, s) es = ((r', s'), out)"
  defines "ws \<equiv> concat (map event_writes es)"
  shows "attached_once l r' \<and> sent_to l out = concat (map aof_encode ws) \<and>
    r_master_offset r' = r_master_offset r + int (length (concat (map aof_encode ws)))"
  using assms(1-3) unfolding ws_def
proof (induction es arbitrary: r s out)
  case (Cons e es)
  obtain r1 s1 out1 where st: "repl_step (r, s) e = ((r1, s1), out1)" by (metis prod.collapse)
  obtain out2 where rn: "repl_run (r1, s1) es = ((r', s'), out2)" "out = out1 @ out2"
    using Cons.prems(3) st by (auto simp: Let_def split: prod.splits)
  note one = repl_step_attached [OF Cons.prems(1) _ st]
  from Cons.IH [OF _ _ rn(1)] one Cons.prems(2) rn(2) show ?case by simp
qed simp

lemma resync_attaches:
  assumes "l \<notin> rep_link ` set (r_replicas r)" "start_full_resync now peer (Some l) r s = (r1, s1, out)"
  shows "attached_once l r1"
  using assms by (auto simp: start_full_resync_def attached_once_def Let_def case_prod_unfold image_iff
      intro!: filter_False)

section \<open>Properties\<close>

text \<open>
  C35: What a replica receives. From the moment a connection is resynchronised, and as long as it
  neither disconnects nor asks again, the bytes sent to it are the header with the offset, the
  length and the snapshot of the keyspace, and then the encoding of every write in order,
  nothing else; the master's offset has advanced by exactly the bytes of those writes.
\<close>
theorem replica_stream_exact:
  assumes "l \<notin> rep_link ` set (r_replicas r)"
    and "start_full_resync now peer (Some l) r s = (r1, s1, out0)"
    and "\<forall>e \<in> set es. \<not> concerns l e" "repl_run (r1, s1) es = ((r2, s2), out)"
  shows "let payload = rdb_serialize (fst (store_snapshot s));
             stream = concat (map aof_encode (concat (map event_writes es)))
         in sent_to l (out0 @ out) =
              (''+FULLRESYNC '' @ r_replid r @ '' '' @ to_string (r_master_offset r) @ kCrlf) @
              (''$'' @ to_string_nat (length payload) @ kCrlf) @ payload @ stream \<and>
            r_master_offset r2 = r_master_offset r + int (length stream)"
proof -
  have "r_master_offset r1 = r_master_offset r" "sent_to l out0 =
      (''+FULLRESYNC '' @ r_replid r @ '' '' @ to_string (r_master_offset r) @ kCrlf) @
      (''$'' @ to_string_nat (length (rdb_serialize (fst (store_snapshot s)))) @ kCrlf) @
      rdb_serialize (fst (store_snapshot s))"
    using assms(2) by (auto simp: start_full_resync_def Let_def case_prod_unfold)
  with repl_run_attached [OF resync_attaches [OF assms(1,2)] assms(3,4)] show ?thesis
    by (simp add: Let_def)
qed

theorem replica_stream_exact_witness:
  "r_master_offset (fst (fst (repl_run
     (let (r1, s1, out) = start_full_resync 0 ''p'' (Some 7) (repl_new ''id'') (sample_store 4 5) in (r1, s1))
     [Write [''PING''], Gone 8]))) = 14"
proof -
  obtain r1 s1 out0 where i: "start_full_resync 0 ''p'' (Some 7) (repl_new ''id'') (sample_store 4 5) = (r1, s1, out0)"
    by (metis prod_cases3)
  obtain r2 s2 out where u: "repl_run (r1, s1) [Write [''PING''], Gone 8] = ((r2, s2), out)" by (metis prod.collapse)
  have "length (aof_encode [''PING'']) = 14" by code_simp
  with replica_stream_exact [OF _ i _ u] i u show ?thesis by (simp add: repl_new_def Let_def)
qed

text \<open>
  A connection that sends \<open>PSYNC\<close> twice is attached twice, and from then on is sent every write
  twice.
\<close>
theorem psync_twice_duplicates:
  assumes "repl_run (repl_new replid, s) [Resync now peer l, Resync now' peer' l] = ((r, s'), out)"
  shows "sent_to l (snd (repl_propagate as r)) = aof_encode as @ aof_encode as"
  using assms by (auto simp: start_full_resync_def repl_new_def repl_propagate_def Let_def case_prod_unfold)

end
