(* ===== verification/Persistence.thy ===== *)
theory Persistence
  imports Aof Rdb
begin

text \<open>
  The owner of durability (\<open>src/persistence.cpp\<close>, \<open>include/rp/persistence.hpp\<close>): the record of
  writes, \<open>SAVE\<close>, \<open>BGSAVE\<close>, AOF rewriting and the periodic work. The store and the file system
  are passed in and returned; what a call reads from the clock and what the system lets it do
  is an \<open>env\<close>. The thread of a background save is a job that some later step completes
  (\<open>saver_finish\<close>), with the records it was given. Loading at boot is in \<open>Boot\<close>.
\<close>

section \<open>State\<close>

text \<open>
  What one call finds outside the process: the successive readings of the clock, the outcomes of
  its file operations, the uptime in seconds and the name of the peer.
\<close>

record env =
  e_now :: int
  e_now2 :: int
  e_io :: io_outcome
  e_io2 :: io_outcome
  e_io3 :: io_outcome
  e_uptime :: nat
  e_peer :: string

record persistence_config =
  pc_dir :: path
  pc_dbfilename :: path
  pc_aof_filename :: path
  pc_rdb_enabled :: bool
  pc_aof_enabled :: bool
  pc_fsync_policy :: fsync_policy
  pc_save_seconds :: int
  pc_save_changes :: int
  pc_aof_rewrite_threshold :: nat

definition default_persistence_config :: persistence_config where
  "default_persistence_config =
     \<lparr>pc_dir = ''.'', pc_dbfilename = ''dump.rdb'', pc_aof_filename = ''appendonly.aof'',
      pc_rdb_enabled = True, pc_aof_enabled = False, pc_fsync_policy = kEverySec,
      pc_save_seconds = 300, pc_save_changes = 100, pc_aof_rewrite_threshold = 1000000\<rparr>"

definition rdb_path :: "persistence_config \<Rightarrow> path" where
  "rdb_path c = pc_dir c @ ''/'' @ pc_dbfilename c"

definition aof_path :: "persistence_config \<Rightarrow> path" where
  "aof_path c = pc_dir c @ ''/'' @ pc_aof_filename c"

text \<open>The thread: not joinable, running with its copy of the records, or finished and not yet joined.\<close>

datatype saver = Idle | Running "kv_record list" | Finished

record persistence =
  p_config :: persistence_config
  p_aof :: aof
  p_dirty :: nat
  p_last_save_ms :: int
  p_last_save_attempt_ms :: int
  p_saves_ok :: nat
  p_saves_failed :: nat
  p_last_error :: string
  p_saving :: bool
  p_background_failed :: bool
  p_saver :: saver

definition pers_new :: "int \<Rightarrow> persistence_config \<Rightarrow> persistence" where
  "pers_new now config =
     \<lparr>p_config = config, p_aof = aof_new, p_dirty = 0, p_last_save_ms = now, p_last_save_attempt_ms = 0,
      p_saves_ok = 0, p_saves_failed = 0, p_last_error = [], p_saving = False,
      p_background_failed = False, p_saver = Idle\<rparr>"

section \<open>Operations\<close>

definition pers_on_write :: "args \<Rightarrow> persistence \<Rightarrow> persistence" where
  "pers_on_write as p =
     (let p1 = p\<lparr>p_dirty := p_dirty p + 1\<rparr>
      in if pc_aof_enabled (p_config p) then p1\<lparr>p_aof := aof_append as (p_aof p1)\<rparr> else p1)"

definition write_snapshot :: "io_outcome \<Rightarrow> kv_record list \<Rightarrow> persistence \<Rightarrow> fs \<Rightarrow> string option \<times> fs" where
  "write_snapshot io records p fs =
     (let (err, states) = rdb_save_file io (rdb_path (p_config p)) records fs in (err, last states))"

definition pers_save :: "env \<Rightarrow> persistence \<Rightarrow> store \<Rightarrow> fs \<Rightarrow> string option \<times> persistence \<times> store \<times> fs" where
  "pers_save e p s fs =
     (if \<not> pc_rdb_enabled (p_config p) then (Some ''RDB snapshots are disabled'', p, s, fs)
      else
        (let p1 = p\<lparr>p_last_save_attempt_ms := e_now e\<rparr>;
             (records, s1) = store_snapshot s
         in case write_snapshot (e_io e) records p1 fs of
              (Some err, fs1) \<Rightarrow>
                (Some err, p1\<lparr>p_saves_failed := p_saves_failed p + 1, p_last_error := err\<rparr>, s1, fs1)
            | (None, fs1) \<Rightarrow>
                (None, p1\<lparr>p_saves_ok := p_saves_ok p + 1, p_dirty := 0, p_last_save_ms := e_now2 e\<rparr>, s1, fs1)))"

text \<open>
  Once \<open>saving_\<close> is found false the old thread, if there is one, has finished, so joining it does
  not wait.
\<close>

definition background_save :: "int \<Rightarrow> persistence \<Rightarrow> store \<Rightarrow> string option \<times> persistence \<times> store" where
  "background_save now p s =
     (if \<not> pc_rdb_enabled (p_config p) then (Some ''RDB snapshots are disabled'', p, s)
      else if p_saving p then (Some ''Background save already in progress'', p, s)
      else
        (let (records, s1) = store_snapshot s
         in (None, p\<lparr>p_saving := True, p_background_failed := False, p_dirty := 0,
                p_last_save_attempt_ms := now, p_saver := Running records\<rparr>, s1)))"

text \<open>The body of the thread.\<close>

definition saver_finish :: "io_outcome \<Rightarrow> persistence \<Rightarrow> fs \<Rightarrow> persistence \<times> fs" where
  "saver_finish io p fs =
     (case p_saver p of
        Running records \<Rightarrow>
          (let (err, fs1) = write_snapshot io records p fs
           in (p\<lparr>p_background_failed := (p_background_failed p \<or> err \<noteq> None), p_saving := False,
                 p_saver := Finished\<rparr>, fs1))
      | _ \<Rightarrow> (p, fs))"

definition pers_rewrite_aof ::
  "io_outcome \<Rightarrow> io_outcome \<Rightarrow> persistence \<Rightarrow> store \<Rightarrow> fs \<Rightarrow> string option \<times> persistence \<times> store \<times> fs" where
  "pers_rewrite_aof io io2 p s fs =
     (if \<not> pc_aof_enabled (p_config p) then (Some ''AOF is disabled'', p, s, fs)
      else
        (let (records, s1) = store_snapshot s;
             (err, a, fs1) = aof_rewrite io io2 (aof_path (p_config p)) records (p_aof p) fs
         in (err, p\<lparr>p_aof := a\<rparr>, s1, fs1)))"

definition note_error :: "string option \<Rightarrow> persistence \<Rightarrow> persistence" where
  "note_error err p = (case err of Some m \<Rightarrow> p\<lparr>p_last_error := m\<rparr> | None \<Rightarrow> p)"

text \<open>The three parts of \<open>cron\<close>.\<close>

definition cron_aof :: "env \<Rightarrow> persistence \<Rightarrow> store \<Rightarrow> fs \<Rightarrow> persistence \<times> store \<times> fs" where
  "cron_aof e p s fs =
     (if pc_aof_enabled (p_config p) then
        (let (err, a, fs1) = aof_flush (e_io e) (e_now e) (p_aof p) fs;
             p1 = note_error err (p\<lparr>p_aof := a\<rparr>)
         in if pc_aof_rewrite_threshold (p_config p) > 0 \<and>
               a_commands_written (p_aof p1) > pc_aof_rewrite_threshold (p_config p)
            then (let (err2, p2, s1, fs2) = pers_rewrite_aof (e_io2 e) (e_io3 e) p1 s fs1
                  in (note_error err2 p2, s1, fs2))
            else (p1, s, fs1))
      else (p, s, fs))"

definition cron_reap :: "env \<Rightarrow> persistence \<Rightarrow> persistence" where
  "cron_reap e p =
     (if \<not> p_saving p \<and> p_saver p \<noteq> Idle then
        (let p1 = p\<lparr>p_saver := Idle\<rparr>
         in if p_background_failed p
            then p1\<lparr>p_saves_failed := p_saves_failed p + 1, p_last_error := ''background save failed''\<rparr>
            else p1\<lparr>p_saves_ok := p_saves_ok p + 1, p_last_save_ms := e_now e\<rparr>)
      else p)"

definition save_due :: "env \<Rightarrow> persistence \<Rightarrow> bool" where
  "save_due e p \<longleftrightarrow>
     pc_rdb_enabled (p_config p) \<and> pc_save_seconds (p_config p) > 0 \<and> pc_save_changes (p_config p) > 0 \<and>
     \<not> p_saving p \<and> int (p_dirty p) \<ge> pc_save_changes (p_config p) \<and>
     e_now e - p_last_save_ms p \<ge> pc_save_seconds (p_config p) * 1000"

definition pers_cron :: "env \<Rightarrow> persistence \<Rightarrow> store \<Rightarrow> fs \<Rightarrow> persistence \<times> store \<times> fs" where
  "pers_cron e p s fs =
     (let (p1, s1, fs1) = cron_aof e p s fs;
          p2 = cron_reap e p1
      in if save_due e p2
         then (let (err, p3, s2) = background_save (e_now2 e) p2 s1 in (p3, s2, fs1))
         else (p2, s1, fs1))"

text \<open>\<open>shutdown\<close> waits for a running save, then closes the log.\<close>

definition pers_shutdown :: "io_outcome \<Rightarrow> persistence \<Rightarrow> fs \<Rightarrow> persistence \<times> fs" where
  "pers_shutdown io p fs =
     (let (p1, fs1) = saver_finish io p fs;
          (a, fs2) = aof_close (p_aof p1) fs1
      in (p1\<lparr>p_saver := Idle, p_aof := a\<rparr>, fs2))"

definition flag :: "bool \<Rightarrow> string" where
  "flag b = (if b then ''1'' else ''0'')"

definition pers_info_section :: "persistence \<Rightarrow> string" where
  "pers_info_section p =
     ''loading:0'' @ kCrlf @
     ''rdb_enabled:'' @ flag (pc_rdb_enabled (p_config p)) @ kCrlf @
     ''rdb_changes_since_last_save:'' @ to_string_nat (p_dirty p) @ kCrlf @
     ''rdb_bgsave_in_progress:'' @ flag (p_saving p) @ kCrlf @
     ''rdb_last_save_time:'' @ to_string (cdiv (p_last_save_ms p) 1000) @ kCrlf @
     ''rdb_saves_ok:'' @ to_string_nat (p_saves_ok p) @ kCrlf @
     ''rdb_saves_failed:'' @ to_string_nat (p_saves_failed p) @ kCrlf @
     ''aof_enabled:'' @ flag (pc_aof_enabled (p_config p)) @ kCrlf @
     ''aof_fsync_policy:'' @ fsync_policy_name (pc_fsync_policy (p_config p)) @ kCrlf @
     ''aof_commands_written:'' @ to_string_nat (a_commands_written (p_aof p)) @ kCrlf @
     ''aof_bytes_written:'' @ to_string_nat (a_bytes_written (p_aof p)) @ kCrlf @
     ''aof_fsyncs:'' @ to_string_nat (a_fsyncs (p_aof p)) @ kCrlf @
     (if p_last_error p \<noteq> [] then ''last_persistence_message:'' @ p_last_error p @ kCrlf else [])"

section \<open>Invariant\<close>

text \<open>\<open>saving_\<close> is true exactly while a thread runs. \<open>PCommands\<close> is any change of the store between two calls.\<close>

definition pers_inv :: "persistence \<Rightarrow> bool" where
  "pers_inv p \<longleftrightarrow> (p_saving p \<longleftrightarrow> (\<exists>records. p_saver p = Running records))"

datatype pers_event =
  PWrite args
| PSave env
| PBgSave int
| PRewrite io_outcome io_outcome
| PCron env
| PSaverDone io_outcome
| PCommands store

type_synonym pers_state = "persistence \<times> store \<times> fs"

fun pers_step :: "pers_state \<Rightarrow> pers_event \<Rightarrow> pers_state" where
  "pers_step (p, s, fs) (PWrite as) = (pers_on_write as p, s, fs)"
| "pers_step (p, s, fs) (PSave e) = snd (pers_save e p s fs)"
| "pers_step (p, s, fs) (PBgSave now) = (let (err, p1, s1) = background_save now p s in (p1, s1, fs))"
| "pers_step (p, s, fs) (PRewrite io io2) = snd (pers_rewrite_aof io io2 p s fs)"
| "pers_step (p, s, fs) (PCron e) = pers_cron e p s fs"
| "pers_step (p, s, fs) (PSaverDone io) = (let (p1, fs1) = saver_finish io p fs in (p1, s, fs1))"
| "pers_step (p, s, fs) (PCommands s') = (p, s', fs)"

lemma pers_inv_new: "pers_inv (pers_new now config)"
  by (simp add: pers_inv_def pers_new_def)

lemma pers_inv_frame [simp]:
  "pers_inv (p\<lparr>p_aof := a\<rparr>) = pers_inv p" "pers_inv (p\<lparr>p_dirty := n\<rparr>) = pers_inv p"
  "pers_inv (note_error err p) = pers_inv p" "pers_inv (pers_on_write as p) = pers_inv p"
  by (simp_all add: pers_inv_def note_error_def pers_on_write_def Let_def split: option.split)

lemma pers_inv_save: "pers_inv p \<Longrightarrow> pers_inv (fst (snd (pers_save e p s fs)))"
  by (simp add: pers_inv_def pers_save_def case_prod_unfold Let_def split: option.split)

lemma pers_inv_bgsave: "pers_inv p \<Longrightarrow> pers_inv (fst (snd (background_save now p s)))"
  by (simp add: pers_inv_def background_save_def case_prod_unfold Let_def)

lemma pers_inv_rewrite: "pers_inv p \<Longrightarrow> pers_inv (fst (snd (pers_rewrite_aof io io2 p s fs)))"
  by (simp add: pers_rewrite_aof_def case_prod_unfold Let_def)

lemma pers_inv_finish: "pers_inv p \<Longrightarrow> pers_inv (fst (saver_finish io p fs))"
  by (simp add: pers_inv_def saver_finish_def case_prod_unfold Let_def split: saver.split)

lemma pers_inv_cron_aof: "pers_inv p \<Longrightarrow> pers_inv (fst (cron_aof e p s fs))"
  by (simp add: cron_aof_def case_prod_unfold Let_def pers_inv_rewrite)

lemma pers_inv_cron_reap: "pers_inv p \<Longrightarrow> pers_inv (cron_reap e p)"
  by (auto simp: pers_inv_def cron_reap_def Let_def)

lemma pers_inv_cron: "pers_inv p \<Longrightarrow> pers_inv (fst (pers_cron e p s fs))"
  by (simp add: pers_cron_def case_prod_unfold Let_def pers_inv_bgsave pers_inv_cron_reap pers_inv_cron_aof)

lemma pers_inv_step: "pers_inv (fst st) \<Longrightarrow> pers_inv (fst (pers_step st x))"
  by (cases "(st, x)" rule: pers_step.cases)
     (simp_all add: pers_inv_save pers_inv_bgsave pers_inv_rewrite pers_inv_cron pers_inv_finish
        case_prod_unfold Let_def)

lemma pers_inv_run: "pers_inv (fst st) \<Longrightarrow> pers_inv (fst (foldl pers_step st xs))"
  by (induction xs arbitrary: st) (simp_all add: pers_inv_step)

text \<open>While a thread runs, only its end touches it.\<close>

definition job :: "persistence_config \<Rightarrow> kv_record list \<Rightarrow> persistence \<Rightarrow> bool" where
  "job c records p \<longleftrightarrow> p_config p = c \<and> p_saver p = Running records \<and> p_saving p \<and> \<not> p_background_failed p"

fun ends_job :: "pers_event \<Rightarrow> bool" where
  "ends_job (PSaverDone io) \<longleftrightarrow> True"
| "ends_job x \<longleftrightarrow> False"

lemma job_frame [simp]:
  "job c records (p\<lparr>p_aof := a\<rparr>) = job c records p" "job c records (note_error err p) = job c records p"
  "job c records (pers_on_write as p) = job c records p"
  by (simp_all add: job_def note_error_def pers_on_write_def Let_def split: option.split)

lemma job_rewrite: "job c records p \<Longrightarrow> job c records (fst (snd (pers_rewrite_aof io io2 p s fs)))"
  by (simp add: pers_rewrite_aof_def case_prod_unfold Let_def)

lemma job_cron:
  assumes "job c records p"
  shows "job c records (fst (pers_cron e p s fs))"
proof -
  have a: "job c records (fst (cron_aof e p s fs))"
    using assms by (simp add: cron_aof_def case_prod_unfold Let_def job_rewrite)
  then have "cron_reap e (fst (cron_aof e p s fs)) = fst (cron_aof e p s fs)"
    and "\<not> save_due e (fst (cron_aof e p s fs))"
    by (simp_all add: job_def cron_reap_def save_due_def)
  with a show ?thesis by (simp add: pers_cron_def case_prod_unfold Let_def)
qed

lemma job_step:
  assumes "job c records (fst st)" "\<not> ends_job x"
  shows "job c records (fst (pers_step st x))"
proof -
  obtain p s fs where st: "st = (p, s, fs)" by (metis prod_cases3)
  show ?thesis
  proof (cases x)
    case (PSave e)
    with assms st show ?thesis
      by (simp add: pers_save_def job_def case_prod_unfold Let_def split: option.split)
  next
    case (PBgSave now)
    with assms st show ?thesis by (simp add: background_save_def job_def)
  qed (use assms st in \<open>simp_all add: job_rewrite job_cron\<close>)
qed

lemma job_run:
  "job c records (fst st) \<Longrightarrow> \<forall>x \<in> set xs. \<not> ends_job x \<Longrightarrow> job c records (fst (foldl pers_step st xs))"
  by (induction xs arbitrary: st) (simp_all add: job_step)

section \<open>Properties\<close>

text \<open>
  C36: In every state the process can reach, at most one background save runs: while its thread
  runs, another \<open>BGSAVE\<close> is refused and changes nothing.
\<close>
theorem single_background_save:
  assumes "foldl pers_step (pers_new now c, s, fs) xs = (p, s', fs')" "p_saver p = Running records"
  shows "p_saving p \<and> fst (background_save now' p s') \<noteq> None \<and> snd (background_save now' p s') = (p, s')"
  using pers_inv_run [of "(pers_new now c, s, fs)" xs] assms
  by (simp add: pers_inv_new) (simp add: pers_inv_def background_save_def)

theorem single_background_save_witness:
  "snd (background_save 3 (fst (foldl pers_step (pers_new 0 default_persistence_config, sample_store 4 5, Map.empty) [PBgSave 1]))
      (sample_store 4 5)) \<noteq> (pers_new 0 default_persistence_config, sample_store 4 5)"
proof -
  let ?st = "(pers_new 0 default_persistence_config, sample_store 4 5, Map.empty)"
  obtain p s' fs' where st: "foldl pers_step ?st [PBgSave 1] = (p, s', fs')" by (metis prod_cases3)
  moreover from st have "s' = sample_store 4 5" and p: "p_saver p = Running []"
    by (auto simp: background_save_def pers_new_def default_persistence_config_def)
  moreover from p have "p \<noteq> pers_new 0 default_persistence_config" by (auto simp: pers_new_def)
  ultimately show ?thesis using single_background_save [OF st p, of 3] by simp
qed



text \<open>
  A background save that fails has already reset the count of changes: the reap records the
  failure, and until new changes arrive no scheduled save is due.
\<close>
theorem failed_bgsave_forgets_changes:
  assumes "background_save now p s = (None, p1, s1)" "saver_finish io p1 fs = (p2, fs2)" "p_background_failed p2"
  shows "p_saves_failed (cron_reap e p2) = p_saves_failed p + 1 \<and> \<not> save_due e' (cron_reap e p2)"
  using assms
  by (auto simp: background_save_def saver_finish_def cron_reap_def save_due_def case_prod_unfold Let_def
      split: if_splits)

text \<open>
  A rewrite counts the records it wrote as commands: with more keys than the threshold, the count
  is still above it after a successful rewrite, so the next tick rewrites again.
\<close>
theorem rewrite_threshold_repeats:
  assumes "pers_rewrite_aof io io2 p s fs = (None, p1, s1, fs1)"
    and "length (fst (store_snapshot s)) > pc_aof_rewrite_threshold (p_config p)"
  shows "a_commands_written (p_aof p1) > pc_aof_rewrite_threshold (p_config p1)"
  using assms
  by (auto simp: pers_rewrite_aof_def aof_rewrite_def aof_open_def aof_close_def case_prod_unfold Let_def
      split: if_splits option.splits)

end
