(* ===== verification/Dispatch.thy ===== *)
theory Dispatch
  imports Commands Replication Persistence Stats Buffer
begin

text \<open>
  The command table and the connection handler (\<open>CommandTable::dispatch\<close>, \<open>RespHandler\<close>, and
  \<open>cmd_info\<close>, in \<open>src/commands.cpp\<close> and \<open>include/rp/commands.hpp\<close>). The state is the \<open>world\<close>
  everything on the event-loop thread shares. What \<open>ClientLink::send\<close> pushes is collected in
  \<open>w_sent\<close>; bytes pushed to the connection whose input is being handled go to its own output
  buffer, in order with the replies, as both backends hand that buffer to the handler.
\<close>

section \<open>State\<close>

record world =
  w_store :: store
  w_pers :: "persistence option"
  w_repl :: "replication option"
  w_stats :: stats
  w_fs :: fs
  w_sent :: sends

text \<open>A world without persistence and replication.\<close>

definition bare_world :: "store \<Rightarrow> fs \<Rightarrow> world" where
  "bare_world s fs = \<lparr>w_store = s, w_pers = None, w_repl = None, w_stats = stats_new, w_fs = fs, w_sent = []\<rparr>"

section \<open>INFO\<close>

definition cmd_info :: "nat \<Rightarrow> world \<Rightarrow> string \<times> world" where
  "cmd_info uptime w =
     (let expiry = s_stats (w_store w);
          (keys, s1) = store_size (w_store w)
      in (reply_bulk
            (stats_to_info uptime (w_stats w) @
             info_line ''expired_keys'' (expired_lazy expiry + expired_active expiry) @
             info_line ''expired_keys_lazy'' (expired_lazy expiry) @
             info_line ''expired_keys_active'' (expired_active expiry) @
             info_line ''active_expire_cycles'' (cycles expiry) @
             info_line ''active_expire_passes'' (passes expiry) @
             (case w_pers w of Some p \<Rightarrow> kCrlf @ ''# Persistence'' @ kCrlf @ pers_info_section p | None \<Rightarrow> []) @
             (case w_repl w of Some r \<Rightarrow> kCrlf @ ''# Replication'' @ kCrlf @ repl_info_section r | None \<Rightarrow> []) @
             kCrlf @ ''# Keyspace'' @ kCrlf @
             ''db0:keys='' @ to_string keys @
             '',expires='' @ to_string_nat (store_expires_size (w_store w)) @
             '',tracked='' @ to_string_nat (store_raw_size (w_store w)) @ kCrlf),
          w\<lparr>w_store := s1\<rparr>))"

section \<open>dispatch\<close>

definition cmd_replconf :: "env \<Rightarrow> args \<Rightarrow> link option \<Rightarrow> world \<Rightarrow> command_result \<times> world" where
  "cmd_replconf e a link w =
     (case w_repl w of
        None \<Rightarrow> (clean reply_ok, w)
      | Some r \<Rightarrow>
          if length a \<ge> 3 then
            (let sub = upper (a ! 1)
             in if sub = ''ACK''
                then (let offset = (case to_int64 (a ! 2) of Some n \<Rightarrow> n | None \<Rightarrow> 0)
                      in (clean [], w\<lparr>w_repl := Some (on_replica_ack (e_now e) link offset r)\<rparr>))
                else if sub = ''LISTENING-PORT''
                then (case to_int64 (a ! 2) of
                        Some port \<Rightarrow>
                          if port > 0 \<and> port \<le> 65535
                          then (clean reply_ok, w\<lparr>w_repl := Some (set_replica_port link (nat port) r)\<rparr>)
                          else (clean reply_ok, w)
                      | None \<Rightarrow> (clean reply_ok, w))
                else (clean reply_ok, w))
          else (clean reply_ok, w))"

definition cmd_psync :: "env \<Rightarrow> link option \<Rightarrow> world \<Rightarrow> command_result \<times> world" where
  "cmd_psync e link w =
     (case w_repl w of
        None \<Rightarrow> (clean (reply_error ''ERR replication is not enabled''), w)
      | Some r \<Rightarrow>
          (let (r1, s1, out) = start_full_resync (e_now e) (e_peer e) link r (w_store w)
           in (clean [], w\<lparr>w_repl := Some r1, w_store := s1, w_sent := w_sent w @ out\<rparr>)))"

definition cmd_replicaof :: "args \<Rightarrow> world \<Rightarrow> command_result \<times> world" where
  "cmd_replicaof a w =
     (if length a \<noteq> 3 then (clean (reply_wrong_arity ''replicaof''), w)
      else
        (case w_repl w of
           None \<Rightarrow> (clean (reply_error ''ERR replication is not enabled''), w)
         | Some r \<Rightarrow>
             if iequals (a ! 1) ''NO'' \<and> iequals (a ! 2) ''ONE''
             then (clean reply_ok, w\<lparr>w_repl := Some (stop_replication r)\<rparr>)
             else
               (case to_int64 (a ! 2) of
                  None \<Rightarrow> (clean (reply_error ''ERR Invalid master port''), w)
                | Some port \<Rightarrow>
                    if port \<le> 0 \<or> port > 65535 then (clean (reply_error ''ERR Invalid master port''), w)
                    else
                      (case replicaof (a ! 1) (nat port) r of
                         (Some err, r1) \<Rightarrow> (clean (reply_error (''ERR '' @ err)), w\<lparr>w_repl := Some r1\<rparr>)
                       | (None, r1) \<Rightarrow> (clean reply_ok, w\<lparr>w_repl := Some r1\<rparr>)))))"

definition cmd_persistence :: "env \<Rightarrow> string \<Rightarrow> world \<Rightarrow> string \<times> world" where
  "cmd_persistence e name w =
     (case w_pers w of
        None \<Rightarrow> (reply_error ''ERR persistence is disabled on this server'', w)
      | Some p \<Rightarrow>
          (let (err, p1, s1, fs1) =
                 (if name = ''SAVE'' then pers_save e p (w_store w) (w_fs w)
                  else if name = ''BGSAVE''
                  then (let (err, p1, s1) = background_save (e_now e) p (w_store w) in (err, p1, s1, w_fs w))
                  else pers_rewrite_aof (e_io e) (e_io2 e) p (w_store w) (w_fs w));
               w1 = w\<lparr>w_pers := Some p1, w_store := s1, w_fs := fs1\<rparr>
           in case err of
                Some m \<Rightarrow> (reply_error (''ERR '' @ m), w1)
              | None \<Rightarrow>
                  if name = ''SAVE'' then (reply_ok, w1)
                  else if name = ''BGSAVE'' then (reply_simple ''Background saving started'', w1)
                  else (reply_simple ''Background append only file rewriting started'', w1)))"

definition unknown_command :: "args \<Rightarrow> string" where
  "unknown_command a =
     reply_error (''ERR unknown command '' @ [CHR 0x27] @ hd a @ [CHR 0x27] @
       '', with args beginning with: '' @
       concat (map (\<lambda>x. [CHR 0x27] @ x @ [CHR 0x27] @ '' '') (take 3 (tl a))))"

definition readonly_error :: string where
  "readonly_error =
     reply_error (''READONLY You can'' @ [CHR 0x27] @ ''t write against a read only replica.'')"

definition refused_on_replica :: "link option \<Rightarrow> string \<Rightarrow> world \<Rightarrow> bool" where
  "refused_on_replica link name w \<longleftrightarrow>
     link \<noteq> None \<and> (case w_repl w of Some r \<Rightarrow> is_replica r | None \<Rightarrow> False) \<and> is_write_command name"

definition dispatch :: "env \<Rightarrow> args \<Rightarrow> link option \<Rightarrow> world \<Rightarrow> command_result \<times> world" where
  "dispatch e a link w =
     (if a = [] then (clean [], w)
      else
        (let name = upper (hd a)
         in if refused_on_replica link name w then (clean readonly_error, w)
            else if name = ''REPLCONF'' then cmd_replconf e a link w
            else if name = ''PSYNC'' then cmd_psync e link w
            else if name = ''REPLICAOF'' \<or> name = ''SLAVEOF'' then cmd_replicaof a w
            else
              (case store_command name a (w_store w) of
                 Some (r, s1) \<Rightarrow>
                   (if cr_dirty r \<and> cr_propagate r = [] then r\<lparr>cr_propagate := a\<rparr> else r, w\<lparr>w_store := s1\<rparr>)
               | None \<Rightarrow>
                   if name = ''SAVE'' \<or> name = ''BGSAVE'' \<or> name = ''BGREWRITEAOF''
                   then (let (r, w1) = cmd_persistence e name w in (clean r, w1))
                   else if name = ''INFO'' then (let (r, w1) = cmd_info (e_uptime e) w in (clean r, w1))
                   else if name = ''COMMAND'' then (clean reply_empty_array, w)
                   else if name = ''SELECT'' then (clean reply_ok, w)
                   else if name = ''QUIT'' then (clean reply_ok, w)
                   else (clean (unknown_command a), w))))"

definition apply_silently :: "env \<Rightarrow> args \<Rightarrow> world \<Rightarrow> world" where
  "apply_silently e a w = snd (dispatch e a None w)"

section \<open>on_data\<close>

text \<open>The hook \<open>main\<close> installs: the log first, then the replicas.\<close>

definition propagate_hook :: "args \<Rightarrow> world \<Rightarrow> world" where
  "propagate_hook as w =
     (let w1 = (case w_pers w of Some p \<Rightarrow> w\<lparr>w_pers := Some (pers_on_write as p)\<rparr> | None \<Rightarrow> w)
      in case w_repl w1 of
           Some r \<Rightarrow> (let (r1, out) = repl_propagate as r in w1\<lparr>w_repl := Some r1, w_sent := w_sent w1 @ out\<rparr>)
         | None \<Rightarrow> w1)"

definition handler_on_disconnect :: "link option \<Rightarrow> world \<Rightarrow> world" where
  "handler_on_disconnect link w =
     (case w_repl w of Some r \<Rightarrow> w\<lparr>w_repl := Some (repl_on_disconnect link r)\<rparr> | None \<Rightarrow> w)"

text \<open>Move what was pushed to the connection itself to its output buffer.\<close>

definition own_sends :: "link option \<Rightarrow> world \<Rightarrow> buffer \<Rightarrow> world \<times> buffer" where
  "own_sends link w out =
     (w\<lparr>w_sent := filter (\<lambda>x. Some (fst x) \<noteq> link) (w_sent w)\<rparr>,
      foldl (\<lambda>b x. buf_append b (snd x)) out (filter (\<lambda>x. Some (fst x) = link) (w_sent w)))"

definition handle_command :: "env \<Rightarrow> link option \<Rightarrow> args \<Rightarrow> world \<Rightarrow> buffer \<Rightarrow> world \<times> buffer" where
  "handle_command e link a w out =
     (let (outcome, w1) = dispatch e a link w;
          (w2, out2) = own_sends link w1 out;
          out3 = buf_append out2 (cr_reply outcome)
      in if cr_dirty outcome
         then own_sends link (propagate_hook (cr_propagate outcome) w2) out3
         else (w2, out3))"

lemma buf_consume_progress:
  assumes "resp_frame (buf_readable inb) = Request a n"
  shows "buf_size (buf_consume inb n) < buf_size inb"
proof -
  have "0 < n" "n \<le> buf_size inb"
    using resp_frame_progress [OF assms] by (auto simp: buf_readable_def)
  then show ?thesis by (auto simp: buf_size_def buf_consume_def buf_clear_def Let_def)
qed

text \<open>\<open>es\<close> are the environments of the commands to come.\<close>

function on_data :: "env stream \<Rightarrow> link option \<Rightarrow> world \<Rightarrow> buffer \<Rightarrow> buffer \<Rightarrow> nat \<Rightarrow>
    env stream \<times> world \<times> buffer \<times> buffer \<times> nat" where
  "on_data es link w inb out handled =
     (case resp_frame (buf_readable inb) of
        Wait \<Rightarrow> (es, w, inb, out, handled)
      | Broken msg \<Rightarrow> (es, w, buf_clear inb, buf_append out (reply_error msg), handled)
      | Request a n \<Rightarrow>
          if a = [] then on_data es link w (buf_consume inb n) out handled
          else
            (let (w1, out1) = handle_command (shd es) link a w out
             in on_data (stl es) link w1 (buf_consume inb n) out1 (handled + 1)))"
  by pat_completeness auto
termination
  by (relation "measure (\<lambda>(es, link, w, inb, out, handled). buf_size inb)")
     (simp_all add: buf_consume_progress)

declare on_data.simps [simp del]

section \<open>What dispatch does to the keyspace\<close>

lemma store_command_dirty:
  assumes "store_command name a s = Some (r, s')" "cr_dirty r" "a \<noteq> []" "name = upper (hd a)"
  shows "is_write_command name \<and> cr_propagate r \<noteq> [] \<and> is_write_command (upper (hd (cr_propagate r)))"
proof -
  have "is_write_command ''SET''" "is_write_command ''PEXPIREAT''" by (simp_all add: is_write_command_def)
  then show ?thesis
    using assms(1) unfolding store_command_def
    by (elim if_some_elim)
       (use assms(2-4) in \<open>auto simp: as_clean_def cmd_set_def cmd_del_def cmd_expire_def cmd_persist_def
          cmd_flushall_def set_propagate_def case_prod_unfold Let_def is_write_command_def
          split: sum.splits option.splits if_splits\<close>)
qed

text \<open>The store after a dispatch that is not a command on the keyspace.\<close>

definition same_keys :: "int \<Rightarrow> store \<Rightarrow> store \<Rightarrow> bool" where
  "same_keys t s s' \<longleftrightarrow> store_inv s' \<and> frozen t s' \<and> (\<forall>u \<ge> t. view u s' = view u s)"

lemma same_keys_snapshot:
  "frozen t s \<Longrightarrow> store_inv s \<Longrightarrow> same_keys t s s" "frozen t s \<Longrightarrow> store_inv s \<Longrightarrow> same_keys t s (snd (store_snapshot s))"
  "frozen t s \<Longrightarrow> store_inv s \<Longrightarrow> same_keys t s (snd (store_size s))"
  by (simp_all add: same_keys_def)
     (simp_all add: store_snapshot_def store_size_def case_prod_unfold Let_def frozen_simps)

lemma same_keys_pers:
  assumes "frozen t s" "store_inv s"
  shows "same_keys t s (fst (snd (snd (pers_save e p s fs))))"
    and "same_keys t s (snd (snd (background_save now p s)))"
    and "same_keys t s (fst (snd (snd (pers_rewrite_aof io io2 p s fs))))"
  using same_keys_snapshot [OF assms]
  by (simp_all add: pers_save_def background_save_def pers_rewrite_aof_def case_prod_unfold Let_def split: option.split)

lemma same_keys_admin:
  assumes "frozen t (w_store w)" "store_inv (w_store w)"
  shows "same_keys t (w_store w) (w_store (snd (cmd_replconf e a link w)))"
    and "same_keys t (w_store w) (w_store (snd (cmd_psync e link w)))"
    and "same_keys t (w_store w) (w_store (snd (cmd_replicaof a w)))"
    and "same_keys t (w_store w) (w_store (snd (cmd_persistence e name w)))"
    and "same_keys t (w_store w) (w_store (snd (cmd_info uptime w)))"
  using same_keys_snapshot [OF assms] same_keys_pers [OF assms]
  by (simp_all add: cmd_replconf_def cmd_psync_def cmd_replicaof_def cmd_persistence_def cmd_info_def
      start_full_resync_def case_prod_unfold Let_def split: option.split)

lemma admin_clean [simp]:
  "cr_dirty (fst (cmd_replconf e a link w)) = False" "cr_dirty (fst (cmd_psync e link w)) = False"
  "cr_dirty (fst (cmd_replicaof a w)) = False"
  by (simp_all add: cmd_replconf_def cmd_psync_def cmd_replicaof_def case_prod_unfold Let_def split: option.split)

lemma dispatch_cases:
  assumes "a \<noteq> []"
  obtains (command) r s1 where "store_command (upper (hd a)) a (w_store w) = Some (r, s1)"
      "\<not> refused_on_replica link (upper (hd a)) w" "dispatch e a link w = (r, w\<lparr>w_store := s1\<rparr>)"
  | (other) "\<not> cr_dirty (fst (dispatch e a link w))"
      "\<And>t. frozen t (w_store w) \<Longrightarrow> store_inv (w_store w) \<Longrightarrow>
         same_keys t (w_store w) (w_store (snd (dispatch e a link w)))"
proof (cases "store_command (upper (hd a)) a (w_store w)")
  case None
  show ?thesis
    by (rule other) (use assms None same_keys_admin same_keys_snapshot(1) in
        \<open>auto simp: dispatch_def case_prod_unfold Let_def\<close>)
next
  case (Some res)
  obtain r s1 where r: "store_command (upper (hd a)) a (w_store w) = Some (r, s1)" using Some by (cases res) auto
  show ?thesis
  proof (cases "refused_on_replica link (upper (hd a)) w \<or> upper (hd a) = ''REPLCONF'' \<or> upper (hd a) = ''PSYNC'' \<or>
      upper (hd a) = ''REPLICAOF'' \<or> upper (hd a) = ''SLAVEOF''")
    case True
    show ?thesis
      by (rule other) (use assms True same_keys_admin same_keys_snapshot(1) in
        \<open>auto simp: dispatch_def case_prod_unfold Let_def\<close>)
  next
    case False
    have "\<not> (cr_dirty r \<and> cr_propagate r = [])" using store_command_dirty [OF r _ assms refl] by blast
    with False r assms have "dispatch e a link w = (r, w\<lparr>w_store := s1\<rparr>)" by (simp add: dispatch_def Let_def)
    with r False show ?thesis by (intro command) auto
  qed
qed

lemma dispatch_tidy:
  assumes "frozen t (w_store w)" "store_inv (w_store w)"
  shows "tidy t (w_store w) (fst (dispatch e a link w), w_store (snd (dispatch e a link w)))"
proof (cases "a = []")
  case True
  then show ?thesis using assms by (simp add: dispatch_def tidy_def)
next
  case False
  then show ?thesis
  proof (cases rule: dispatch_cases [of a w link e])
    case (command r s1)
    then show ?thesis using store_command_tidy [OF assms command(1)] by simp
  next
    case other
    then show ?thesis using other(2) [OF assms] by (simp add: tidy_def same_keys_def)
  qed
qed

lemma logged_apply:
  assumes "p \<noteq> []" "is_write_command (upper (hd p))"
  shows "apply_silently e p w = w\<lparr>w_store := apply_command p (w_store w)\<rparr>"
proof -
  have "store_command (upper (hd p)) p (w_store w) \<noteq> None" "\<not> refused_on_replica None (upper (hd p)) w"
    using assms(2) by (auto simp: is_write_command_def store_command_def refused_on_replica_def)
  moreover have "upper (hd p) \<noteq> ''REPLCONF''" "upper (hd p) \<noteq> ''PSYNC''" "upper (hd p) \<noteq> ''REPLICAOF''"
    "upper (hd p) \<noteq> ''SLAVEOF''" using assms(2) by (auto simp: is_write_command_def)
  ultimately show ?thesis
    using assms(1) by (auto simp: apply_silently_def dispatch_def apply_command_def Let_def)
qed

section \<open>Requests are handled once, in order\<close>

text \<open>The state a connection's input acts on, apart from the input buffer.\<close>

type_synonym data_state = "env stream \<times> world \<times> buffer \<times> nat"

definition data_handle :: "link option \<Rightarrow> data_state \<Rightarrow> args \<Rightarrow> data_state" where
  "data_handle link = (\<lambda>(es, w, out, handled) a.
     if a = [] then (es, w, out, handled)
     else (let (w1, out1) = handle_command (shd es) link a w out in (stl es, w1, out1, handled + 1)))"

definition unread_result :: "env stream \<times> world \<times> buffer \<times> buffer \<times> nat \<Rightarrow> data_state \<times> string" where
  "unread_result = (\<lambda>(es, w, inb, out, handled). ((es, w, out, handled), buf_readable inb))"

definition data_run :: "link option \<Rightarrow> data_state \<Rightarrow> string \<Rightarrow> data_state \<times> string" where
  "data_run link = (\<lambda>(es, w, out, handled) inp.
     unread_result (on_data es link w \<lparr>buf_data = inp, buf_pos = 0\<rparr> out handled))"

lemma on_data_inv: "buf_inv inb \<Longrightarrow> buf_inv (fst (snd (snd (on_data es link w inb out handled))))"
proof (induction es link w inb out handled rule: on_data.induct)
  case (1 es link w inb out handled)
  show ?case
    by (subst on_data.simps) (use 1 in \<open>auto split: framed.split prod.split\<close>)
qed

lemma on_data_content:
  assumes "buf_inv b1" "buf_inv b2" "buf_readable b1 = buf_readable b2"
  shows "unread_result (on_data es link w b1 out handled) = unread_result (on_data es link w b2 out handled)"
  using assms
proof (induction es link w b1 out handled arbitrary: b2 rule: on_data.induct)
  case (1 es link w b1 out handled)
  show ?case
  proof (cases "resp_frame (buf_readable b1)")
    case (Request a n)
    have c: "buf_inv (buf_consume b1 n)" "buf_inv (buf_consume b2 n)"
      "buf_readable (buf_consume b1 n) = buf_readable (buf_consume b2 n)"
      using "1.prems" by simp_all
    show ?thesis
    proof (cases "a = []")
      case True
      with Request "1.IH"(1) [OF Request True c] "1.prems"(3) show ?thesis
        by (subst (1 2) on_data.simps) simp
    next
      case False
      obtain w1 out1 where h: "handle_command (shd es) link a w out = (w1, out1)" by fastforce
      with Request False "1.IH"(2) [OF Request False h [symmetric] refl c] "1.prems"(3) show ?thesis
        by (subst (1 2) on_data.simps) simp
    qed
  qed (use "1.prems" in \<open>subst (1 2) on_data.simps, simp add: unread_result_def\<close>)+
qed

lemma on_data_run:
  assumes "buf_inv inb"
  shows "unread_result (on_data es link w inb out handled) = data_run link (es, w, out, handled) (buf_readable inb)"
  unfolding data_run_def
  by simp (rule on_data_content, use assms in \<open>simp_all add: buf_inv_def buf_readable_def buf_size_def\<close>)

lemma data_run_take:
  assumes "resp_frame inp = Request a n"
  shows "data_run link st inp = data_run link (data_handle link st a) (drop n inp)"
proof -
  obtain es w out handled where st: "st = (es, w, out, handled)" by (metis prod_cases4)
  let ?b = "\<lparr>buf_data = inp, buf_pos = 0\<rparr>"
  have b: "buf_inv ?b" "buf_readable ?b = inp" by (simp_all add: buf_inv_def buf_readable_def buf_size_def)
  then have c: "buf_inv (buf_consume ?b n)" "buf_readable (buf_consume ?b n) = drop n inp" by simp_all
  have "unread_result (on_data es link w ?b out handled) =
     (let (es1, w1, out1, h1) = data_handle link st a in unread_result (on_data es1 link w1 (buf_consume ?b n) out1 h1))"
    by (subst on_data.simps) (simp add: b assms st data_handle_def split: prod.split)
  also have "\<dots> = data_run link (data_handle link st a) (drop n inp)"
    using on_data_run [OF c(1)] c(2) by (simp split: prod.split)
  finally show ?thesis by (simp add: data_run_def st)
qed

lemma data_run_wait: "resp_frame inp = Wait \<Longrightarrow> data_run link st inp = (st, inp)"
  by (cases st) (simp add: data_run_def on_data.simps unread_result_def buf_readable_def buf_size_def)

interpretation conn: stream_consumer resp_frame resp_array "\<lambda>as. as" wire_ok
  "data_run link" "data_handle link" for link
  by unfold_locales (simp_all add: data_run_take data_run_wait)

text \<open>A piece of input arrives and is handled.\<close>

definition receive :: "link option \<Rightarrow> data_state \<times> buffer \<Rightarrow> string \<Rightarrow> data_state \<times> buffer" where
  "receive link = (\<lambda>((es, w, out, handled), inb) piece.
     (let (es1, w1, inb1, out1, h1) = on_data es link w (buf_append inb piece) out handled
      in ((es1, w1, out1, h1), inb1)))"

lemma receive_feed:
  assumes "buf_inv inb" "foldl (receive link) (st, inb) pieces = (st', inb')"
  shows "buf_inv inb' \<and> (st', buf_readable inb') = conn.feed link st (buf_readable inb) pieces"
  using assms
proof (induction pieces arbitrary: st inb)
  case (Cons x pieces)
  obtain es w out h where st: "st = (es, w, out, h)" by (metis prod_cases4)
  obtain es1 w1 inb1 out1 h1 where d: "on_data es link w (buf_append inb x) out h = (es1, w1, inb1, out1, h1)"
    by (metis prod_cases5)
  have i: "buf_inv (buf_append inb x)" using Cons.prems(1) by simp
  have inv1: "buf_inv inb1" using on_data_inv [OF i, of es link w out h] d by simp
  have "data_run link st (buf_readable inb @ x) = ((es1, w1, out1, h1), buf_readable inb1)"
    using on_data_run [OF i, of es link w out h] d Cons.prems(1) by (simp add: unread_result_def st)
  moreover have "foldl (receive link) ((es1, w1, out1, h1), inb1) pieces = (st', inb')"
    using Cons.prems(2) d by (simp add: receive_def st)
  ultimately show ?case using Cons.IH [OF inv1] by simp
qed simp

lemma conn_stream: "resp.stream = (\<lambda>cs. concat (map aof_encode cs))"
  by (simp add: fun_eq_iff resp.stream_def aof_encode_eq)

lemma conn_handle_all: "conn.handle_all link st cs = foldl (data_handle link) st cs"
  by (simp add: conn.handle_all_def)

section \<open>Properties\<close>

text \<open>
  C6: However the network cuts a pipeline of requests into pieces, every request is handled exactly
  once and in order: the final state, replies and counters are those of handling the requests one
  after the other, and no input is left.
\<close>
theorem requests_handled_in_order:
  assumes "\<forall>c \<in> set cs. wire_ok c" "concat pieces = concat (map aof_encode cs)"
  shows "fst (foldl (receive link) (st, buf_new) pieces) = foldl (data_handle link) st cs \<and>
    buf_readable (snd (foldl (receive link) (st, buf_new) pieces)) = []"
proof -
  obtain st' inb' where r: "foldl (receive link) (st, buf_new) pieces = (st', inb')" by fastforce
  have "conn.feed link st [] pieces = (foldl (data_handle link) st cs, [])"
    using conn.feed_pieces [OF assms(1), of pieces link st] assms(2) by (simp add: conn_stream conn_handle_all)
  with receive_feed [OF _ r] r show ?thesis by simp
qed

definition quiet_env :: env where
  "quiet_env = \<lparr>e_now = 5, e_now2 = 5, e_io = good_io, e_io2 = good_io, e_io3 = good_io, e_uptime = 0, e_peer = ''p''\<rparr>"

theorem requests_handled_in_order_witness:
  "buf_readable (snd (foldl (receive None) ((sconst quiet_env, bare_world (sample_store 4 5) Map.empty, buf_new, 0), buf_new)
     [take 5 (aof_encode [''PING'']), drop 5 (aof_encode [''PING''])])) = []"
  using requests_handled_in_order [of "[[''PING'']]" "[take 5 (aof_encode [''PING'']), drop 5 (aof_encode [''PING''])]"
      None "(sconst quiet_env, bare_world (sample_store 4 5) Map.empty, buf_new, 0)"]
  by (simp add: wire_ok_def kMaxMultibulkLength_def kMaxBulkLength_def)

text \<open>
  C38: A malformed request after a pipeline of good ones: the good ones are handled, then exactly one
  error reply is written, the rest of the input is discarded and nothing else changes.
\<close>
theorem malformed_request_stops:
  assumes "\<forall>c \<in> set cs. wire_ok c" "resp_frame bad = Broken msg"
    and "buf_inv inb" "buf_readable inb = concat (map aof_encode cs) @ bad"
    and "foldl (data_handle link) (es, w, out, n) cs = (es1, w1, out1, n1)"
  shows "unread_result (on_data es link w inb out n) = ((es1, w1, buf_append out1 (reply_error msg), n1), [])"
proof -
  have "unread_result (on_data es link w inb out n) = data_run link (es1, w1, out1, n1) bad"
    using on_data_run [OF assms(3)] conn.run_prefix [OF assms(1), of link "(es, w, out, n)" bad] assms(4,5)
    by (simp add: conn_stream conn_handle_all)
  also have "\<dots> = ((es1, w1, buf_append out1 (reply_error msg), n1), [])"
    using assms(2) by (simp add: data_run_def on_data.simps unread_result_def buf_readable_def buf_size_def buf_clear_def)
  finally show ?thesis .
qed

theorem malformed_request_stops_witness:
  "snd (unread_result (on_data (sconst quiet_env) None (bare_world (sample_store 4 5) Map.empty)
     \<lparr>buf_data = ''*x'' @ kCrlf, buf_pos = 0\<rparr> buf_new 0)) = []"
proof -
  have "case resp_frame (''*x'' @ kCrlf) of Broken msg \<Rightarrow> True | _ \<Rightarrow> False" by code_simp
  then obtain msg where "resp_frame (''*x'' @ kCrlf) = Broken msg" by (auto split: framed.splits)
  from malformed_request_stops [of "[]", OF _ this] show ?thesis
    by (simp add: buf_inv_def buf_readable_def buf_size_def)
qed

text \<open>
  C39: A replica's keyspace cannot be changed by its clients: whatever command a client sends while
  the server replicates a master, nothing is logged or propagated and every reader sees, now and
  later, what it saw before.
\<close>
theorem replica_is_read_only:
  assumes "w_repl w = Some r" "is_replica r" "frozen t (w_store w)" "store_inv (w_store w)" "t \<le> u"
  shows "\<not> cr_dirty (fst (dispatch e a (Some l) w)) \<and>
    view u (w_store (snd (dispatch e a (Some l) w))) = view u (w_store w)"
proof -
  have "\<not> cr_dirty (fst (dispatch e a (Some l) w))"
  proof (cases "a = []")
    case False
    then show ?thesis
    proof (cases rule: dispatch_cases [of a w "Some l" e])
      case (command x s1)
      then have "\<not> is_write_command (upper (hd a))" using assms(1,2) by (simp add: refused_on_replica_def)
      then show ?thesis using store_command_dirty [OF command(1) _ False refl] command(3) by auto
    qed simp
  qed (simp add: dispatch_def)
  with dispatch_tidy [OF assms(3,4), of e a "Some l"] assms(5) show ?thesis by (simp add: tidy_def)
qed

theorem replica_is_read_only_witness:
  "view 9 (w_store (snd (dispatch quiet_env [''FLUSHALL''] (Some 3)
     ((bare_world (store_set (sample_store 4 5) ''k'' ''v'' kNoExpiry) Map.empty)
        \<lparr>w_repl := Some ((repl_new ''id'')\<lparr>r_of_port := 6379\<rparr>)\<rparr>)))) = [''k'' \<mapsto> (''v'', None)]"
  using replica_is_read_only [of "(bare_world (store_set (sample_store 4 5) ''k'' ''v'' kNoExpiry) Map.empty)
        \<lparr>w_repl := Some ((repl_new ''id'')\<lparr>r_of_port := 6379\<rparr>)\<rparr>" "(repl_new ''id'')\<lparr>r_of_port := 6379\<rparr>" 5 9
        quiet_env "[''FLUSHALL'']" 3]
  by (simp add: is_replica_def bare_world_def visible_def)

end
