(* ===== verification/Boot.thy ===== *)
theory Boot
  imports Dispatch
begin

text \<open>
  Starting and stopping the process (\<open>src/main.cpp\<close>, \<open>Persistence::load\<close> of
  \<open>src/persistence.cpp\<close>, \<open>ServerConfig\<close> of \<open>include/rp/server.hpp\<close>): the command line, the
  restoration of the keyspace before any client is served, the wiring of the components, the
  periodic task and the shutdown.
\<close>

section \<open>Configuration and command line\<close>

record server_config =
  cfg_bind_address :: string
  cfg_port :: nat
  cfg_backlog :: nat
  cfg_max_output_buffer :: nat
  cfg_read_chunk :: nat
  cfg_tcp_nodelay :: bool
  cfg_cron_interval_ms :: int

definition default_server_config :: server_config where
  "default_server_config =
     \<lparr>cfg_bind_address = ''0.0.0.0'', cfg_port = 6379, cfg_backlog = 511,
      cfg_max_output_buffer = 64 * 1024 * 1024, cfg_read_chunk = 16 * 1024, cfg_tcp_nodelay = True,
      cfg_cron_interval_ms = 100\<rparr>"

datatype backend = kAsio | kPoll

record main_config =
  mc_server :: server_config
  mc_pers :: persistence_config
  mc_backend :: backend
  mc_replicaof_host :: string
  mc_replicaof_port :: nat

definition main_config_new :: main_config where
  "main_config_new =
     \<lparr>mc_server = default_server_config, mc_pers = default_persistence_config, mc_backend = kAsio,
      mc_replicaof_host = [], mc_replicaof_port = 0\<rparr>"

text \<open>
  \<open>std::stoi\<close> and \<open>std::stoll\<close>: leading white space, a sign, digits, and anything after them; an
  exception when there is no digit or the value does not fit.
\<close>

definition decimal_prefix :: "string \<Rightarrow> int option" where
  "decimal_prefix s =
     (let s1 = dropWhile isspace s;
          sgd = (s1 \<noteq> [] \<and> (hd s1 = CHR ''-'' \<or> hd s1 = CHR ''+''));
          digits = takeWhile isdigit (if sgd then tl s1 else s1);
          v = int (dec_value 0 digits)
      in if digits = [] then None else Some (if sgd \<and> hd s1 = CHR ''-'' then - v else v))"

definition stoi :: "string \<Rightarrow> int option" where
  "stoi s = Option.bind (decimal_prefix s) (\<lambda>v. if - 2147483648 \<le> v \<and> v \<le> 2147483647 then Some v else None)"

definition stoll :: "string \<Rightarrow> int option" where
  "stoll s = Option.bind (decimal_prefix s) (\<lambda>v. if in_int64 v then Some v else None)"

text \<open>\<open>Usage\<close> prints the usage and exits with 1; \<open>Uncaught\<close> is an exception outside the \<open>try\<close>.\<close>

datatype start = Usage | Uncaught | Configured main_config

definition to_port :: "int \<Rightarrow> nat" where
  "to_port v = nat (v mod 65536)"

fun parse_args :: "args \<Rightarrow> main_config \<Rightarrow> start" where
  "parse_args [] c = Configured c"
| "parse_args (arg # rest) c =
     (if arg = ''--port'' then
        (case rest of
           x # rest1 \<Rightarrow>
             (case stoi x of
                Some v \<Rightarrow> parse_args rest1 (c\<lparr>mc_server := (mc_server c)\<lparr>cfg_port := to_port v\<rparr>\<rparr>)
              | None \<Rightarrow> Uncaught)
         | [] \<Rightarrow> Usage)
      else if arg = ''--bind'' then
        (case rest of
           x # rest1 \<Rightarrow> parse_args rest1 (c\<lparr>mc_server := (mc_server c)\<lparr>cfg_bind_address := x\<rparr>\<rparr>)
         | [] \<Rightarrow> Usage)
      else if arg = ''--backend'' then
        (case rest of
           x # rest1 \<Rightarrow>
             if x = ''poll'' then parse_args rest1 (c\<lparr>mc_backend := kPoll\<rparr>)
             else if x = ''asio'' then parse_args rest1 (c\<lparr>mc_backend := kAsio\<rparr>)
             else Usage
         | [] \<Rightarrow> Usage)
      else if arg = ''--dir'' then
        (case rest of
           x # rest1 \<Rightarrow> parse_args rest1 (c\<lparr>mc_pers := (mc_pers c)\<lparr>pc_dir := x\<rparr>\<rparr>)
         | [] \<Rightarrow> Usage)
      else if arg = ''--dbfilename'' then
        (case rest of
           x # rest1 \<Rightarrow> parse_args rest1 (c\<lparr>mc_pers := (mc_pers c)\<lparr>pc_dbfilename := x\<rparr>\<rparr>)
         | [] \<Rightarrow> Usage)
      else if arg = ''--save'' then
        (case rest of
           x # rest1 \<Rightarrow>
             (case stoi x of
                Some v \<Rightarrow>
                  (case rest1 of
                     y # rest2 \<Rightarrow>
                       (case stoll y of
                          Some n \<Rightarrow>
                            parse_args rest2 (c\<lparr>mc_pers := (mc_pers c)\<lparr>pc_save_seconds := v, pc_save_changes := n\<rparr>\<rparr>)
                        | None \<Rightarrow> Uncaught)
                   | [] \<Rightarrow> Usage)
              | None \<Rightarrow> Uncaught)
         | [] \<Rightarrow> Usage)
      else if arg = ''--appendonly'' then
        (case rest of
           x # rest1 \<Rightarrow> parse_args rest1 (c\<lparr>mc_pers := (mc_pers c)\<lparr>pc_aof_enabled := (x = ''yes'')\<rparr>\<rparr>)
         | [] \<Rightarrow> Usage)
      else if arg = ''--replicaof'' then
        (case rest of
           x # y # rest2 \<Rightarrow>
             (case stoi y of
                Some v \<Rightarrow> parse_args rest2 (c\<lparr>mc_replicaof_host := x, mc_replicaof_port := to_port v\<rparr>)
              | None \<Rightarrow> Uncaught)
         | _ \<Rightarrow> Usage)
      else if arg = ''--appendfsync'' then
        (case rest of
           x # rest1 \<Rightarrow>
             (case parse_fsync_policy x of
                (policy, ok) \<Rightarrow>
                  if \<not> ok then Usage
                  else parse_args rest1 (c\<lparr>mc_pers := (mc_pers c)\<lparr>pc_fsync_policy := policy\<rparr>\<rparr>))
         | [] \<Rightarrow> Usage)
      else Usage)"

section \<open>Restoring the keyspace\<close>

text \<open>
  \<open>None\<close> when reading the snapshot does not end; otherwise the error, if any, and the state. While
  the log is replayed the command table has neither persistence nor replication.
\<close>

definition pers_load :: "env \<Rightarrow> persistence \<Rightarrow> world \<Rightarrow> (string option \<times> persistence \<times> world) option" where
  "pers_load e p w =
     (let c = p_config p
      in if pc_aof_enabled c then
           (let r = aof_replay (aof_path c) (\<lambda>w a. apply_silently e a w) w (w_fs w)
            in case rp_error r of
                 Some msg \<Rightarrow> Some (Some msg, p, rp_state r)
               | None \<Rightarrow>
                   (let p1 = (if rp_truncated r > 0
                              then p\<lparr>p_last_error := ''recovered from a torn AOF tail ('' @
                                       to_string_nat (rp_truncated r) @ '' bytes discarded)''\<rparr>
                              else p);
                        (err, a, fs1) = aof_open (e_io e) (aof_path c) (pc_fsync_policy c) (p_aof p1) (w_fs (rp_state r))
                    in Some (err, p1\<lparr>p_aof := a\<rparr>, (rp_state r)\<lparr>w_fs := fs1\<rparr>)))
         else if \<not> pc_rdb_enabled c then Some (None, p, w)
         else
           (case rdb_load_file (rdb_path c) (w_fs w) of
              None \<Rightarrow> None
            | Some (RdbFail records msg) \<Rightarrow> Some (Some msg, p, w)
            | Some (RdbOk records) \<Rightarrow> Some (None, p, w\<lparr>w_store := foldl load_record (w_store w) records\<rparr>)))"

section \<open>Wiring\<close>

definition boot :: "env \<Rightarrow> main_config \<Rightarrow> string \<Rightarrow> store \<Rightarrow> fs \<Rightarrow> (string + world) option" where
  "boot e c replid s fs =
     (case pers_load e (pers_new (e_now e) (mc_pers c)) (bare_world s fs) of
        None \<Rightarrow> None
      | Some (Some err, p, w) \<Rightarrow> Some (Inl err)
      | Some (None, p, w) \<Rightarrow>
          (let (n, s1) = store_size (w_store w);
               r = (repl_new replid)\<lparr>r_listening_port := cfg_port (mc_server c), r_attached := True\<rparr>;
               (err, r1) = (if mc_replicaof_host c \<noteq> []
                            then replicaof (mc_replicaof_host c) (mc_replicaof_port c) r else (None, r))
           in case err of
                Some m \<Rightarrow> Some (Inl m)
              | None \<Rightarrow> Some (Inr (w\<lparr>w_store := s1, w_pers := Some p, w_repl := Some r1\<rparr>))))"

definition cron_task :: "env \<Rightarrow> world \<Rightarrow> world" where
  "cron_task e w =
     (let w1 = w\<lparr>w_store := snd (active_expire_cycle default_expiry_config (w_store w))\<rparr>
      in case w_pers w1 of
           None \<Rightarrow> w1
         | Some p \<Rightarrow>
             (let (p1, s1, fs1) = pers_cron e p (w_store w1) (w_fs w1)
              in w1\<lparr>w_pers := Some p1, w_store := s1, w_fs := fs1\<rparr>))"

definition main_shutdown :: "io_outcome \<Rightarrow> world \<Rightarrow> world" where
  "main_shutdown io w =
     (let w1 = w\<lparr>w_repl := map_option stop_replication (w_repl w)\<rparr>
      in case w_pers w1 of
           None \<Rightarrow> w1
         | Some p \<Rightarrow> (let (p1, fs1) = pers_shutdown io p (w_fs w1) in w1\<lparr>w_pers := Some p1, w_fs := fs1\<rparr>))"

end
