(* ===== verification/Recovery.thy ===== *)
theory Recovery
  imports Boot
begin

text \<open>
  The composition of the command table, the append-only file, its rewriting and the boot: what a
  process that logs its writes leaves on disk, and what a process started on those files finds. A
  run is a list of timed events on the \<open>world\<close> (\<open>world_run\<close>); the invariant \<open>recovers\<close> says that
  replaying the log at a later time \<open>T\<close> gives, from \<open>T\<close> on, the keyspace of the running process.
\<close>

section \<open>Runs of the process\<close>

datatype event = Cmd env "link option" args | Tick env | SaverDone io_outcome | Hangup "link option"

definition set_clock :: "int \<Rightarrow> world \<Rightarrow> world" where
  "set_clock t w = w\<lparr>w_store := (w_store w)\<lparr>s_clock := sconst t\<rparr>\<rparr>"

fun world_step :: "world \<Rightarrow> event \<Rightarrow> world" where
  "world_step w (Cmd e link a) = fst (handle_command e link a w buf_new)"
| "world_step w (Tick e) = cron_task e w"
| "world_step w (SaverDone io) =
     (case w_pers w of
        None \<Rightarrow> w
      | Some p \<Rightarrow> (let (p1, fs1) = saver_finish io p (w_fs w) in w\<lparr>w_pers := Some p1, w_fs := fs1\<rparr>))"
| "world_step w (Hangup link) = handler_on_disconnect link w"

fun world_run :: "world \<Rightarrow> (int \<times> event) list \<Rightarrow> world" where
  "world_run w [] = w"
| "world_run w ((t, ev) # evs) = world_run (world_step (set_clock t w) ev) evs"

section \<open>Sizes and deadlines of what is stored\<close>

text \<open>What is stored respects the limits of the protocol, and the deadlines are 64-bit numbers.\<close>

definition data_ok :: "int \<Rightarrow> store \<Rightarrow> bool" where
  "data_ok t s \<longleftrightarrow> (\<forall>k v d. view t s k = Some (v, d) \<longrightarrow>
     int (length k) \<le> kMaxBulkLength \<and> int (length v) \<le> kMaxBulkLength \<and> (\<forall>e. d = Some e \<longrightarrow> in_int64 e))"

lemma data_ok_same: "data_ok t s \<Longrightarrow> view t s' = view t s \<Longrightarrow> data_ok t s'"
  by (simp add: data_ok_def)

lemma data_ok_later:
  assumes "data_ok t s" "t \<le> t'"
  shows "data_ok t' s"
  unfolding data_ok_def
proof (intro allI impI)
  fix k v d assume "view t' s k = Some (v, d)"
  then have "view t s k = Some (v, d)"
    using view_mono [OF assms(2), of s k] by (auto split: option.splits if_splits)
  with assms(1) show "int (length k) \<le> kMaxBulkLength \<and> int (length v) \<le> kMaxBulkLength \<and>
      (\<forall>e. d = Some e \<longrightarrow> in_int64 e)" by (auto simp: data_ok_def)
qed

lemma data_ok_upd:
  assumes "data_ok t s" "view t s' = (view t s)(k := x)"
    and "\<And>v d. x = Some (v, d) \<Longrightarrow> int (length k) \<le> kMaxBulkLength \<and> int (length v) \<le> kMaxBulkLength \<and>
      (\<forall>e. d = Some e \<longrightarrow> in_int64 e)"
  shows "data_ok t s'"
  using assms by (auto simp: data_ok_def)

lemma data_ok_set:
  assumes "frozen t s" "store_inv s" "data_ok t s" "wire_ok (cr_propagate (fst (cmd_set s a))) \<or> \<not> cr_dirty (fst (cmd_set s a))"
  shows "data_ok t (snd (cmd_set s a))"
proof (cases "cr_dirty (fst (cmd_set s a))")
  case False
  then show ?thesis using tidy_set [OF assms(1,2), of a] assms(3) data_ok_same by (auto simp: tidy_def)
next
  case True
  then have n: "3 \<le> length a" using cmd_set_error(1) [OF assms(1), of a] by (cases "length a < 3") auto
  obtain so where so: "set_opts_at t (drop 3 a) = Inr so"
    using True cmd_set_error(2) [OF assms(1) n] by (cases "set_opts_at t (drop 3 a)") auto
  let ?e = "set_expire_at t (view t s) so (a ! 1)"
  have p: "cr_propagate (fst (cmd_set s a)) = set_propagate (a ! 1) (a ! 2) ?e"
    and v: "view t (snd (cmd_set s a)) = (view t s)(a ! 1 := visible t (a ! 2) ?e)"
    using True cmd_set_frozen(1,2) [OF assms(1,2) n so] by (simp_all split: if_splits)
  show ?thesis
    by (rule data_ok_upd [OF assms(3) v])
       (use assms(4) True set_expire_at_range [OF so] in \<open>auto simp: p wire_ok_def set_propagate_def visible_def split: if_splits\<close>)
qed

lemma data_ok_keep:
  assumes "data_ok t s" "view t s k = Some (v, d)"
  shows "int (length k) \<le> kMaxBulkLength \<and> int (length v) \<le> kMaxBulkLength"
  using assms by (auto simp: data_ok_def)

lemma data_ok_expire:
  assumes f: "frozen t s" and i: "store_inv s" and ok: "data_ok t s"
  shows "data_ok t (snd (cmd_expire s a seconds absolute name))"
proof (cases "expire_deadline t a seconds absolute")
  case None
  with cmd_expire_refused [OF f None, of name] ok show ?thesis by auto
next
  case (Some d)
  have v: "view t (snd (cmd_expire s a seconds absolute name)) = (view t s)(a ! 1 := (case view t s (a ! 1) of
      None \<Rightarrow> None | Some (v, _) \<Rightarrow> if d \<le> t then None else Some (v, Some d)))"
    unfolding cmd_expire_eq [OF f Some] using store_expire_at_frozen(2) [OF f i order.refl] by simp
  show ?thesis
    by (rule data_ok_upd [OF ok v])
       (use expire_deadline_range [OF Some] data_ok_keep [OF ok] in \<open>auto split: option.splits if_splits\<close>)
qed

lemma data_ok_persist:
  assumes f: "frozen t s" and i: "store_inv s" and ok: "data_ok t s"
  shows "data_ok t (snd (cmd_persist s a))"
proof (cases "length a = 2")
  case True
  then have "view t (snd (cmd_persist s a)) = (view t s)(a ! 1 := map_option (\<lambda>(v, _). (v, None)) (view t s (a ! 1)))"
    using store_persist_frozen(2) [OF f i order.refl] by (simp add: cmd_persist_def case_prod_unfold Let_def)
  from data_ok_upd [OF ok this] data_ok_keep [OF ok] show ?thesis by auto
qed (use ok in \<open>simp add: cmd_persist_def\<close>)

lemma data_ok_del:
  assumes f: "frozen t s" and i: "store_inv s" and ok: "data_ok t s"
  shows "data_ok t (snd (cmd_del s a))"
proof (cases "length a < 2")
  case False
  then have "view t (snd (cmd_del s a)) = view t s |` (- set (drop 1 a))"
    using del_loop_frozen(2) [OF f i order.refl, of "drop 1 a"] by (simp add: cmd_del_def case_prod_unfold Let_def)
  with ok show ?thesis by (auto simp: data_ok_def restrict_map_def split: if_splits)
qed (use ok in \<open>simp add: cmd_del_def\<close>)

lemma data_ok_command:
  assumes f: "frozen t s" and i: "store_inv s" and ok: "data_ok t s"
    and c: "store_command name a s = Some (r, s')" and w: "cr_dirty r \<Longrightarrow> wire_ok (cr_propagate r)"
  shows "data_ok t s'"
proof (cases "cr_dirty r")
  case False
  then show ?thesis using store_command_tidy [OF f i c] ok data_ok_same by (auto simp: tidy_def)
next
  case True
  have "(r, s') = cmd_set s a \<or> (\<exists>x y z. (r, s') = cmd_expire s a x y z) \<or> (r, s') = cmd_persist s a \<or>
      (r, s') = cmd_del s a \<or> (r, s') = cmd_flushall s a"
    using c unfolding store_command_def
    by (elim if_some_elim) (use True in \<open>auto simp: as_clean_def\<close>)
  then show ?thesis
  proof (elim disjE exE)
    assume "(r, s') = cmd_set s a"
    then show ?thesis using data_ok_set [OF f i ok, of a] w by (metis fst_conv snd_conv)
  next
    fix x y z assume "(r, s') = cmd_expire s a x y z"
    then show ?thesis using data_ok_expire [OF f i ok, of a x y z] by (metis snd_conv)
  next
    assume "(r, s') = cmd_persist s a"
    then show ?thesis using data_ok_persist [OF f i ok, of a] by (metis snd_conv)
  next
    assume "(r, s') = cmd_del s a"
    then show ?thesis using data_ok_del [OF f i ok, of a] by (metis snd_conv)
  next
    assume "(r, s') = cmd_flushall s a"
    then show ?thesis by (simp add: cmd_flushall_def data_ok_def)
  qed
qed

section \<open>The log of a running process\<close>

definition log_of :: "persistence \<Rightarrow> fs \<Rightarrow> string" where
  "log_of p fs = aof_log (p_aof p) fs"

text \<open>The log is open under its path, with the configured policy.\<close>

definition log_ready :: "persistence_config \<Rightarrow> persistence \<Rightarrow> bool" where
  "log_ready c p \<longleftrightarrow> p_config p = c \<and> pc_aof_enabled c \<and> open_at (aof_path c) (p_aof p) \<and>
     a_policy (p_aof p) = pc_fsync_policy c"

text \<open>The snapshot and its temporary file are not the log.\<close>

definition paths_ok :: "persistence_config \<Rightarrow> bool" where
  "paths_ok c \<longleftrightarrow> aof_path c \<noteq> rdb_path c \<and> (\<forall>io. aof_path c \<noteq> rdb_temp io (rdb_path c))"

definition io_fine :: "io_outcome \<Rightarrow> bool" where
  "io_fine io \<longleftrightarrow> io_open io \<and> io_write io \<and> io_rename io"

lemma write_snapshot_frame:
  assumes "paths_ok (p_config p)"
  shows "snd (write_snapshot io records p fs) (aof_path (p_config p)) = fs (aof_path (p_config p))"
  using assms by (auto simp: write_snapshot_def rdb_save_file_def paths_ok_def Let_def)

lemma aof_log_cong:
  assumes "open_at path a" "fs' path = fs path"
  shows "aof_log a fs' = aof_log a fs"
  using assms by (auto simp: aof_log_def open_at_def written_def contents_def)

lemma pers_save_log:
  assumes "log_ready c p" "paths_ok c" "pers_save e p s fs = (err, p', s', fs')"
  shows "log_ready c p' \<and> log_of p' fs' = log_of p fs"
proof -
  let ?p = "p\<lparr>p_last_save_attempt_ms := e_now e\<rparr>"
  have a: "p_config p' = p_config p" "p_aof p' = p_aof p"
    using assms(3) by (auto simp: pers_save_def case_prod_unfold Let_def split: if_splits option.splits)
  have "fs' (aof_path c) = fs (aof_path c)"
    using assms write_snapshot_frame [of ?p "e_io e" "fst (store_snapshot s)" fs]
    by (auto simp: pers_save_def log_ready_def case_prod_unfold Let_def split: if_splits option.splits)
  with assms(1) a aof_log_cong [of "aof_path c" "p_aof p" fs' fs] show ?thesis
    by (simp add: log_ready_def log_of_def)
qed

lemma background_save_log:
  assumes "background_save now p s = (err, p', s')"
  shows "log_ready c p' = log_ready c p" "log_of p' fs = log_of p fs"
  using assms by (auto simp: background_save_def log_ready_def log_of_def case_prod_unfold Let_def split: if_splits)

lemma saver_finish_log:
  assumes "log_ready c p" "paths_ok c" "saver_finish io p fs = (p', fs')"
  shows "log_ready c p' \<and> log_of p' fs' = log_of p fs"
proof -
  have a: "p_config p' = p_config p" "p_aof p' = p_aof p"
    using assms(3) by (auto simp: saver_finish_def case_prod_unfold Let_def split: saver.splits)
  have "fs' (aof_path c) = fs (aof_path c)"
    using assms write_snapshot_frame [of p io _ fs]
    by (auto simp: saver_finish_def log_ready_def case_prod_unfold Let_def split: saver.splits)
  with assms(1) a aof_log_cong [of "aof_path c" "p_aof p" fs' fs] show ?thesis
    by (simp add: log_ready_def log_of_def)
qed

lemma on_write_log:
  assumes "log_ready c p" "as \<noteq> []"
  shows "log_ready c (pers_on_write as p) \<and> log_of (pers_on_write as p) fs = log_of p fs @ aof_encode as"
  using assms aof_append_log [of "aof_path c" "p_aof p" as]
  by (auto simp: pers_on_write_def log_ready_def log_of_def Let_def)

lemma rewrite_payload_eq: "rewrite_payload rs = concat (map aof_encode (map rewrite_args rs))"
proof -
  have "foldl (\<lambda>out r. out @ aof_encode (rewrite_args r)) acc rs = acc @ concat (map aof_encode (map rewrite_args rs))" for acc
    by (induction rs arbitrary: acc) simp_all
  then show ?thesis by (simp add: rewrite_payload_def)
qed

lemma aof_rewrite_ok:
  assumes "open_at path a" "io_fine io" "io_open io2" "aof_rewrite io io2 path rs a fs = (err, a', fs')"
  shows "err = None \<and> open_at path a' \<and> a_policy a' = a_policy a \<and> aof_log a' fs' = rewrite_payload rs \<and>
    contents fs' path = rewrite_payload rs"
proof -
  obtain f where f: "a_file a = Some f" "cf_path f = path" using assms(1) by (auto simp: open_at_def)
  let ?fs1 = "fs(path @ ''.rewrite'' \<mapsto> rewrite_payload rs)"
  obtain a1 fs2 where c: "aof_close a ?fs1 = (a1, fs2)" by fastforce
  then have a1: "a_file a1 = None" "a_policy a1 = a_policy a" "fs2 (path @ ''.rewrite'') = Some (rewrite_payload rs)"
    using f by (auto simp: aof_close_def file_frame case_prod_unfold Let_def split: if_splits)
  define fs4 where "fs4 = fs2(path := None, path := (fs2(path := None)) (path @ ''.rewrite''), path @ ''.rewrite'' := None)"
  have c4: "contents fs4 path = rewrite_payload rs" using a1(3) by (simp add: fs4_def contents_def)
  have "(err, a', fs') = aof_open io2 path (a_policy a) (a1\<lparr>a_commands_written := length rs\<rparr>) fs4"
    using assms(2,4) c f by (simp add: aof_rewrite_def io_fine_def aof_is_open_def fs4_def Let_def)
  then have r: "err = None" "a_file a' = Some (fst (fopen_append path fs4))" "a_policy a' = a_policy a" "a_buffer a' = []"
    "fs' = snd (fopen_append path fs4)"
    using assms(3) a1(1,2) by (auto simp: aof_open_def aof_close_def case_prod_unfold Let_def)
  then show ?thesis using c4 written_simps(1) [of path fs4]
    by (simp add: open_at_def aof_log_def fopen_append_def)
qed

lemma pers_rewrite_log:
  assumes "log_ready c p" "io_fine io" "io_open io2" "pers_rewrite_aof io io2 p s fs = (err, p', s', fs')"
  shows "log_ready c p' \<and> err = None \<and> s' = snd (store_snapshot s) \<and>
    log_of p' fs' = rewrite_payload (fst (store_snapshot s)) \<and> contents fs' (aof_path c) = log_of p' fs'"
proof -
  obtain err1 a fs1 where r: "aof_rewrite io io2 (aof_path c) (fst (store_snapshot s)) (p_aof p) fs = (err1, a, fs1)"
    by (metis prod_cases3)
  then have p': "err = err1" "p' = p\<lparr>p_aof := a\<rparr>" "s' = snd (store_snapshot s)" "fs' = fs1"
    using assms(1,4) by (auto simp: pers_rewrite_aof_def log_ready_def case_prod_unfold Let_def)
  from aof_rewrite_ok [OF _ assms(2,3) r] assms(1) p' show ?thesis by (simp add: log_ready_def log_of_def)
qed

definition env_fine :: "env \<Rightarrow> bool" where
  "env_fine e \<longleftrightarrow> io_fine (e_io e) \<and> io_fine (e_io2 e) \<and> io_fine (e_io3 e)"

lemma cron_aof_log:
  assumes "log_ready c p" "env_fine e" "cron_aof e p s fs = (p', s', fs')"
  shows "log_ready c p' \<and> (\<forall>u. view u s' = view u s) \<and> (store_inv s \<longrightarrow> store_inv s') \<and>
    (log_of p' fs' = log_of p fs \<or> log_of p' fs' = rewrite_payload (fst (store_snapshot s))) \<and>
    (pc_fsync_policy c \<noteq> kEverySec \<longrightarrow> contents fs' (aof_path c) = log_of p' fs')"
proof -
  obtain err a fs1 where fl: "aof_flush (e_io e) (e_now e) (p_aof p) fs = (err, a, fs1)" by (metis prod_cases3)
  have rd: "open_at (aof_path c) (p_aof p)" "a_policy (p_aof p) = pc_fsync_policy c" "p_config p = c" "pc_aof_enabled c"
    using assms(1) by (simp_all add: log_ready_def)
  have io: "io_write (e_io e)" "io_fine (e_io2 e)" "io_open (e_io3 e)" using assms(2) by (simp_all add: env_fine_def io_fine_def)
  note ok = aof_flush_ok [OF rd(1) io(1) fl]
  define p1 where "p1 = p\<lparr>p_aof := a\<rparr>"
  have p1: "log_ready c p1" "log_of p1 fs1 = log_of p fs"
    "pc_fsync_policy c \<noteq> kEverySec \<Longrightarrow> contents fs1 (aof_path c) = log_of p1 fs1"
    using ok rd by (simp_all add: p1_def log_ready_def log_of_def)
  show ?thesis
  proof (cases "pc_aof_rewrite_threshold c > 0 \<and> a_commands_written a > pc_aof_rewrite_threshold c")
    case False
    then have "(p', s', fs') = (p1, s, fs1)"
      using assms(3) rd fl ok by (auto simp: cron_aof_def p1_def note_error_def)
    with p1 show ?thesis by simp
  next
    case True
    obtain err2 p2 s2 fs2 where rw: "pers_rewrite_aof (e_io2 e) (e_io3 e) p1 s fs1 = (err2, p2, s2, fs2)"
      by (metis prod_cases4)
    note rok = pers_rewrite_log [OF p1(1) io(2,3) rw]
    have "(p', s', fs') = (p2, s2, fs2)"
      using assms(3) rd fl ok True rok rw by (auto simp: cron_aof_def p1_def note_error_def)
    with rok show ?thesis by simp
  qed
qed

lemma cron_reap_log [simp]: "log_ready c (cron_reap e p) = log_ready c p" "log_of (cron_reap e p) fs = log_of p fs"
  by (simp_all add: cron_reap_def log_ready_def log_of_def Let_def)

lemma pers_cron_log:
  assumes "log_ready c p" "env_fine e" "pers_cron e p s fs = (p', s', fs')"
  shows "log_ready c p' \<and> (\<forall>u. view u s' = view u s) \<and> (store_inv s \<longrightarrow> store_inv s') \<and>
    (log_of p' fs' = log_of p fs \<or> log_of p' fs' = rewrite_payload (fst (store_snapshot s))) \<and>
    (pc_fsync_policy c \<noteq> kEverySec \<longrightarrow> contents fs' (aof_path c) = log_of p' fs')"
proof -
  obtain p1 s1 fs1 where ca: "cron_aof e p s fs = (p1, s1, fs1)" by (metis prod_cases3)
  note a = cron_aof_log [OF assms(1,2) ca]
  obtain err p2 s2 where bs: "background_save (e_now2 e) (cron_reap e p1) s1 = (err, p2, s2)" by (metis prod_cases3)
  have "s2 = s1 \<or> s2 = snd (store_snapshot s1)"
    using bs by (auto simp: background_save_def case_prod_unfold Let_def split: if_splits)
  then have s2: "\<forall>u. view u s2 = view u s1" "store_inv s1 \<longrightarrow> store_inv s2" by auto
  have r: "(p', s', fs') = (if save_due e (cron_reap e p1) then (p2, s2, fs1) else (cron_reap e p1, s1, fs1))"
    using assms(3) ca bs by (cases "save_due e (cron_reap e p1)") (simp_all add: pers_cron_def Let_def)
  show ?thesis
    using a r s2 background_save_log [OF bs] by (auto split: if_splits)
qed

section \<open>Replaying the log\<close>

definition replay_store :: "args list \<Rightarrow> store \<Rightarrow> store" where
  "replay_store cs q = foldl (\<lambda>q c. apply_command c q) q cs"

lemma replay_store_simps [simp]:
  "replay_store [] q = q" "replay_store (c # cs) q = replay_store cs (apply_command c q)"
  "replay_store (cs @ ds) q = replay_store ds (replay_store cs q)"
  by (simp_all add: replay_store_def)

lemma replay_store_inv:
  "frozen T q \<Longrightarrow> store_inv q \<Longrightarrow> frozen T (replay_store cs q) \<and> store_inv (replay_store cs q)"
  by (induction cs arbitrary: q) (simp_all add: apply_command_inv)

text \<open>
  \<open>follows T m s cs\<close>: the commands can be encoded, they are writes, and applied at time \<open>T\<close> to a
  keyspace that shows \<open>m\<close> from \<open>T\<close> on, they give what \<open>s\<close> shows from \<open>T\<close> on. The log of a process is
  replayed from an empty keyspace.
\<close>

definition shows_from :: "int \<Rightarrow> (int \<Rightarrow> keyspace) \<Rightarrow> store \<Rightarrow> bool" where
  "shows_from T m q \<longleftrightarrow> frozen T q \<and> store_inv q \<and> (\<forall>u \<ge> T. view u q = m u)"

definition follows :: "int \<Rightarrow> (int \<Rightarrow> keyspace) \<Rightarrow> store \<Rightarrow> args list \<Rightarrow> bool" where
  "follows T m s cs \<longleftrightarrow> (\<forall>c \<in> set cs. wire_ok c \<and> is_write_command (upper (hd c))) \<and>
     (\<forall>q u. shows_from T m q \<longrightarrow> T \<le> u \<longrightarrow> view u (replay_store cs q) = view u s)"

abbreviation blank :: "int \<Rightarrow> store \<Rightarrow> bool" where
  "blank T \<equiv> shows_from T (\<lambda>_. Map.empty)"

abbreviation replays :: "int \<Rightarrow> store \<Rightarrow> args list \<Rightarrow> bool" where
  "replays T \<equiv> follows T (\<lambda>_. Map.empty)"

lemma follows_same: "follows T m s cs \<Longrightarrow> (\<And>u. T \<le> u \<Longrightarrow> view u s' = view u s) \<Longrightarrow> follows T m s' cs"
  by (simp add: follows_def)

lemma follows_append:
  assumes "follows T m s cs" "frozen t s" "store_inv s" "t \<le> T"
    and c: "store_command (upper (hd a)) a s = Some (r, s')" "cr_dirty r" "a \<noteq> []"
    and p: "wire_ok (cr_propagate r)" "log_ok (cr_propagate r)" "no_revival T s s' (cr_propagate r)"
  shows "follows T m s' (cs @ [cr_propagate r])"
proof -
  have "view u (apply_command (cr_propagate r) (replay_store cs q)) = view u s'" if q: "shows_from T m q" "T \<le> u" for q u
  proof -
    have "frozen T (replay_store cs q)" "store_inv (replay_store cs q)"
      using replay_store_inv [of T q cs] q(1) by (auto simp: shows_from_def)
    moreover have "view w (replay_store cs q) = view w s" if "T \<le> w" for w
      using assms(1) q(1) that by (simp add: follows_def)
    ultimately have "carries T s (replay_store cs q) (r, s')"
      by (intro store_command_carries [OF assms(2,3) _ _ assms(4) _ c(1)])
    then show ?thesis using c(2) p(2,3) q(2) by (simp add: carries_def)
  qed
  then show ?thesis
    using assms(1) p(1) store_command_dirty [OF c(1,2,3) refl] by (simp add: follows_def)
qed

lemma rewrite_args_eq: "rewrite_args r = set_propagate (rec_key r) (rec_value r) (rec_expire_at r)"
  by (simp add: rewrite_args_def set_propagate_def)

lemma replay_records:
  assumes "frozen T q" "store_inv q" "distinct (map rec_key rs)" "T \<le> u"
    and "\<forall>r \<in> set rs. in_int64 (rec_expire_at r) \<and> log_ok (rewrite_args r)"
  shows "view u (replay_store (map rewrite_args rs) q) k =
    (case record_of rs k of Some (v, e) \<Rightarrow> visible u v e | None \<Rightarrow> view u q k)"
  using assms
proof (induction rs arbitrary: q)
  case (Cons r rs)
  let ?q = "apply_command (rewrite_args r) q"
  have v: "view u ?q = (view u q)(rec_key r := visible u (rec_value r) (rec_expire_at r))"
    unfolding rewrite_args_eq
    by (rule set_logged) (use Cons.prems in \<open>auto simp: rewrite_args_eq\<close>)
  have "frozen T ?q" "store_inv ?q" using apply_command_inv Cons.prems(1,2) by auto
  from Cons.IH [OF this] Cons.prems(3-5)
  have i: "view u (replay_store (map rewrite_args rs) ?q) k =
      (case record_of rs k of Some (v, e) \<Rightarrow> visible u v e | None \<Rightarrow> view u ?q k)" by simp
  have "record_of rs (rec_key r) = None"
    using Cons.prems(3) by (force simp: record_of_def map_of_eq_None_iff)
  with i v show ?case by (auto simp: record_of_def split: option.split)
qed (simp add: record_of_def)

lemma snapshot_record:
  assumes "store_inv s" "r \<in> set (fst (store_snapshot s))"
  shows "view (store_now s) s (rec_key r) = Some (rec_value r, deadline_opt (rec_expire_at r))"
proof -
  have "record_of (fst (store_snapshot s)) (rec_key r) = Some (rec_value r, rec_expire_at r)"
    unfolding record_of_def
    by (rule map_of_is_SomeI) (use assms snapshot_keys_distinct [OF assms(1)] in \<open>auto simp: comp_def\<close>)
  with snapshot_record_of [OF assms(1), of "rec_key r"] show ?thesis by simp
qed

lemma replays_rewrite:
  assumes s: "store_inv s" "data_ok (store_now s) s" and le: "store_now s \<le> T" "0 \<le> store_now s"
  shows "replays T s (map rewrite_args (fst (store_snapshot s)))"
proof -
  let ?rs = "fst (store_snapshot s)"
  have ok: "in_int64 (rec_expire_at r) \<and> log_ok (rewrite_args r) \<and> wire_ok (rewrite_args r)" if r: "r \<in> set ?rs" for r
  proof -
    let ?e = "rec_expire_at r"
    note v = snapshot_record [OF s(1) r]
    have len: "int (length (rec_key r)) \<le> kMaxBulkLength" "int (length (rec_value r)) \<le> kMaxBulkLength"
      and e: "?e \<noteq> kNoExpiry \<Longrightarrow> in_int64 ?e" using s(2) v by (auto simp: data_ok_def deadline_opt_def)
    have pos: "0 \<le> ?e" if "?e \<noteq> kNoExpiry"
      using v that le(2) by (auto simp: view_def deadline_opt_def split: option.splits if_splits)
    then have "?e \<noteq> kNoExpiry \<Longrightarrow> length (to_string ?e) \<le> 20"
      using e to_string_length [of ?e] by (simp add: in_int64_def int64_max_def)
    then show ?thesis
      using len e pos to_string_not_min [of ?e]
      by (cases "?e = kNoExpiry")
         (auto simp: rewrite_args_def log_ok_def wire_ok_def kMaxMultibulkLength_def kMaxBulkLength_def
            kNoExpiry_def int64_defs)
  qed
  have "is_write_command (upper (hd (rewrite_args r)))" for r by (simp add: rewrite_args_def is_write_command_def)
  moreover have "view u (replay_store (map rewrite_args ?rs) q) = view u s" if "blank T q" "T \<le> u" for q u
  proof
    fix k
    have "store_now s \<le> u" using le that(2) by simp
    then show "view u (replay_store (map rewrite_args ?rs) q) k = view u s k"
      using replay_records [of T q ?rs u k] ok that snapshot_keys_distinct [OF s(1)] snapshot_visible [OF s(1), of u k]
      by (simp add: shows_from_def cong: option.case_cong)
  qed
  ultimately show ?thesis using ok by (auto simp: follows_def)
qed

section \<open>Every step keeps the log replayable\<close>

lemma own_sends_frame [simp]:
  "w_store (fst (own_sends link w out)) = w_store w" "w_pers (fst (own_sends link w out)) = w_pers w"
  "w_fs (fst (own_sends link w out)) = w_fs w" "w_repl (fst (own_sends link w out)) = w_repl w"
  by (simp_all add: own_sends_def)

lemma propagate_hook_frame [simp]:
  "w_store (propagate_hook as w) = w_store w" "w_fs (propagate_hook as w) = w_fs w"
  "w_pers (propagate_hook as w) = map_option (pers_on_write as) (w_pers w)"
  by (simp_all add: propagate_hook_def case_prod_unfold Let_def split: option.split)

lemma handle_command_world:
  fixes e link a w
  defines "d \<equiv> dispatch e a link w"
  shows "w_store (fst (handle_command e link a w out)) = w_store (snd d)"
    and "w_fs (fst (handle_command e link a w out)) = w_fs (snd d)"
    and "w_pers (fst (handle_command e link a w out)) =
      (if cr_dirty (fst d) then map_option (pers_on_write (cr_propagate (fst d))) (w_pers (snd d)) else w_pers (snd d))"
  by (simp_all add: handle_command_def case_prod_unfold Let_def d_def)

lemma admin_files [simp]:
  "w_pers (snd (cmd_replconf e a link w)) = w_pers w" "w_fs (snd (cmd_replconf e a link w)) = w_fs w"
  "w_pers (snd (cmd_psync e link w)) = w_pers w" "w_fs (snd (cmd_psync e link w)) = w_fs w"
  "w_pers (snd (cmd_replicaof a w)) = w_pers w" "w_fs (snd (cmd_replicaof a w)) = w_fs w"
  "w_pers (snd (cmd_info uptime w)) = w_pers w" "w_fs (snd (cmd_info uptime w)) = w_fs w"
  by (simp_all add: cmd_replconf_def cmd_psync_def cmd_replicaof_def cmd_info_def case_prod_unfold Let_def split: option.split)

lemma dispatch_files:
  assumes "a \<noteq> []"
  obtains (same) "w_pers (snd (dispatch e a link w)) = w_pers w" "w_fs (snd (dispatch e a link w)) = w_fs w"
  | (pers) "\<not> cr_dirty (fst (dispatch e a link w))" "snd (dispatch e a link w) = snd (cmd_persistence e (upper (hd a)) w)"
proof (cases "upper (hd a) \<in> {''SAVE'', ''BGSAVE'', ''BGREWRITEAOF''}")
  case True
  then have "store_command (upper (hd a)) a (w_store w) = None" "\<not> is_write_command (upper (hd a))"
    by (auto simp: store_command_def is_write_command_def)
  with True assms have "dispatch e a link w = (let (r, w1) = cmd_persistence e (upper (hd a)) w in (clean r, w1))"
    by (auto simp: dispatch_def refused_on_replica_def Let_def)
  then show ?thesis by (intro pers) (simp_all add: case_prod_unfold Let_def)
next
  case False
  define name where "name = upper (hd a)"
  have "name \<noteq> ''SAVE''" "name \<noteq> ''BGSAVE''" "name \<noteq> ''BGREWRITEAOF''" using False by (auto simp: name_def)
  then have "w_pers (snd (dispatch e a link w)) = w_pers w \<and> w_fs (snd (dispatch e a link w)) = w_fs w"
    unfolding dispatch_def name_def [symmetric] Let_def
    using assms by (simp add: case_prod_unfold split: option.split)
  then show ?thesis by (intro same) simp_all
qed

text \<open>The invariant: \<open>t\<close> is the time of the last event, \<open>T\<close> the time of the recovery.\<close>

definition recovers :: "persistence_config \<Rightarrow> int \<Rightarrow> int \<Rightarrow> world \<Rightarrow> bool" where
  "recovers c T t w \<longleftrightarrow> store_inv (w_store w) \<and> data_ok t (w_store w) \<and>
     (\<exists>p cs. w_pers w = Some p \<and> log_ready c p \<and> log_of p (w_fs w) = concat (map aof_encode cs) \<and>
        replays T (w_store w) cs)"

text \<open>What a step must satisfy: file operations succeed, and a logged write can be carried to \<open>T\<close>.\<close>

definition carried :: "int \<Rightarrow> world \<Rightarrow> command_result \<times> world \<Rightarrow> bool" where
  [simp]: "carried T w = (\<lambda>(r, w1). cr_dirty r \<longrightarrow> wire_ok (cr_propagate r) \<and> log_ok (cr_propagate r) \<and>
     no_revival T (w_store w) (w_store w1) (cr_propagate r))"

fun step_ok :: "int \<Rightarrow> world \<Rightarrow> event \<Rightarrow> bool" where
  "step_ok T w (Cmd e link a) \<longleftrightarrow> env_fine e \<and> carried T w (dispatch e a link w)"
| "step_ok T w (Tick e) \<longleftrightarrow> env_fine e"
| "step_ok T w (SaverDone io) \<longleftrightarrow> True"
| "step_ok T w (Hangup link) \<longleftrightarrow> True"

lemma recovers_persistence:
  assumes "paths_ok c" "recovers c T t w" "frozen t (w_store w)" "0 \<le> t" "t \<le> T" "env_fine e"
  shows "recovers c T t (snd (cmd_persistence e name w))"
proof -
  obtain p cs where p: "w_pers w = Some p" "log_ready c p" "log_of p (w_fs w) = concat (map aof_encode cs)"
    "replays T (w_store w) cs" and i: "store_inv (w_store w)" "data_ok t (w_store w)"
    using assms(2) by (auto simp: recovers_def)
  have now: "store_now (w_store w) = t" using assms(3) by (simp add: store_now_def frozen_now)
  obtain err p1 s1 fs1 where op: "(if name = ''SAVE'' then pers_save e p (w_store w) (w_fs w)
      else if name = ''BGSAVE'' then (let (err, p1, s1) = background_save (e_now e) p (w_store w) in (err, p1, s1, w_fs w))
      else pers_rewrite_aof (e_io e) (e_io2 e) p (w_store w) (w_fs w)) = (err, p1, s1, fs1)" by (metis prod_cases4)
  have w': "w_pers (snd (cmd_persistence e name w)) = Some p1" "w_store (snd (cmd_persistence e name w)) = s1"
    "w_fs (snd (cmd_persistence e name w)) = fs1"
    by (simp_all add: cmd_persistence_def p(1) op Let_def split: option.split)
  have "same_keys t (w_store w) s1" using same_keys_admin(4) [OF assms(3) i(1), of e name] w'(2) by simp
  then have s1: "store_inv s1" "\<And>u. t \<le> u \<Longrightarrow> view u s1 = view u (w_store w)" by (auto simp: same_keys_def)
  have "log_ready c p1 \<and> (\<exists>cs'. log_of p1 fs1 = concat (map aof_encode cs') \<and> replays T (w_store w) cs')"
  proof (cases "name = ''SAVE''")
    case True
    then show ?thesis using pers_save_log [OF p(2) assms(1), of e "w_store w" "w_fs w" err p1 s1 fs1] op p(3,4) by auto
  next
    case save: False
    show ?thesis
    proof (cases "name = ''BGSAVE''")
      case True
      obtain err2 p2 s2 where bs: "background_save (e_now e) p (w_store w) = (err2, p2, s2)" by (metis prod_cases3)
      then show ?thesis using True save op p background_save_log [OF bs] by auto
    next
      case False
      then have rw: "pers_rewrite_aof (e_io e) (e_io2 e) p (w_store w) (w_fs w) = (err, p1, s1, fs1)" using save op by simp
      have "io_fine (e_io e)" "io_open (e_io2 e)" using assms(6) by (simp_all add: env_fine_def io_fine_def)
      note rl = pers_rewrite_log [OF p(2) this rw, unfolded rewrite_payload_eq]
      have "replays T (w_store w) (map rewrite_args (fst (store_snapshot (w_store w))))"
        by (rule replays_rewrite) (use i now assms(4,5) in simp_all)
      with rl show ?thesis by blast
    qed
  qed
  then show ?thesis
    using s1 data_ok_same [OF i(2), of s1] follows_same [of T _ "w_store w" _ s1] assms(5)
    by (auto simp: recovers_def w' intro: order.trans)
qed

lemma recovers_command:
  assumes "paths_ok c" "recovers c T t w" "frozen t (w_store w)" "0 \<le> t" "t \<le> T" "step_ok T w (Cmd e link a)"
  shows "recovers c T t (fst (handle_command e link a w out))"
proof (cases "a = []")
  case True
  then show ?thesis using assms(2)
    by (simp add: recovers_def handle_command_world) (simp add: dispatch_def)
next
  case False
  obtain p cs where p: "w_pers w = Some p" "log_ready c p" "log_of p (w_fs w) = concat (map aof_encode cs)"
    "replays T (w_store w) cs" and i: "store_inv (w_store w)" "data_ok t (w_store w)"
    using assms(2) by (auto simp: recovers_def)
  let ?d = "dispatch e a link w"
  show ?thesis
  proof (cases "cr_dirty (fst ?d)")
    case True
    then obtain r s1 where c: "store_command (upper (hd a)) a (w_store w) = Some (r, s1)" "?d = (r, w\<lparr>w_store := s1\<rparr>)"
      using dispatch_cases [OF False, of w link e] by metis
    have d: "cr_dirty r" "wire_ok (cr_propagate r)" "log_ok (cr_propagate r)" "no_revival T (w_store w) s1 (cr_propagate r)"
      using True assms(6) c(2) by auto
    have "cr_propagate r \<noteq> []" using d(2) by (simp add: wire_ok_def)
    note ow = on_write_log [OF p(2) this, of "w_fs w"]
    have "replays T s1 (cs @ [cr_propagate r])" by (rule follows_append [OF p(4) assms(3) i(1) assms(5) c(1) d(1) False d(2-4)])
    moreover have "store_inv s1" using store_command_tidy [OF assms(3) i(1) c(1)] by (simp add: tidy_def)
    moreover have "data_ok t s1" using data_ok_command [OF assms(3) i c(1)] d(2) by blast
    ultimately show ?thesis
      using ow p(1,3) d(1) by (auto simp: recovers_def handle_command_world c(2) intro!: exI [of _ "cs @ [cr_propagate r]"])
  next
    case clean: False
    show ?thesis
    proof (cases rule: dispatch_files [OF False, of e link w])
      case 1
      have "tidy t (w_store w) (fst ?d, w_store (snd ?d))" by (rule dispatch_tidy [OF assms(3) i(1)])
      then have k: "store_inv (w_store (snd ?d))" "\<And>u. t \<le> u \<Longrightarrow> view u (w_store (snd ?d)) = view u (w_store w)"
        using clean by (auto simp: tidy_def)
      with 1 p i clean assms(5) follows_same [OF p(4), of "w_store (snd ?d)"] data_ok_same [OF i(2), of "w_store (snd ?d)"]
      show ?thesis by (auto simp: recovers_def handle_command_world)
    next
      case 2
      have "env_fine e" using assms(6) by simp
      from recovers_persistence [OF assms(1-5) this, of "upper (hd a)"] 2 clean show ?thesis
        by (simp add: recovers_def handle_command_world)
    qed
  qed
qed

definition flushed :: "persistence_config \<Rightarrow> world \<Rightarrow> bool" where
  "flushed c w \<longleftrightarrow> (\<exists>p. w_pers w = Some p \<and> contents (w_fs w) (aof_path c) = log_of p (w_fs w))"

lemma recovers_tick:
  assumes "recovers c T t w" "frozen t (w_store w)" "0 \<le> t" "t \<le> T" "env_fine e"
  shows "recovers c T t (cron_task e w) \<and> (pc_fsync_policy c \<noteq> kEverySec \<longrightarrow> flushed c (cron_task e w))"
proof -
  obtain p cs where p: "w_pers w = Some p" "log_ready c p" "log_of p (w_fs w) = concat (map aof_encode cs)"
    "replays T (w_store w) cs" and i: "store_inv (w_store w)" "data_ok t (w_store w)"
    using assms(1) by (auto simp: recovers_def)
  define s1 where "s1 = snd (active_expire_cycle default_expiry_config (w_store w))"
  have s1: "store_inv s1" "store_now s1 = t" "\<And>u. t \<le> u \<Longrightarrow> view u s1 = view u (w_store w)"
    using cycle_frozen [OF assms(2) i(1)] i(1) order.refl [of t] by (auto simp: s1_def)
  obtain p2 s2 fs2 where cr: "pers_cron e p s1 (w_fs w) = (p2, s2, fs2)" by (metis prod_cases3)
  note l = pers_cron_log [OF p(2) assms(5) cr]
  have w': "w_pers (cron_task e w) = Some p2" "w_store (cron_task e w) = s2" "w_fs (cron_task e w) = fs2"
    by (simp_all add: cron_task_def p(1) cr Let_def flip: s1_def)
  have ok: "data_ok t s1" using data_ok_same [OF i(2)] s1(3) by simp
  have r1: "replays T s1 cs" by (rule follows_same [OF p(4)]) (use s1(3) assms(4) in auto)
  have rw: "replays T s1 (map rewrite_args (fst (store_snapshot s1)))"
    by (rule replays_rewrite) (use s1 ok assms(3,4) in simp_all)
  have "\<exists>cs'. log_of p2 fs2 = concat (map aof_encode cs') \<and> replays T s1 cs'"
    using l r1 rw p(3) unfolding rewrite_payload_eq by metis
  moreover have "store_inv s2" "\<And>u. view u s2 = view u s1" "data_ok t s2" using l s1(1) data_ok_same [OF ok] by auto
  ultimately have "recovers c T t (cron_task e w)"
    using l follows_same [of T _ s1 _ s2] by (auto simp: recovers_def w')
  then show ?thesis using l by (simp add: flushed_def w')
qed

lemma recovers_saver:
  assumes "paths_ok c" "recovers c T t w"
  shows "recovers c T t (world_step w (SaverDone io))"
proof -
  obtain p where p: "w_pers w = Some p" "log_ready c p" using assms(2) by (auto simp: recovers_def)
  obtain p1 fs1 where f: "saver_finish io p (w_fs w) = (p1, fs1)" by fastforce
  from saver_finish_log [OF p(2) assms(1) f] assms(2) p f show ?thesis
    by (auto simp: recovers_def Let_def)
qed

lemma recovers_clock:
  assumes "recovers c T t w" "t \<le> t'" "0 \<le> t'"
  shows "recovers c T t' (set_clock t' w)" "frozen t' (w_store (set_clock t' w))"
proof -
  show "frozen t' (w_store (set_clock t' w))" by (simp add: set_clock_def frozen_def)
  have "store_inv (w_store (set_clock t' w))"
    using assms(1,3) by (auto simp: recovers_def set_clock_def store_inv_def)
  moreover have "data_ok t' (w_store (set_clock t' w))"
    using data_ok_later [OF _ assms(2), of "w_store w"] assms(1) data_ok_same by (simp add: recovers_def set_clock_def)
  ultimately show "recovers c T t' (set_clock t' w)"
    using assms(1) follows_same [of T _ "w_store w" _ "w_store (set_clock t' w)"]
    by (auto simp: recovers_def set_clock_def)
qed

text \<open>A run at non-decreasing times up to \<open>T\<close>, each step of which satisfies a condition.\<close>

fun run_sat :: "(world \<Rightarrow> event \<Rightarrow> bool) \<Rightarrow> int \<Rightarrow> int \<Rightarrow> world \<Rightarrow> (int \<times> event) list \<Rightarrow> bool" where
  "run_sat P T t w [] \<longleftrightarrow> t \<le> T"
| "run_sat P T t w ((t', ev) # evs) \<longleftrightarrow>
     t \<le> t' \<and> P (set_clock t' w) ev \<and> run_sat P T t' (world_step (set_clock t' w) ev) evs"

abbreviation run_ok :: "int \<Rightarrow> int \<Rightarrow> world \<Rightarrow> (int \<times> event) list \<Rightarrow> bool" where
  "run_ok T \<equiv> run_sat (step_ok T) T"

lemma run_sat_le: "run_sat P T t w evs \<Longrightarrow> t \<le> T"
  by (induction evs arbitrary: t w) fastforce+

lemma recovers_step:
  assumes "paths_ok c" "recovers c T t w" "0 \<le> t" "t \<le> t'" "t' \<le> T" "step_ok T (set_clock t' w) ev"
  shows "recovers c T t' (world_step (set_clock t' w) ev)"
proof -
  note r = recovers_clock [OF assms(2,4)]
  have "0 \<le> t'" using assms(3,4) by simp
  note r = r [OF this] this
  show ?thesis
  proof (cases ev)
    case (Cmd e link a)
    then show ?thesis using recovers_command [OF assms(1) r(1,2,3) assms(5)] assms(6) by simp
  next
    case (Tick e)
    then show ?thesis using recovers_tick [OF r(1,2,3) assms(5)] assms(6) by simp
  next
    case (SaverDone io)
    then show ?thesis using recovers_saver [OF assms(1) r(1)] by simp
  next
    case (Hangup link)
    then show ?thesis using r(1) by (simp add: recovers_def handler_on_disconnect_def split: option.split)
  qed
qed

text \<open>The time of the last event.\<close>

definition end_time :: "int \<Rightarrow> (int \<times> event) list \<Rightarrow> int" where
  "end_time t evs = foldl (\<lambda>_ x. fst x) t evs"

lemma recovers_run:
  assumes "paths_ok c" "recovers c T t w" "0 \<le> t" "run_ok T t w (evs @ evs')"
  shows "recovers c T (end_time t evs) (world_run w evs) \<and> 0 \<le> end_time t evs \<and>
    run_ok T (end_time t evs) (world_run w evs) evs'"
  using assms(2-)
proof (induction evs arbitrary: t w)
  case (Cons x evs)
  obtain t' ev where x: "x = (t', ev)" by fastforce
  have r: "t \<le> t'" "step_ok T (set_clock t' w) ev" "run_ok T t' (world_step (set_clock t' w) ev) (evs @ evs')"
    using Cons.prems(3) x by simp_all
  note st = recovers_step [OF assms(1) Cons.prems(1,2) r(1) run_sat_le [OF r(3)] r(2)]
  have "0 \<le> t'" using r(1) Cons.prems(2) by simp
  from Cons.IH [OF st this r(3)] show ?case by (simp add: x end_time_def)
qed (simp add: end_time_def)

lemma world_run_append [simp]: "world_run w (evs @ evs') = world_run (world_run w evs) evs'"
  by (induction w evs rule: world_run.induct) simp_all

lemma recovers_run_tick:
  assumes "paths_ok c" "recovers c T t w" "0 \<le> t" "run_ok T t w (evs @ [(t', Tick e)])" "pc_fsync_policy c \<noteq> kEverySec"
  shows "recovers c T t' (world_run w (evs @ [(t', Tick e)])) \<and> flushed c (world_run w (evs @ [(t', Tick e)]))"
proof -
  let ?w = "world_run w evs"
  have r: "recovers c T (end_time t evs) ?w" "0 \<le> end_time t evs" "end_time t evs \<le> t'" "t' \<le> T" "env_fine e"
    using recovers_run [OF assms(1-4)] by auto
  then have "0 \<le> t'" by simp
  from recovers_tick [OF recovers_clock [OF r(1,3) this] this r(4,5)] assms(5) show ?thesis by simp
qed

section \<open>Booting on the log\<close>

lemma replay_world:
  assumes "\<forall>c \<in> set cs. wire_ok c \<and> is_write_command (upper (hd c))"
  shows "foldl (\<lambda>w a. apply_silently e a w) w cs = w\<lparr>w_store := replay_store cs (w_store w)\<rparr>"
  using assms
proof (induction cs arbitrary: w)
  case (Cons c cs)
  then have "apply_silently e c w = w\<lparr>w_store := apply_command c (w_store w)\<rparr>"
    by (intro logged_apply) (simp_all add: wire_ok_def)
  with Cons show ?case by simp
qed simp

lemma boot_replays:
  assumes "mc_pers mc = c" "pc_aof_enabled c" "mc_replicaof_host mc = []" "io_open (e_io e)" "blank T q"
    and "contents fs (aof_path c) = concat (map aof_encode cs)" "replays T s cs"
  shows "\<exists>w. boot e mc replid q fs = Some (Inr w) \<and> (\<forall>u \<ge> T. view u (w_store w) = view u s)"
proof -
  have ok: "\<forall>c \<in> set cs. wire_ok c" using assms(7) by (simp add: follows_def)
  let ?w = "bare_world q fs"
  have "aof_replay (aof_path c) (\<lambda>w a. apply_silently e a w) ?w fs =
      \<lparr>rp_error = None, rp_state = ?w\<lparr>w_store := replay_store cs q\<rparr>, rp_applied = length cs, rp_truncated = 0\<rparr>"
    using replay_contents [OF ok assms(6), of "\<lambda>w a. apply_silently e a w" ?w] replay_world [of cs e ?w] assms(7) by (simp add: follows_def bare_world_def)
  moreover obtain err a fs1 where o: "aof_open (e_io e) (aof_path c) (pc_fsync_policy c) aof_new fs = (err, a, fs1)"
    by (metis prod_cases3)
  moreover from o have "err = None" using assms(4) by (auto simp: aof_open_def case_prod_unfold Let_def)
  ultimately have "pers_load e (pers_new (e_now e) c) ?w = Some (None, (pers_new (e_now e) c)\<lparr>p_aof := a\<rparr>,
      ?w\<lparr>w_store := replay_store cs q, w_fs := fs1\<rparr>)"
    using assms(2) by (simp add: pers_load_def pers_new_def bare_world_def Let_def)
  then show ?thesis
    using assms(1,3,5,7) by (simp add: boot_def follows_def bare_world_def case_prod_unfold Let_def)
qed

lemma boot_recovers:
  assumes "mc_pers mc = c" "pc_aof_enabled c" "mc_replicaof_host mc = []" "io_open (e_io e)"
    and "blank t q" "t \<le> T" "contents fs (aof_path c) = []" "boot e mc replid q fs = Some (Inr w)"
  shows "recovers c T t w"
proof -
  let ?w = "bare_world q fs"
  have "aof_replay (aof_path c) (\<lambda>w a. apply_silently e a w) ?w fs =
      \<lparr>rp_error = None, rp_state = ?w, rp_applied = 0, rp_truncated = 0\<rparr>"
    using replay_contents [of "[]" fs "aof_path c" "\<lambda>w a. apply_silently e a w" ?w] assms(7) by simp
  moreover obtain err a fs1 where o: "aof_open (e_io e) (aof_path c) (pc_fsync_policy c) aof_new fs = (err, a, fs1)"
    by (metis prod_cases3)
  moreover from o have a: "err = None" "open_at (aof_path c) a" "a_policy a = pc_fsync_policy c" "aof_log a fs1 = []"
    using assms(4,7) written_simps(1) [of "aof_path c" fs]
    by (auto simp: aof_open_def aof_close_def aof_new_def open_at_def aof_log_def case_prod_unfold Let_def)
  ultimately have "pers_load e (pers_new (e_now e) c) ?w = Some (None, (pers_new (e_now e) c)\<lparr>p_aof := a\<rparr>, ?w\<lparr>w_fs := fs1\<rparr>)"
    using assms(2) by (simp add: pers_load_def pers_new_def bare_world_def Let_def)
  then have w: "w_store w = snd (store_size q)" "w_pers w = Some ((pers_new (e_now e) c)\<lparr>p_aof := a\<rparr>)" "w_fs w = fs1"
    using assms(1,3,8) by (auto simp: boot_def bare_world_def case_prod_unfold Let_def)
  have v: "view u (w_store w) = Map.empty" if "t \<le> u" for u using assms(5) that by (simp add: w shows_from_def)
  have "log_ready c ((pers_new (e_now e) c)\<lparr>p_aof := a\<rparr>)" using a assms(2) by (simp add: log_ready_def pers_new_def)
  moreover have "replays T (w_store w) []" using v assms(6) by (simp add: follows_def shows_from_def)
  moreover have "data_ok t (w_store w)" using v [of t] by (simp add: data_ok_def)
  ultimately show ?thesis
    using a assms(5) w by (auto simp: recovers_def log_of_def shows_from_def intro!: exI [of _ "[]"])
qed

end
