(* ===== verification/Replica_Link.thy ===== *)
theory Replica_Link
  imports Boot
begin

text \<open>
  The thread of a replica that talks to its master (\<open>SyncReader\<close>, \<open>send_command\<close>,
  \<open>expect_prefix\<close> and \<open>Replication::replica_thread\<close> of \<open>src/replication.cpp\<close>): the handshake, the
  transfer of the snapshot, and the loop over the stream of commands. It never touches the store:
  it posts tasks, which the event loop runs in order (\<open>run_task\<close>). A socket is the list of
  pieces its peer will deliver (after the last one, reading fails), what has been written to it,
  and whether each further write succeeds. Sleeping between attempts is not modelled.
\<close>

section \<open>Blocking reads\<close>

record socket =
  sk_in :: "string list"
  sk_out :: string
  sk_writes :: "bool stream"

text \<open>The reader's buffer and the pieces still to come; \<open>None\<close> when the socket fails first.\<close>

fun read_line :: "string \<Rightarrow> string list \<Rightarrow> (string \<times> string \<times> string list) option" where
  "read_line buffer pieces =
     (case find_crlf buffer of
        Some eol \<Rightarrow> Some (take eol buffer, drop (eol + 2) buffer, pieces)
      | None \<Rightarrow> (case pieces of [] \<Rightarrow> None | piece # rest \<Rightarrow> read_line (buffer @ piece) rest))"

fun read_exact :: "nat \<Rightarrow> string \<Rightarrow> string list \<Rightarrow> (string \<times> string \<times> string list) option" where
  "read_exact n buffer pieces =
     (if length buffer < n
      then (case pieces of [] \<Rightarrow> None | piece # rest \<Rightarrow> read_exact n (buffer @ piece) rest)
      else Some (take n buffer, drop n buffer, pieces))"

declare read_line.simps [simp del] read_exact.simps [simp del]

definition send_command :: "args \<Rightarrow> socket \<Rightarrow> bool \<times> socket" where
  "send_command as sk =
     (let sk1 = sk\<lparr>sk_writes := stl (sk_writes sk)\<rparr>
      in if shd (sk_writes sk) then (True, sk1\<lparr>sk_out := sk_out sk @ aof_encode as\<rparr>) else (False, sk1))"

definition expect_prefix :: "string \<Rightarrow> string \<Rightarrow> bool" where
  "expect_prefix line pre \<longleftrightarrow> length line \<ge> length pre \<and> take (length pre) line = pre"

section \<open>Numbers as the C library reads them\<close>

definition strtoll :: "string \<Rightarrow> int" where
  "strtoll s = (case decimal_prefix s of None \<Rightarrow> 0 | Some v \<Rightarrow> max int64_min (min int64_max v))"

definition strtoull :: "string \<Rightarrow> nat" where
  "strtoull s =
     (case decimal_prefix s of
        None \<Rightarrow> 0
      | Some v \<Rightarrow> if \<bar>v\<bar> \<ge> 2 ^ 64 then 2 ^ 64 - 1 else nat (v mod 2 ^ 64))"

text \<open>The offset follows the last space of the \<open>FULLRESYNC\<close> line.\<close>

definition resync_offset :: "string \<Rightarrow> int" where
  "resync_offset line =
     (if CHR '' '' \<in> set line then strtoll (rev (takeWhile (\<lambda>c. c \<noteq> CHR '' '') (rev line))) else 0)"

section \<open>Handshake and snapshot\<close>

text \<open>One round trip: whether it succeeded, the line, the reader's buffer and the socket.\<close>

definition link_step :: "args \<Rightarrow> string \<Rightarrow> string \<times> socket \<Rightarrow> bool \<times> string \<times> string \<times> socket" where
  "link_step command expected = (\<lambda>(buffer, sk).
     (case send_command command sk of
        (False, sk1) \<Rightarrow> (False, [], buffer, sk1)
      | (True, sk1) \<Rightarrow>
          (case read_line buffer (sk_in sk1) of
             None \<Rightarrow> (False, [], buffer, sk1\<lparr>sk_in := []\<rparr>)
           | Some (line, buffer1, pieces) \<Rightarrow>
               (expected = [] \<or> expect_prefix line expected, line, buffer1, sk1\<lparr>sk_in := pieces\<rparr>))))"

datatype sync_result =
  SyncFailed link_state string
| Synced int "kv_record list" string socket

definition read_snapshot :: "int \<Rightarrow> string \<times> socket \<Rightarrow> sync_result option" where
  "read_snapshot offset = (\<lambda>(buffer, sk).
     (case read_line buffer (sk_in sk) of
        None \<Rightarrow> Some (SyncFailed LkSyncing ''bad RDB header from master'')
      | Some (line, buffer1, pieces) \<Rightarrow>
          if line = [] \<or> hd line \<noteq> CHR ''$'' then Some (SyncFailed LkSyncing ''bad RDB header from master'')
          else
            (case read_exact (strtoull (tl line)) buffer1 pieces of
               None \<Rightarrow> Some (SyncFailed LkSyncing ''truncated RDB from master'')
             | Some (payload, buffer2, pieces2) \<Rightarrow>
                 (case rdb_parse payload of
                    None \<Rightarrow> None
                  | Some (RdbFail records msg) \<Rightarrow> Some (SyncFailed LkSyncing (''corrupt RDB from master: '' @ msg))
                  | Some (RdbOk records) \<Rightarrow> Some (Synced offset records buffer2 (sk\<lparr>sk_in := pieces2\<rparr>))))))"

definition link_sync :: "nat \<Rightarrow> socket \<Rightarrow> sync_result option" where
  "link_sync listening_port sk =
     (let (ok1, line1, st1) = link_step [''PING''] ''+PONG'' ([], sk)
      in if \<not> ok1 then Some (SyncFailed LkHandshaking ''handshake rejected by master'')
         else
           (let (ok2, line2, st2) =
                  link_step [''REPLCONF'', ''listening-port'', to_string_nat listening_port] ''+OK'' st1
            in if \<not> ok2 then Some (SyncFailed LkHandshaking ''handshake rejected by master'')
               else
                 (let (ok3, line3, st3) = link_step [''REPLCONF'', ''capa'', ''psync2''] ''+OK'' st2
                  in if \<not> ok3 then Some (SyncFailed LkHandshaking ''handshake rejected by master'')
                     else
                       (let (ok4, line4, st4) = link_step [''PSYNC'', ''?'', ''-1''] ''+FULLRESYNC'' st3
                        in if \<not> ok4 then Some (SyncFailed LkHandshaking ''master refused PSYNC'')
                           else read_snapshot (resync_offset line4) st4))))"

section \<open>The command stream\<close>

datatype task = Replace "kv_record list" | Apply args

record link_loop =
  ll_offset :: int
  ll_posted :: "task list"
  ll_sock :: socket

definition send_ack :: "link_loop \<Rightarrow> link_loop" where
  "send_ack st =
     st\<lparr>ll_sock := snd (send_command [''REPLCONF'', ''ACK'', to_string (ll_offset st)] (ll_sock st))\<rparr>"

definition stream_handle :: "link_loop \<Rightarrow> args \<times> nat \<Rightarrow> link_loop" where
  "stream_handle st = (\<lambda>(a, n).
     (let st1 = st\<lparr>ll_offset := wrap64 (ll_offset st + int n)\<rparr>
      in if a = [] then st1
         else if upper (hd a) = ''REPLCONF'' \<and> length a \<ge> 2 then send_ack st1
         else if upper (hd a) = ''PING'' then st1
         else st1\<lparr>ll_posted := ll_posted st @ [Apply a]\<rparr>))"

text \<open>Everything but a complete request ends the loop, an error too.\<close>

function stream_parse :: "link_loop \<Rightarrow> string \<Rightarrow> link_loop \<times> string" where
  "stream_parse st remaining =
     (case resp_frame remaining of
        Request a n \<Rightarrow> stream_parse (stream_handle st (a, n)) (drop n remaining)
      | Wait \<Rightarrow> (st, remaining)
      | Broken msg \<Rightarrow> (st, remaining))"
  by pat_completeness auto
termination
  by (relation "measure (\<lambda>(st, remaining). length remaining)") (use resp_frame_progress in fastforce)+

declare stream_parse.simps [simp del]

datatype read_outcome = Ready | Would_block | Lost string

text \<open>
  The rounds of the loop, each with the reading of the clock and what the non-blocking read gives
  (\<open>Ready\<close>: the next piece, if there is one), until the link is told to stop or the connection is
  lost: the state, the bytes not yet parsed, the error.
\<close>

fun stream_rounds :: "(int \<times> read_outcome) list \<Rightarrow> int \<Rightarrow> link_loop \<Rightarrow> string \<Rightarrow> link_loop \<times> string \<times> string option" where
  "stream_rounds [] last_ack st stream = (st, stream, None)"
| "stream_rounds ((now, outcome) # rounds) last_ack st stream =
     (let (st1, rest) = stream_parse st stream;
          due = (now - last_ack \<ge> 1000);
          st2 = (if due then send_ack st1 else st1);
          last_ack2 = (if due then now else last_ack)
      in case outcome of
           Ready \<Rightarrow>
             (case sk_in (ll_sock st2) of
                [] \<Rightarrow> stream_rounds rounds last_ack2 st2 rest
              | piece # pieces \<Rightarrow>
                  stream_rounds rounds last_ack2 (st2\<lparr>ll_sock := (ll_sock st2)\<lparr>sk_in := pieces\<rparr>\<rparr>) (rest @ piece))
         | Would_block \<Rightarrow> stream_rounds rounds last_ack2 st2 rest
         | Lost msg \<Rightarrow> (st2, rest, Some (''lost connection to master: '' @ msg)))"

text \<open>
  One pass of the outer loop: the connection is refused, or it gives a socket, the reading of the
  clock when the stream starts, and the rounds of the stream. The result is the tasks posted, and
  what is left in the offset, the state and the error of the link; \<open>None\<close> when parsing the snapshot
  does not end.
\<close>

datatype connection = Refused string | Established socket int "(int \<times> read_outcome) list"

fun link_attempt :: "connection \<Rightarrow> replication \<Rightarrow> (task list \<times> replication) option" where
  "link_attempt (Refused msg) r =
     Some ([], r\<lparr>r_link_state := LkConnecting, r_link_error := ''cannot connect to master: '' @ msg\<rparr>)"
| "link_attempt (Established sk now rounds) r =
     (case link_sync (r_listening_port r) sk of
        None \<Rightarrow> None
      | Some (SyncFailed state msg) \<Rightarrow> Some ([], r\<lparr>r_link_state := state, r_link_error := msg\<rparr>)
      | Some (Synced offset records leftover sk1) \<Rightarrow>
          (let st = \<lparr>ll_offset = offset, ll_posted = [Replace records], ll_sock = sk1\<rparr>;
               (st1, rest, err) = stream_rounds rounds now st leftover
           in Some (ll_posted st1,
                r\<lparr>r_link_state := LkConnecting, r_replica_offset := ll_offset st1,
                  r_link_error := (case err of Some m \<Rightarrow> m | None \<Rightarrow> [])\<rparr>)))"

text \<open>The thread: one attempt after another, until it is told to stop.\<close>

fun replica_thread :: "connection list \<Rightarrow> replication \<Rightarrow> (task list \<times> replication) option" where
  "replica_thread [] r = Some ([], r\<lparr>r_link_state := LkNone\<rparr>)"
| "replica_thread (c # cs) r =
     (case link_attempt c r of
        None \<Rightarrow> None
      | Some (tasks, r1) \<Rightarrow> map_option (\<lambda>(tasks2, r2). (tasks @ tasks2, r2)) (replica_thread cs r1))"

section \<open>Running the posted tasks\<close>

primrec run_task :: "env \<Rightarrow> world \<Rightarrow> task \<Rightarrow> world" where
  "run_task e w (Replace records) =
     w\<lparr>w_store := foldl load_record (store_clear (w_store w)) records\<rparr>"
| "run_task e w (Apply a) = apply_silently e a w"

section \<open>Reading what the master sends, however it is cut\<close>

lemma read_line_pieces:
  assumes "buffer @ concat pieces = line @ kCrlf @ rest" "CR \<notin> set line"
  shows "\<exists>buffer' pieces'. read_line buffer pieces = Some (line, buffer', pieces') \<and>
    buffer' @ concat pieces' = rest \<and> length pieces' \<le> length pieces"
  using assms(1)
proof (induction pieces arbitrary: buffer)
  case Nil
  then have "find_crlf buffer = Some (length line)" using find_crlf_no_cr [OF assms(2), of rest] by simp
  with Nil show ?case by (simp add: read_line.simps kCrlf_def)
next
  case (Cons piece pieces)
  show ?case
  proof (cases "find_crlf buffer")
    case None
    then show ?thesis using Cons.IH [of "buffer @ piece"] Cons.prems by (auto simp: read_line.simps [of buffer])
  next
    case (Some eol)
    from find_crlf_extend [OF this, of "concat (piece # pieces)"] find_crlf_no_cr [OF assms(2), of rest]
    have eol: "eol = length line" using Cons.prems by simp
    have le: "length line + 2 \<le> length buffer" using find_crlf_bound [OF Some] eol by simp
    have "take (length line) (buffer @ concat (piece # pieces)) = line"
      "drop (length line + 2) (buffer @ concat (piece # pieces)) = rest"
      unfolding Cons.prems by (simp_all add: kCrlf_def)
    with Some eol le show ?thesis by (simp add: read_line.simps [of buffer])
  qed
qed

lemma read_exact_pieces:
  assumes "buffer @ concat pieces = payload @ rest" "n = length payload"
  shows "\<exists>buffer' pieces'. read_exact n buffer pieces = Some (payload, buffer', pieces') \<and>
    buffer' @ concat pieces' = rest \<and> length pieces' \<le> length pieces"
  using assms(1)
proof (induction pieces arbitrary: buffer)
  case Nil
  then show ?case by (simp add: read_exact.simps assms(2))
next
  case (Cons piece pieces)
  show ?case
  proof (cases "length buffer < n")
    case True
    then show ?thesis using Cons.IH [of "buffer @ piece"] Cons.prems by (auto simp: read_exact.simps [of n buffer])
  next
    case False
    have "take n (buffer @ concat (piece # pieces)) = payload" "drop n (buffer @ concat (piece # pieces)) = rest"
      unfolding Cons.prems by (simp_all add: assms(2))
    with False show ?thesis by (simp add: read_exact.simps [of n buffer])
  qed
qed

lemma decimal_prefix_nat: "decimal_prefix (to_string_nat n) = Some (int n)"
proof -
  obtain c cs where c: "to_string_nat n = c # cs" "isdigit c"
    using to_string_nat_nonempty to_string_nat_isdigit by (metis list.exhaust list.set_intros(1))
  then have "\<not> isspace c" "c \<noteq> CHR ''-''" "c \<noteq> CHR ''+''" by (auto simp: isdigit_def isspace_def code_def)
  moreover have "takeWhile isdigit cs = cs"
    using to_string_nat_isdigit [of _ n] c by (simp add: takeWhile_eq_all_conv)
  ultimately show ?thesis
    using c dec_value_to_string_nat [of n] by (simp add: decimal_prefix_def Let_def takeWhile_eq_all_conv [THEN iffD2])
qed

lemma strtoull_nat: "n < 2 ^ 64 \<Longrightarrow> strtoull (to_string_nat n) = n"
  by (simp add: strtoull_def decimal_prefix_nat)

lemma resync_offset_line:
  assumes "0 \<le> v" "v \<le> int64_max"
  shows "resync_offset (pre @ '' '' @ to_string v) = v"
proof -
  have "c \<noteq> CHR '' ''" if "c \<in> set (to_string_nat (nat v))" for c
    using to_string_nat_isdigit [OF that] by (auto simp: isdigit_def code_def)
  then have "takeWhile (\<lambda>c. c \<noteq> CHR '' '') (rev (pre @ '' '' @ to_string_nat (nat v))) = rev (to_string_nat (nat v))"
    by (simp add: takeWhile_append takeWhile_eq_all_conv)
  then show ?thesis
    using assms by (simp add: resync_offset_def to_string_def strtoll_def decimal_prefix_nat int64_defs)
qed

text \<open>A round trip succeeds when the next line starts as expected.\<close>

lemma link_step_ok:
  assumes "sk_writes sk = sconst True" "buffer @ concat (sk_in sk) = line @ kCrlf @ rest" "CR \<notin> set line"
    and "expect_prefix line expected"
  shows "\<exists>buffer' sk'. link_step command expected (buffer, sk) = (True, line, buffer', sk') \<and>
    buffer' @ concat (sk_in sk') = rest \<and> sk_writes sk' = sconst True \<and> length (sk_in sk') \<le> length (sk_in sk)"
  using assms read_line_pieces [OF assms(2,3)]
  by (auto simp: link_step_def send_command_def Let_def siterate.simps)

lemma read_snapshot_ok:
  assumes "buffer @ concat (sk_in sk) = (''$'' @ to_string_nat (length payload) @ kCrlf) @ payload @ stream"
    and "payload = rdb_serialize rs" "length payload < 2 ^ 64" "\<forall>x \<in> set rs. in_int64 (rec_expire_at x)"
  shows "\<exists>leftover sk'. read_snapshot offset (buffer, sk) = Some (Synced offset rs leftover sk') \<and>
    leftover @ concat (sk_in sk') = stream \<and> length (sk_in sk') \<le> length (sk_in sk)"
proof -
  have cr: "CR \<notin> set (''$'' @ to_string_nat (length payload))" using cr_not_digit by simp
  obtain b1 p1 where l: "read_line buffer (sk_in sk) = Some (''$'' @ to_string_nat (length payload), b1, p1)"
    "b1 @ concat p1 = payload @ stream" "length p1 \<le> length (sk_in sk)"
    using read_line_pieces [OF _ cr, of buffer "sk_in sk" "payload @ stream"] assms(1) by auto
  obtain b2 p2 where e: "read_exact (length payload) b1 p1 = Some (payload, b2, p2)" "b2 @ concat p2 = stream" "length p2 \<le> length p1"
    using read_exact_pieces [OF l(2) refl] by auto
  have "rdb_parse payload = Some (RdbOk rs)" using rdb_parse_serialize [of rs] assms(2-4) by simp
  with l e strtoull_nat [OF assms(3)] show ?thesis by (simp add: read_snapshot_def)
qed

definition greeting :: string where
  "greeting = ''+PONG'' @ kCrlf @ ''+OK'' @ kCrlf @ ''+OK'' @ kCrlf"

definition resync_header :: "string \<Rightarrow> int \<Rightarrow> string" where
  "resync_header replid offset = ''+FULLRESYNC '' @ replid @ '' '' @ to_string offset @ kCrlf"

lemma link_sync_ok:
  assumes "sk_writes sk = sconst True"
    and "concat (sk_in sk) = greeting @ resync_header replid offset @
      (''$'' @ to_string_nat (length payload) @ kCrlf) @ payload @ stream"
    and "CR \<notin> set replid" "0 \<le> offset" "offset \<le> int64_max"
    and "payload = rdb_serialize rs" "length payload < 2 ^ 64" "\<forall>x \<in> set rs. in_int64 (rec_expire_at x)"
  shows "\<exists>leftover sk'. link_sync port sk = Some (Synced offset rs leftover sk') \<and>
    leftover @ concat (sk_in sk') = stream \<and> length (sk_in sk') \<le> length (sk_in sk)"
proof -
  let ?tail = "(''$'' @ to_string_nat (length payload) @ kCrlf) @ payload @ stream"
  let ?line = "''+FULLRESYNC '' @ replid @ '' '' @ to_string offset"
  let ?port = "[''REPLCONF'', ''listening-port'', to_string_nat port]"
  let ?ok = "''+OK'' @ kCrlf"
  have i: "[] @ concat (sk_in sk) = ''+PONG'' @ kCrlf @ ?ok @ ?ok @ ?line @ kCrlf @ ?tail"
    using assms(2) by (simp add: greeting_def resync_header_def)
  obtain b1 k1 where s1: "link_step [''PING''] ''+PONG'' ([], sk) = (True, ''+PONG'', b1, k1)"
    "b1 @ concat (sk_in k1) = ''+OK'' @ kCrlf @ ?ok @ ?line @ kCrlf @ ?tail" "sk_writes k1 = sconst True"
    "length (sk_in k1) \<le> length (sk_in sk)"
    using link_step_ok [OF assms(1) i, of "''+PONG''" "[''PING'']"] by (auto simp: expect_prefix_def)
  obtain b2 k2 where s2: "link_step ?port ''+OK'' (b1, k1) = (True, ''+OK'', b2, k2)"
    "b2 @ concat (sk_in k2) = ''+OK'' @ kCrlf @ ?line @ kCrlf @ ?tail" "sk_writes k2 = sconst True"
    "length (sk_in k2) \<le> length (sk_in k1)"
    using link_step_ok [OF s1(3,2), of "''+OK''" ?port] by (auto simp: expect_prefix_def)
  obtain b3 k3 where s3: "link_step [''REPLCONF'', ''capa'', ''psync2''] ''+OK'' (b2, k2) = (True, ''+OK'', b3, k3)"
    "b3 @ concat (sk_in k3) = ?line @ kCrlf @ ?tail" "sk_writes k3 = sconst True"
    "length (sk_in k3) \<le> length (sk_in k2)"
    using link_step_ok [OF s2(3,2), of "''+OK''" "[''REPLCONF'', ''capa'', ''psync2'']"] by (auto simp: expect_prefix_def)
  have cr: "CR \<notin> set ?line" using assms(3,4) cr_not_digit by (simp add: to_string_def)
  have ex: "expect_prefix ?line ''+FULLRESYNC''" by (simp add: expect_prefix_def)
  obtain b4 k4 where s4: "link_step [''PSYNC'', ''?'', ''-1''] ''+FULLRESYNC'' (b3, k3) = (True, ?line, b4, k4)"
    "b4 @ concat (sk_in k4) = ?tail" "sk_writes k4 = sconst True"
    "length (sk_in k4) \<le> length (sk_in k3)"
    using link_step_ok [OF s3(3,2) cr ex, of "[''PSYNC'', ''?'', ''-1'']"] by auto
  have "resync_offset ?line = offset" using resync_offset_line [OF assms(4,5), of "''+FULLRESYNC '' @ replid"] by simp
  with read_snapshot_ok [OF s4(2) assms(6-8), of offset] s1(1,4) s2(1,4) s3(1,4) s4(1,4) show ?thesis
    by (auto simp: link_sync_def Let_def)
qed

section \<open>The stream posts the commands of the master\<close>

definition link_frame :: "string \<Rightarrow> (args \<times> nat) framed" where
  "link_frame inp = (case resp_frame inp of Request a n \<Rightarrow> Request (a, n) n | Wait \<Rightarrow> Wait | Broken msg \<Rightarrow> Broken msg)"

interpretation lnk: stream_consumer link_frame resp_array "\<lambda>as. (as, length (resp_array as))" wire_ok stream_parse stream_handle
proof
  show "link_frame (resp_array as @ rest) = Request (as, length (resp_array as)) (length (resp_array as))"
    if "wire_ok as" for as rest using resp.frame_enc [OF that] by (simp add: link_frame_def)
  show "link_frame (take n (resp_array as)) = Wait" if "wire_ok as" "n < length (resp_array as)" for as n
    using resp.frame_prefix [OF that] by (simp add: link_frame_def)
  show "link_frame [] = Wait" by (simp add: link_frame_def resp.frame_empty)
  show "stream_parse st inp = stream_parse (stream_handle st r) (drop n inp)" if "link_frame inp = Request r n" for inp r n st
    using that by (auto simp: link_frame_def stream_parse.simps [of st inp] split: framed.splits)
  show "stream_parse st inp = (st, inp)" if "link_frame inp = Wait" for inp st
    using that by (auto simp: link_frame_def stream_parse.simps [of st inp] split: framed.splits)
qed

text \<open>The rounds do not lose the connection; how often they find bytes.\<close>

definition steady :: "(int \<times> read_outcome) list \<Rightarrow> bool" where
  "steady rounds \<longleftrightarrow> (\<forall>x \<in> set rounds. \<forall>msg. snd x \<noteq> Lost msg)"

definition readies :: "(int \<times> read_outcome) list \<Rightarrow> nat" where
  "readies rounds = length (filter (\<lambda>x. snd x = Ready) rounds)"

definition is_logged :: "args \<Rightarrow> bool" where
  "is_logged c \<longleftrightarrow> wire_ok c \<and> is_write_command (upper (hd c))"

lemma send_ack_simps [simp]: "ll_offset (send_ack st) = ll_offset st" "ll_posted (send_ack st) = ll_posted st"
  "sk_in (ll_sock (send_ack st)) = sk_in (ll_sock st)"
  by (simp_all add: send_ack_def send_command_def Let_def)

lemma wrap64_plus: "wrap64 (wrap64 a + b) = wrap64 (a + b)"
proof -
  have "(wrap64 a + b + 9223372036854775808) mod 18446744073709551616 = (a + b + 9223372036854775808) mod 18446744073709551616"
    unfolding wrap64_def using mod_add_left_eq [of "a + 9223372036854775808" 18446744073709551616 b] by (simp add: algebra_simps)
  then show ?thesis by (simp add: wrap64_def)
qed

text \<open>What handling writes leaves in the offset and the posted tasks.\<close>

definition advanced :: "link_loop \<Rightarrow> args list \<Rightarrow> link_loop \<Rightarrow> bool" where
  "advanced st cs st' \<longleftrightarrow> ll_posted st' = ll_posted st @ map Apply cs \<and>
     wrap64 (ll_offset st') = wrap64 (ll_offset st + int (length (concat (map aof_encode cs))))"

lemma handle_all_pieces [simp]: "sk_in (ll_sock (lnk.handle_all st cs)) = sk_in (ll_sock st)"
  by (induction cs arbitrary: st) (simp_all add: stream_handle_def Let_def)

lemma advanced_trans: "advanced st cs st1 \<Longrightarrow> advanced st1 ds st2 \<Longrightarrow> advanced st (cs @ ds) st2"
  unfolding advanced_def
  by (simp add: add.assoc [symmetric])
     (metis wrap64_plus)

lemma handle_all_advanced:
  assumes "\<forall>c \<in> set cs. is_logged c"
  shows "advanced st cs (lnk.handle_all st cs)"
  using assms
proof (induction cs arbitrary: st)
  case Nil
  then show ?case by (simp add: advanced_def)
next
  case (Cons c cs)
  then have "c \<noteq> []" "upper (hd c) \<noteq> ''REPLCONF''" "upper (hd c) \<noteq> ''PING''"
    by (auto simp: is_logged_def wire_ok_def is_write_command_def)
  then have "advanced st [c] (stream_handle st (c, length (resp_array c)))"
    using wrap64_plus [of "ll_offset st + int (length (resp_array c))" 0]
    by (simp add: advanced_def stream_handle_def aof_encode_eq Let_def)
  from advanced_trans [OF this Cons.IH] Cons.prems show ?case by simp
qed

lemma stream_rounds_steady:
  assumes "\<forall>c \<in> set cs. is_logged c" "steady rounds" "stream @ concat (sk_in (ll_sock st)) = concat (map aof_encode cs)"
  shows "\<exists>ds es st' rest. cs = ds @ es \<and> stream_rounds rounds last_ack st stream = (st', rest, None) \<and>
    advanced st ds st' \<and> rest @ concat (sk_in (ll_sock st')) = concat (map aof_encode es) \<and>
    length (sk_in (ll_sock st')) = length (sk_in (ll_sock st)) - readies rounds"
  using assms
proof (induction rounds arbitrary: cs st stream last_ack)
  case Nil
  then show ?case by (intro exI [of _ "[]"] exI [of _ cs]) (simp add: advanced_def readies_def)
next
  case (Cons x rounds)
  obtain now outcome where x: "x = (now, outcome)" by fastforce
  have wok: "\<forall>c \<in> set cs. wire_ok c" using Cons.prems(1) by (simp add: is_logged_def)
  obtain ds q es where sp: "resp.split (length stream) cs = (ds, q, es)" by (metis prod_cases3)
  have "resp.stream cs = stream @ concat (sk_in (ll_sock st))"
    using Cons.prems(3) by (simp add: resp.stream_def aof_encode_eq)
  with resp.split_correct [OF sp wok]
  have px: "cs = ds @ es" "stream = resp.stream ds @ q" "resp_frame q = Wait"
    "q @ concat (sk_in (ll_sock st)) = concat (map aof_encode es)"
    by (auto simp: resp.stream_def aof_encode_eq)
  have ps: "stream_parse st stream = (lnk.handle_all st ds, q)"
    unfolding px(2) by (rule lnk.run_stream) (use px wok in \<open>auto simp: link_frame_def\<close>)
  define st1 where "st1 = (if now - last_ack \<ge> 1000 then send_ack (lnk.handle_all st ds) else lnk.handle_all st ds)"
  define ack1 where "ack1 = (if now - last_ack \<ge> 1000 then now else last_ack)"
  have adv: "advanced st ds st1" "sk_in (ll_sock st1) = sk_in (ll_sock st)"
    using handle_all_advanced [of ds st] Cons.prems(1) px(1) by (auto simp: st1_def advanced_def)
  have sr: "stream_rounds (x # rounds) last_ack st stream =
      (case outcome of
         Ready \<Rightarrow> (case sk_in (ll_sock st1) of [] \<Rightarrow> stream_rounds rounds ack1 st1 q
           | piece # pieces \<Rightarrow> stream_rounds rounds ack1 (st1\<lparr>ll_sock := (ll_sock st1)\<lparr>sk_in := pieces\<rparr>\<rparr>) (q @ piece))
       | Would_block \<Rightarrow> stream_rounds rounds ack1 st1 q
       | Lost msg \<Rightarrow> (st1, q, Some (''lost connection to master: '' @ msg)))"
    by (simp only: x ps stream_rounds.simps Let_def prod.case st1_def ack1_def)
  obtain st2 stream2 where s2: "stream_rounds (x # rounds) last_ack st stream = stream_rounds rounds ack1 st2 stream2"
    "stream2 @ concat (sk_in (ll_sock st2)) = concat (map aof_encode es)" "advanced st ds st2"
    "length (sk_in (ll_sock st2)) = length (sk_in (ll_sock st)) - (if outcome = Ready then 1 else 0)"
  proof (cases "outcome = Ready \<and> sk_in (ll_sock st) \<noteq> []")
    case True
    then obtain piece pieces where "sk_in (ll_sock st) = piece # pieces" by (cases "sk_in (ll_sock st)") auto
    with True px(4) adv sr show ?thesis
      by (intro that [of "st1\<lparr>ll_sock := (ll_sock st1)\<lparr>sk_in := pieces\<rparr>\<rparr>" "q @ piece"]) (auto simp: advanced_def)
  next
    case False
    then have "stream_rounds (x # rounds) last_ack st stream = stream_rounds rounds ack1 st1 q"
      using sr adv(2) Cons.prems(2) x by (cases outcome) (auto simp: steady_def)
    with False px(4) adv show ?thesis by (intro that [of st1 q]) auto
  qed
  have st: "steady rounds" using Cons.prems(2) by (simp add: steady_def)
  from Cons.IH [OF _ st s2(2), of ack1] Cons.prems(1) px(1)
  obtain ds' es' st' rest where "es = ds' @ es'" "stream_rounds rounds ack1 st2 stream2 = (st', rest, None)"
    "advanced st2 ds' st'" "rest @ concat (sk_in (ll_sock st')) = concat (map aof_encode es')"
    "length (sk_in (ll_sock st')) = length (sk_in (ll_sock st2)) - readies rounds" by auto
  with advanced_trans [OF s2(3)] s2(1,4) px(1) x show ?case
    by (intro exI [of _ "ds @ ds'"] exI [of _ es']) (simp add: readies_def)
qed

text \<open>A last round, in which nothing arrives, parses all that was read before.\<close>

lemma stream_rounds_append:
  assumes "stream_rounds rounds last_ack st stream = (st', rest, None)"
  shows "\<exists>ack. stream_rounds (rounds @ later) last_ack st stream = stream_rounds later ack st' rest"
  using assms
proof (induction rounds last_ack st stream rule: stream_rounds.induct)
  case (2 now outcome rounds last_ack st stream)
  then show ?case by (cases outcome) (auto simp: Let_def split: prod.splits list.splits)
qed auto

lemma stream_rounds_complete:
  assumes "\<forall>c \<in> set cs. is_logged c" "steady rounds" "stream @ concat (sk_in (ll_sock st)) = concat (map aof_encode cs)"
    and "length (sk_in (ll_sock st)) \<le> readies rounds"
  shows "\<exists>st'. stream_rounds (rounds @ [(now, Would_block)]) last_ack st stream = (st', [], None) \<and> advanced st cs st'"
proof -
  from stream_rounds_steady [OF assms(1-3), of last_ack] assms(4)
  obtain ds es st1 where s: "cs = ds @ es" "advanced st ds st1"
    "stream_rounds rounds last_ack st stream = (st1, concat (map aof_encode es), None)" by auto
  from stream_rounds_append [OF s(3)] obtain ack where
    a: "stream_rounds (rounds @ [(now, Would_block)]) last_ack st stream =
      stream_rounds [(now, Would_block)] ack st1 (concat (map aof_encode es))" by blast
  have "stream_parse st1 (concat (map aof_encode es) @ []) = (lnk.handle_all st1 es, [])"
    unfolding aof_encode_eq resp.stream_def [symmetric]
    by (rule lnk.run_stream) (use assms(1) s(1) lnk.frame_empty in \<open>auto simp: is_logged_def\<close>)
  with a advanced_trans [OF s(2) handle_all_advanced [of es st1]] assms(1) s(1) show ?thesis
    by (auto simp: Let_def advanced_def)
qed

lemma malformed_header: "\<exists>msg. resp_frame (''*x'' @ kCrlf @ bytes) = Broken msg"
proof -
  let ?inp = "''*x'' @ kCrlf @ bytes"
  have c: "find_crlf_from ?inp 0 = Some 2" using find_crlf_no_cr [of "''*x''" bytes] by (simp add: find_crlf_from_def)
  have "char_at ?inp 0 = Some CHR ''*''" "substr ?inp 1 (2 - 1) = Some ''x''"
    by (simp_all add: char_at_def substr_def)
  moreover have "parse_int ''x'' = None" by code_simp
  ultimately have "parse_request_opt ?inp = Some (protocol_error ''ERR Protocol error: invalid multibulk length'')"
    unfolding parse_request_opt_def c by simp
  then show ?thesis by (simp add: resp_frame_def parse_request_def protocol_error_def)
qed

text \<open>
  A malformed request in the stream stalls the link for good: nothing is posted any more, the
  offset stands still, and the connection is kept. Any bytes may follow.
\<close>
theorem malformed_stream_stalls:
  assumes "steady rounds"
  shows "\<exists>st' rest. stream_rounds rounds last_ack st (''*x'' @ kCrlf @ bytes) = (st', rest, None) \<and>
    ll_posted st' = ll_posted st \<and> ll_offset st' = ll_offset st"
  using assms
proof (induction rounds arbitrary: last_ack st bytes)
  case (Cons x rounds)
  have p: "stream_parse st (''*x'' @ kCrlf @ bytes) = (st, ''*x'' @ kCrlf @ bytes)"
    using malformed_header [of bytes] by (auto simp: stream_parse.simps [of st])
  have s: "steady rounds" using Cons.prems by (simp add: steady_def)
  define st1 where "st1 = (if fst x - last_ack \<ge> 1000 then send_ack st else st)"
  have st1: "ll_posted st1 = ll_posted st" "ll_offset st1 = ll_offset st" by (simp_all add: st1_def)
  obtain ack st2 bytes2 where "stream_rounds (x # rounds) last_ack st (''*x'' @ kCrlf @ bytes) =
      stream_rounds rounds ack st2 (''*x'' @ kCrlf @ bytes2)" "ll_posted st2 = ll_posted st" "ll_offset st2 = ll_offset st"
  proof (cases "snd x = Ready \<and> sk_in (ll_sock st1) \<noteq> []")
    case True
    then obtain piece pieces where "sk_in (ll_sock st1) = piece # pieces" by (cases "sk_in (ll_sock st1)") auto
    with True p st1 show ?thesis
      by (cases x) (auto simp: Let_def st1_def intro!: that [of _ "st1\<lparr>ll_sock := (ll_sock st1)\<lparr>sk_in := pieces\<rparr>\<rparr>" "bytes @ piece"])
  next
    case False
    with p st1 Cons.prems show ?thesis
      by (cases x; cases "snd x") (auto simp: Let_def st1_def steady_def intro!: that [of _ st1 bytes])
  qed
  with Cons.IH [OF s, of ack st2 bytes2] show ?case by auto
qed simp

end
