(* ===== verification/Mirror.thy ===== *)
theory Mirror
  imports Recovery Replica_Link
begin

text \<open>
  The composition of master and replica: what a master that serves other clients sends to a
  replica it has resynchronised, and what the replica's link thread and event loop make of it. The
  invariant \<open>mirrored\<close> says that the bytes sent to the replica since are the encoding of commands
  that turn the keyspace of the resynchronisation into the present one.
\<close>

section \<open>The master\<close>

definition mirrored :: "int \<Rightarrow> link \<Rightarrow> (int \<Rightarrow> keyspace) \<Rightarrow> int \<Rightarrow> world \<Rightarrow> bool" where
  "mirrored T l m offset w \<longleftrightarrow> store_inv (w_store w) \<and>
     (\<exists>r cs. w_repl w = Some r \<and> attached_once l r \<and> follows T m (w_store w) cs \<and>
        sent_to l (w_sent w) = concat (map aof_encode cs) \<and>
        r_master_offset r = offset + int (length (concat (map aof_encode cs))))"

text \<open>The replica's connection sends nothing, stays open, and the writes can be carried to \<open>T\<close>.\<close>

fun mirror_ok :: "link \<Rightarrow> int \<Rightarrow> world \<Rightarrow> event \<Rightarrow> bool" where
  "mirror_ok l T w (Cmd e link a) \<longleftrightarrow> link \<noteq> Some l \<and> carried T w (dispatch e a link w)"
| "mirror_ok l T w (Hangup link) \<longleftrightarrow> link \<noteq> Some l"
| "mirror_ok l T w ev \<longleftrightarrow> True"

text \<open>The replicas, the offset and the bytes for \<open>l\<close> are as before.\<close>

definition same_link :: "link \<Rightarrow> world \<Rightarrow> world \<Rightarrow> bool" where
  "same_link l w w' \<longleftrightarrow> sent_to l (w_sent w') = sent_to l (w_sent w) \<and>
     (\<forall>r. w_repl w = Some r \<longrightarrow> (\<exists>r'. w_repl w' = Some r' \<and> r_master_offset r' = r_master_offset r \<and>
        (attached_once l r \<longrightarrow> attached_once l r')))"

lemma same_link_frame: "w_repl w' = w_repl w \<Longrightarrow> w_sent w' = w_sent w \<Longrightarrow> same_link l w w'"
  by (simp add: same_link_def)

lemma same_link_replconf: "same_link l w (snd (cmd_replconf e a link w))"
  by (auto simp: same_link_def cmd_replconf_def on_replica_ack_def set_replica_port_def attached_once_def
      filter_map_link Let_def split: option.split)

lemma same_link_psync: "link \<noteq> Some l \<Longrightarrow> same_link l w (snd (cmd_psync e link w))"
  by (cases link) (auto simp: same_link_def cmd_psync_def start_full_resync_def attached_once_def
      case_prod_unfold Let_def split: option.split)

lemma same_link_replicaof: "same_link l w (snd (cmd_replicaof a w))"
  by (auto simp: same_link_def cmd_replicaof_def replicaof_def stop_replication_def attached_once_def
      split: option.split)

lemma same_link_persistence: "same_link l w (snd (cmd_persistence e name w))"
  by (rule same_link_frame) (simp_all add: cmd_persistence_def case_prod_unfold Let_def split: option.split)

lemma same_link_info: "same_link l w (snd (cmd_info uptime w))"
  by (rule same_link_frame) (simp_all add: cmd_info_def case_prod_unfold Let_def split: option.split)

lemma same_link_refl [simp]: "same_link l w w" "same_link l w (w\<lparr>w_store := s\<rparr>)"
  by (simp_all add: same_link_frame)

lemmas same_link_commands = same_link_replconf same_link_psync same_link_replicaof same_link_persistence same_link_info

lemma same_link_dispatch:
  assumes "link \<noteq> Some l"
  shows "same_link l w (snd (dispatch e a link w))"
proof -
  define name where "name = upper (hd a)"
  show ?thesis
    unfolding dispatch_def name_def [symmetric] Let_def
    using assms by (simp add: case_prod_unfold same_link_commands split: option.split)
qed

lemma sent_to_own [simp]: "link \<noteq> Some l \<Longrightarrow> sent_to l (w_sent (fst (own_sends link w out))) = sent_to l (w_sent w)"
proof -
  assume "link \<noteq> Some l"
  then have "filter (\<lambda>x. fst x = l \<and> Some (fst x) \<noteq> link) xs = filter (\<lambda>x. fst x = l) xs" for xs :: sends
    by (auto intro: filter_cong)
  then show ?thesis by (simp add: own_sends_def sent_to_def conj_commute)
qed

lemma hook_sends:
  assumes "w_repl w = Some r" "attached_once l r"
  shows "sent_to l (w_sent (propagate_hook as w)) = sent_to l (w_sent w) @ aof_encode as"
    and "\<exists>r'. w_repl (propagate_hook as w) = Some r' \<and> attached_once l r' \<and>
      r_master_offset r' = r_master_offset r + int (length (aof_encode as))"
  using assms by (auto simp: propagate_hook_def repl_propagate_def attached_once_def sent_to_broadcast Let_def
      split: option.split)

lemma mirrored_same:
  assumes "mirrored T l m offset w" "same_link l w w'" "store_inv (w_store w')"
    and "\<And>u. T \<le> u \<Longrightarrow> view u (w_store w') = view u (w_store w)"
  shows "mirrored T l m offset w'"
proof -
  obtain r cs where r: "w_repl w = Some r" "attached_once l r" "follows T m (w_store w) cs"
    "sent_to l (w_sent w) = concat (map aof_encode cs)"
    "r_master_offset r = offset + int (length (concat (map aof_encode cs)))" using assms(1) by (auto simp: mirrored_def)
  with assms(2) obtain r' where "w_repl w' = Some r'" "attached_once l r'" "r_master_offset r' = r_master_offset r"
    "sent_to l (w_sent w') = sent_to l (w_sent w)" by (auto simp: same_link_def)
  with r assms(3) follows_same [OF r(3) assms(4)] show ?thesis by (auto simp: mirrored_def)
qed

lemma same_link_trans: "same_link l w w1 \<Longrightarrow> same_link l w1 w2 \<Longrightarrow> same_link l w w2"
  unfolding same_link_def by fastforce

lemma same_link_own: "link \<noteq> Some l \<Longrightarrow> same_link l w (fst (own_sends link w out))"
  by (simp add: same_link_def)

lemma mirrored_command:
  assumes "mirrored T l m offset w" "frozen t (w_store w)" "t \<le> T" "mirror_ok l T w (Cmd e link a)"
  shows "mirrored T l m offset (fst (handle_command e link a w out))"
proof -
  let ?d = "dispatch e a link w"
  define w2 where "w2 = fst (own_sends link (snd ?d) out)"
  have l: "link \<noteq> Some l" using assms(4) by simp
  have i: "store_inv (w_store w)" using assms(1) by (simp add: mirrored_def)
  have td: "tidy t (w_store w) (fst ?d, w_store (snd ?d))" by (rule dispatch_tidy [OF assms(2) i])
  have w2: "same_link l w w2" "w_store w2 = w_store (snd ?d)"
    using same_link_trans [OF same_link_dispatch [OF l] same_link_own [OF l]] by (simp_all add: w2_def)
  show ?thesis
  proof (cases "cr_dirty (fst ?d)")
    case False
    then have "fst (handle_command e link a w out) = w2" by (simp add: handle_command_def w2_def case_prod_unfold Let_def)
    with mirrored_same [OF assms(1) w2(1)] w2(2) td False assms(3) show ?thesis by (simp add: tidy_def)
  next
    case True
    then have ne: "a \<noteq> []" by (auto simp: dispatch_def)
    obtain r s1 where c: "store_command (upper (hd a)) a (w_store w) = Some (r, s1)" "?d = (r, w\<lparr>w_store := s1\<rparr>)"
      using True dispatch_cases [OF ne, of w link e] by metis
    let ?p = "cr_propagate r"
    have d: "cr_dirty r" "wire_ok ?p" "log_ok ?p" "no_revival T (w_store w) s1 ?p"
      using True assms(4) c(2) by auto
    obtain q cs where q: "w_repl w = Some q" "attached_once l q" "follows T m (w_store w) cs"
      "sent_to l (w_sent w) = concat (map aof_encode cs)"
      "r_master_offset q = offset + int (length (concat (map aof_encode cs)))" using assms(1) by (auto simp: mirrored_def)
    with w2(1) obtain q2 where q2: "w_repl w2 = Some q2" "attached_once l q2" "r_master_offset q2 = r_master_offset q"
      "sent_to l (w_sent w2) = sent_to l (w_sent w)" by (auto simp: same_link_def)
    let ?w3 = "propagate_hook ?p w2"
    have h: "fst (handle_command e link a w out) =
        fst (own_sends link ?w3 (buf_append (snd (own_sends link (snd ?d) out)) (cr_reply r)))"
      using d(1) c(2) by (simp add: handle_command_def w2_def case_prod_unfold Let_def)
    have "follows T m s1 (cs @ [?p])" by (rule follows_append [OF q(3) assms(2) i assms(3) c(1) d(1) ne d(2-4)])
    moreover note hook_sends [OF q2(1,2), of ?p]
    ultimately show ?thesis
      using q q2 l w2(2) c(2) td unfolding h mirrored_def
      by (auto simp: tidy_def intro!: exI [of _ "cs @ [?p]"])
  qed
qed

lemma pers_cron_keeps:
  assumes "store_inv s"
  shows "store_inv (fst (snd (pers_cron e p s fs)))" "view u (fst (snd (pers_cron e p s fs))) = view u s"
proof -
  have a: "fst (snd (cron_aof e p s fs)) = s \<or> fst (snd (cron_aof e p s fs)) = snd (store_snapshot s)"
    by (auto simp: cron_aof_def pers_rewrite_aof_def case_prod_unfold Let_def)
  define s1 where "s1 = fst (snd (cron_aof e p s fs))"
  have s1: "store_inv s1" "view u s1 = view u s" using a assms by (auto simp: s1_def)
  have "fst (snd (pers_cron e p s fs)) = s1 \<or> fst (snd (pers_cron e p s fs)) = snd (store_snapshot s1)"
    by (auto simp: pers_cron_def background_save_def s1_def case_prod_unfold Let_def)
  with s1 show "store_inv (fst (snd (pers_cron e p s fs)))" "view u (fst (snd (pers_cron e p s fs))) = view u s" by auto
qed

lemma cron_task_keeps:
  assumes "frozen t (w_store w)" "store_inv (w_store w)" "t \<le> u"
  shows "store_inv (w_store (cron_task e w))" "view u (w_store (cron_task e w)) = view u (w_store w)"
  using assms pers_cron_keeps cycle_frozen [OF assms]
  by (auto simp: cron_task_def case_prod_unfold Let_def split: option.split)

lemma same_link_closed: "link \<noteq> Some l \<Longrightarrow> same_link l w (handler_on_disconnect link w)"
proof -
  assume "link \<noteq> Some l"
  then have "filter (\<lambda>x. rep_link x = l) (filter (\<lambda>x. Some (rep_link x) \<noteq> link) rs) = filter (\<lambda>x. rep_link x = l) rs" for rs :: "replica list"
    by (auto intro: filter_cong)
  then show ?thesis
    by (auto simp: same_link_def handler_on_disconnect_def repl_on_disconnect_def attached_once_def split: option.split)
qed

lemma mirrored_step:
  assumes "mirrored T l m offset w" "0 \<le> t'" "t' \<le> T" "mirror_ok l T (set_clock t' w) ev"
  shows "mirrored T l m offset (world_step (set_clock t' w) ev)"
proof -
  let ?w = "set_clock t' w"
  have f: "frozen t' (w_store ?w)" by (simp add: set_clock_def frozen_def)
  have i: "store_inv (w_store ?w)" using assms(1,2) by (auto simp: mirrored_def set_clock_def store_inv_def)
  have m: "mirrored T l m offset ?w"
    by (rule mirrored_same [OF assms(1) _ i]) (simp_all add: set_clock_def)
  show ?thesis
  proof (cases ev)
    case (Cmd e link a)
    then show ?thesis using mirrored_command [OF m f assms(3)] assms(4) by simp
  next
    case (Tick e)
    have "same_link l ?w (cron_task e ?w)"
      by (rule same_link_frame) (simp_all add: cron_task_def case_prod_unfold Let_def split: option.split)
    from mirrored_same [OF m this] cron_task_keeps [OF f i] assms(3) Tick show ?thesis by simp
  next
    case (SaverDone io)
    have "same_link l ?w (world_step ?w ev)"
      unfolding SaverDone by (rule same_link_frame) (simp_all add: case_prod_unfold Let_def split: option.split)
    moreover have "w_store (world_step ?w ev) = w_store ?w" by (simp add: SaverDone case_prod_unfold Let_def split: option.split)
    ultimately show ?thesis using mirrored_same [OF m] i by simp
  next
    case (Hangup link)
    have "w_store (handler_on_disconnect link ?w) = w_store ?w" by (simp add: handler_on_disconnect_def split: option.split)
    with mirrored_same [OF m same_link_closed] i Hangup assms(4) show ?thesis by simp
  qed
qed

lemma mirrored_run:
  assumes "mirrored T l m offset w" "0 \<le> t" "run_sat (mirror_ok l T) T t w evs"
  shows "mirrored T l m offset (world_run w evs)"
  using assms
proof (induction evs arbitrary: t w)
  case (Cons x evs)
  obtain t' ev where x: "x = (t', ev)" by fastforce
  with Cons.prems have r: "t \<le> t'" "mirror_ok l T (set_clock t' w) ev"
    "run_sat (mirror_ok l T) T t' (world_step (set_clock t' w) ev) evs" by simp_all
  have "0 \<le> t'" using r(1) Cons.prems(2) by simp
  from Cons.IH [OF mirrored_step [OF Cons.prems(1) this run_sat_le [OF r(3)] r(2)] this r(3)] show ?case by (simp add: x)
qed simp

text \<open>The resynchronisation: what the connection is sent, and that the invariant holds after it.\<close>

definition resync_bytes :: "replication \<Rightarrow> store \<Rightarrow> string" where
  "resync_bytes r s =
     (let payload = rdb_serialize (fst (store_snapshot s))
      in resync_header (r_replid r) (r_master_offset r) @ (''$'' @ to_string_nat (length payload) @ kCrlf) @ payload)"

lemma own_sends_readable:
  assumes "buf_inv out"
  shows "buf_readable (snd (own_sends (Some l) w out)) = buf_readable out @ sent_to l (w_sent w) \<and>
    buf_inv (snd (own_sends (Some l) w out))"
proof -
  have "buf_readable (foldl (\<lambda>b x. buf_append b (snd x)) b xs) = buf_readable b @ concat (map snd xs) \<and>
      buf_inv (foldl (\<lambda>b x. buf_append b (snd x)) b xs)" if "buf_inv b" for b and xs :: sends
    using that by (induction xs arbitrary: b) (simp_all add: buf_append_readable buf_append_inv)
  then show ?thesis using assms by (simp add: own_sends_def sent_to_def)
qed

lemma sent_to_own_self [simp]: "sent_to l (w_sent (fst (own_sends (Some l) w out))) = []"
  by (simp add: own_sends_def sent_to_def)

lemma psync_mirrored:
  assumes "w_repl w = Some r" "l \<notin> rep_link ` set (r_replicas r)" "sent_to l (w_sent w) = []"
    and "frozen t (w_store w)" "store_inv (w_store w)" "t \<le> T"
    and "handle_command e (Some l) [''PSYNC'', ''?'', ''-1''] w buf_new = (w1, out)"
  shows "buf_readable out = resync_bytes r (w_store w)"
    and "mirrored T l (\<lambda>u. view u (w_store w)) (r_master_offset r) w1"
proof -
  let ?a = "[''PSYNC'', ''?'', ''-1'']"
  obtain r1 s1 sent where rs: "start_full_resync (e_now e) (e_peer e) (Some l) r (w_store w) = (r1, s1, sent)"
    by (metis prod_cases3)
  let ?w = "w\<lparr>w_repl := Some r1, w_store := s1, w_sent := w_sent w @ sent\<rparr>"
  have "upper ''PSYNC'' = ''PSYNC''" by code_simp
  then have "dispatch e ?a (Some l) w = (clean [], ?w)"
    using assms(1) rs by (simp add: dispatch_def cmd_psync_def refused_on_replica_def is_write_command_def)
  then have h: "w1 = fst (own_sends (Some l) ?w buf_new)" "out = buf_append (snd (own_sends (Some l) ?w buf_new)) []"
    using assms(7) by (simp_all add: handle_command_def case_prod_unfold Let_def)
  have r1: "s1 = snd (store_snapshot (w_store w))" "r_master_offset r1 = r_master_offset r"
    "sent_to l sent = resync_bytes r (w_store w)"
    using rs by (auto simp: start_full_resync_def resync_bytes_def resync_header_def case_prod_unfold Let_def)
  show "buf_readable out = resync_bytes r (w_store w)"
    using own_sends_readable [of buf_new l ?w] assms(3) r1(3) by (simp add: h(2) buf_append_readable)
  have "follows T (\<lambda>u. view u (w_store w)) s1 []" using r1(1) by (simp add: follows_def shows_from_def)
  then show "mirrored T l (\<lambda>u. view u (w_store w)) (r_master_offset r) w1"
    using resync_attaches [OF assms(2) rs] r1 assms(5) by (auto simp: mirrored_def h(1) intro!: exI [of _ "[]"])
qed

section \<open>The replica\<close>

lemma load_all_inv:
  "frozen t s \<Longrightarrow> store_inv s \<Longrightarrow> frozen t (foldl load_record s rs) \<and> store_inv (foldl load_record s rs)"
  by (induction rs arbitrary: s) (simp_all add: load_record_frozen(1))

text \<open>What the master answers to the first three commands of the link.\<close>

lemma handshake_answers:
  assumes "w_repl w = Some r"
  shows "cr_reply (fst (dispatch e [''PING''] (Some l) w)) @
      cr_reply (fst (dispatch e [''REPLCONF'', ''listening-port'', to_string_nat port] (Some l) w)) @
      cr_reply (fst (dispatch e [''REPLCONF'', ''capa'', ''psync2''] (Some l) w)) = greeting"
proof -
  have u: "upper ''PING'' = ''PING''" "upper ''REPLCONF'' = ''REPLCONF''" "upper ''capa'' = ''CAPA''"
    "upper ''listening-port'' = ''LISTENING-PORT''" by code_simp+
  then have "cr_reply (fst (dispatch e [''REPLCONF'', ''listening-port'', to_string_nat port] (Some l) w)) = reply_ok"
    "cr_reply (fst (dispatch e [''REPLCONF'', ''capa'', ''psync2''] (Some l) w)) = reply_ok"
    using assms by (simp_all add: dispatch_def refused_on_replica_def is_write_command_def cmd_replconf_def Let_def split: option.split)
  moreover have "cr_reply (fst (dispatch e [''PING''] (Some l) w)) = reply_simple ''PONG''"
    using u by (simp add: dispatch_def refused_on_replica_def is_write_command_def store_command_def cmd_ping_def as_clean_def Let_def case_prod_unfold)
  ultimately show ?thesis by (simp add: greeting_def reply_ok_def reply_simple_def)
qed

lemma run_tasks_apply:
  assumes "\<forall>c \<in> set cs. wire_ok c \<and> is_write_command (upper (hd c))"
  shows "foldl (run_task e) w (map Apply cs) = w\<lparr>w_store := replay_store cs (w_store w)\<rparr>"
  using replay_world [OF assms, of e w] by (simp add: foldl_map)

text \<open>
  A connection that brings a resynchronisation and then an encoding of commands, in whatever
  pieces, makes the link post the replacement of the keyspace and those commands.
\<close>

lemma link_attempt_posts:
  assumes "sk_writes sk = sconst True" "concat (sk_in sk) = greeting @ resync_bytes r s @ concat (map aof_encode cs)"
    and "CR \<notin> set (r_replid r)" "0 \<le> r_master_offset r" "r_master_offset r \<le> int64_max"
    and "length (rdb_serialize (fst (store_snapshot s))) < 2 ^ 64"
    and "\<forall>x \<in> set (fst (store_snapshot s)). in_int64 (rec_expire_at x)"
    and "\<forall>c \<in> set cs. is_logged c" "steady rounds" "length (sk_in sk) \<le> readies rounds"
  shows "\<exists>q'. link_attempt (Established sk now (rounds @ [(now', Would_block)])) q =
      Some (Replace (fst (store_snapshot s)) # map Apply cs, q') \<and>
    wrap64 (r_replica_offset q') = wrap64 (r_master_offset r + int (length (concat (map aof_encode cs)))) \<and>
    r_link_error q' = []"
proof -
  let ?rs = "fst (store_snapshot s)"
  from link_sync_ok [OF assms(1) _ assms(3-5) refl assms(6,7), of "concat (map aof_encode cs)" "r_listening_port q"] assms(2)
  obtain left sk1 where y: "link_sync (r_listening_port q) sk = Some (Synced (r_master_offset r) ?rs left sk1)"
    "left @ concat (sk_in sk1) = concat (map aof_encode cs)" "length (sk_in sk1) \<le> length (sk_in sk)"
    by (auto simp: resync_bytes_def Let_def)
  let ?st = "\<lparr>ll_offset = r_master_offset r, ll_posted = [Replace ?rs], ll_sock = sk1\<rparr>"
  obtain st1 where "stream_rounds (rounds @ [(now', Would_block)]) now ?st left = (st1, [], None)" "advanced ?st cs st1"
    using stream_rounds_complete [OF assms(8,9), of left ?st now' now] y(2,3) assms(10) by auto
  with y(1) show ?thesis by (simp add: advanced_def)
qed

end
