(* ===== verification/Handler.thy ===== *)
theory Handler
  imports Dispatch
begin

text \<open>
  The other command handler, \<open>PingPongHandler\<close> of \<open>src/handler.cpp\<close>, which the tests of the
  connection layer use: it frames requests without decoding them and answers from a search for
  two command names. It meets the contract of \<open>CommandHandler::on_data\<close>
  (\<open>include/rp/handler.hpp\<close>), that no partial request is consumed, for the same requests as the
  RESP parser.
\<close>

section \<open>Framing\<close>

text \<open>A run of digits with a limit, \<open>None\<close> where the loop returns 0.\<close>

fun frame_digits :: "nat \<Rightarrow> nat \<Rightarrow> string \<Rightarrow> nat option" where
  "frame_digits limit v [] = Some v"
| "frame_digits limit v (c # cs) =
     (if \<not> isdigit c then None
      else (let v1 = v * 10 + (code c - 48) in if v1 > limit then None else frame_digits limit v1 cs))"

fun frame_bulks :: "string \<Rightarrow> nat \<Rightarrow> nat \<Rightarrow> nat" where
  "frame_bulks inp 0 pos = pos"
| "frame_bulks inp (Suc n) pos =
     (if pos \<ge> length inp \<or> inp ! pos \<noteq> CHR ''$'' then 0
      else
        (case find_crlf_from inp pos of
           None \<Rightarrow> 0
         | Some hdr \<Rightarrow>
             (case frame_digits (512 * 1024 * 1024) 0 (take (hdr - (pos + 1)) (drop (pos + 1) inp)) of
                None \<Rightarrow> 0
              | Some len \<Rightarrow>
                  (let pos1 = hdr + 2 + len + 2
                   in if pos1 > length inp then 0 else frame_bulks inp n pos1))))"

definition framed_length :: "string \<Rightarrow> nat" where
  "framed_length inp =
     (if inp = [] then 0
      else if hd inp \<noteq> CHR ''*'' then (case find_crlf inp of None \<Rightarrow> 0 | Some eol \<Rightarrow> eol + 2)
      else
        (case find_crlf inp of
           None \<Rightarrow> 0
         | Some pos \<Rightarrow>
             (case frame_digits (1024 * 1024) 0 (take (pos - 1) (drop 1 inp)) of
                None \<Rightarrow> 0
              | Some argc \<Rightarrow> frame_bulks inp argc (pos + 2))))"

fun contains_ci :: "string \<Rightarrow> string \<Rightarrow> bool" where
  "contains_ci [] needle \<longleftrightarrow> needle = []"
| "contains_ci (c # cs) needle \<longleftrightarrow>
     map toupper (take (length needle) (c # cs)) = needle \<or> contains_ci cs needle"

section \<open>on_data\<close>

definition pingpong_reply :: "nat \<Rightarrow> stats \<Rightarrow> string \<Rightarrow> string list" where
  "pingpong_reply uptime st request =
     (if contains_ci request ''COMMAND'' then [''*0'' @ kCrlf]
      else if contains_ci request ''INFO''
      then (let info = stats_to_info uptime st in [''$'' @ to_string_nat (length info) @ kCrlf, info, kCrlf])
      else [''+PONG'' @ kCrlf])"

lemma frame_bulks_bound: "0 < frame_bulks inp n pos \<Longrightarrow> pos \<le> length inp \<Longrightarrow> frame_bulks inp n pos \<le> length inp"
  by (induction inp n pos rule: frame_bulks.induct) (auto simp: Let_def split: option.splits if_splits)

lemma framed_length_bound: "framed_length inp \<le> length inp"
proof (cases "framed_length inp = 0")
  case False
  then obtain pos where p: "find_crlf inp = Some pos" by (auto simp: framed_length_def split: option.splits if_splits)
  note b = find_crlf_bound [OF p]
  show ?thesis using False b p frame_bulks_bound [of inp _ "pos + 2"] by (auto simp: framed_length_def split: option.splits if_splits)
qed simp

text \<open>\<open>uptime\<close> is the uptime read for each request of the call.\<close>

function pingpong_on_data :: "(nat \<Rightarrow> nat) \<Rightarrow> stats \<Rightarrow> buffer \<Rightarrow> buffer \<Rightarrow> nat \<Rightarrow> buffer \<times> buffer \<times> nat" where
  "pingpong_on_data uptime st inb out handled =
     (let n = framed_length (buf_readable inb)
      in if n = 0 then (inb, out, handled)
         else pingpong_on_data uptime st (buf_consume inb n)
                (foldl buf_append out (pingpong_reply (uptime handled) st (take n (buf_readable inb)))) (handled + 1))"
  by pat_completeness auto
termination
proof (relation "measure (\<lambda>(uptime, st, inb, out, handled). buf_size inb)")
  show "((uptime, st, buf_consume inb n, out', handled + 1), uptime, st, inb, out, handled)
      \<in> measure (\<lambda>(uptime, st, inb, out, handled). buf_size inb)"
    if "n = framed_length (buf_readable inb)" "n \<noteq> 0" for uptime st inb out handled n out'
    using that framed_length_bound [of "buf_readable inb"]
    by (auto simp: buf_size_def buf_consume_def buf_clear_def buf_readable_def Let_def)
qed simp

declare pingpong_on_data.simps [simp del]

section \<open>The contract\<close>

lemma frame_digits_value: "\<forall>c \<in> set cs. isdigit c \<Longrightarrow> dec_value v cs \<le> limit \<Longrightarrow> frame_digits limit v cs = Some (dec_value v cs)"
proof (induction cs arbitrary: v)
  case (Cons c cs)
  have "v * 10 + (code c - 48) \<le> dec_value (v * 10 + (code c - 48)) cs" by (rule dec_value_ge)
  then have "v * 10 + (code c - 48) \<le> limit" using Cons.prems(2) by simp
  then show ?case using Cons by (simp add: Let_def)
qed simp

lemma frame_digits_to_string: "n \<le> limit \<Longrightarrow> frame_digits limit 0 (to_string_nat n) = Some n"
  using frame_digits_value [of "to_string_nat n" 0 limit] to_string_nat_isdigit by simp

lemma frame_bulks_step:
  assumes "int (length a) \<le> kMaxBulkLength" "inp = pre @ CHR ''$'' # to_string_nat (length a) @ kCrlf @ x"
  shows "frame_bulks inp (Suc n) (length pre) =
    (if length inp < length pre + length (reply_bulk a) then 0 else frame_bulks inp n (length pre + length (reply_bulk a)))"
proof -
  let ?D = "to_string_nat (length a)"
  have f: "find_crlf_from inp (length pre) = Some (length pre + 1 + length ?D)"
    unfolding assms(2) by (rule find_crlf_header) simp
  have "take (length ?D) (drop (length pre + 1) inp) = ?D" by (simp add: assms(2))
  moreover have "frame_digits (512 * 1024 * 1024) 0 ?D = Some (length a)"
    by (rule frame_digits_to_string) (use assms(1) in \<open>simp add: kMaxBulkLength_def\<close>)
  moreover have "length pre < length inp" "inp ! length pre = CHR ''$''" by (simp_all add: assms(2))
  ultimately show ?thesis using f by (simp add: reply_bulk_def kCrlf_def Let_def add.assoc)
qed

declare frame_bulks.simps(2) [simp del]

lemma frame_bulks_all:
  assumes "\<forall>a \<in> set as. int (length a) \<le> kMaxBulkLength"
  shows "frame_bulks (pre @ concat (map reply_bulk as) @ rest) (length as) (length pre) =
    length pre + length (concat (map reply_bulk as))"
  using assms
proof (induction as arbitrary: pre)
  case (Cons a as)
  let ?inp = "pre @ concat (map reply_bulk (a # as)) @ rest"
  have i: "?inp = pre @ CHR ''$'' # to_string_nat (length a) @ kCrlf @ a @ kCrlf @ concat (map reply_bulk as) @ rest"
    by (simp add: reply_bulk_def)
  have "int (length a) \<le> kMaxBulkLength" using Cons.prems by simp
  from frame_bulks_step [OF this i, of "length as"] Cons.IH [of "pre @ reply_bulk a"] Cons.prems show ?case by simp
qed simp

lemma frame_bulks_torn:
  assumes "\<forall>a \<in> set as. int (length a) \<le> kMaxBulkLength" "m < length (concat (map reply_bulk as))"
  shows "frame_bulks (pre @ take m (concat (map reply_bulk as))) (length as) (length pre) = 0"
  using assms
proof (induction as arbitrary: pre m)
  case (Cons a as)
  let ?D = "to_string_nat (length a)"
  let ?all = "concat (map reply_bulk (a # as))"
  let ?inp = "pre @ take m ?all"
  have B: "?all = (CHR ''$'' # ?D) @ kCrlf @ a @ kCrlf @ concat (map reply_bulk as)" by (simp add: reply_bulk_def)
  have small: "int (length a) \<le> kMaxBulkLength" using Cons.prems(1) by simp
  show ?case
  proof (cases "m \<le> length ?D + 2")
    case True
    have "find_crlf (take m ?all) = None"
      unfolding B by (rule find_crlf_torn) (use True cr_not_digit in auto)
    then show ?thesis by (simp add: find_crlf_from_def frame_bulks.simps(2))
  next
    case False
    then have i: "?inp = pre @ CHR ''$'' # ?D @ kCrlf @ take (m - (length ?D + 3)) (a @ kCrlf @ concat (map reply_bulk as))"
      unfolding B by (simp add: kCrlf_def take_Cons' numeral_eq_Suc)
    note st = frame_bulks_step [OF small i, of "length as"]
    show ?thesis
    proof (cases "m < length (reply_bulk a)")
      case True
      with st Cons.prems(2) show ?thesis by simp
    next
      case False
      then have "?inp = (pre @ reply_bulk a) @ take (m - length (reply_bulk a)) (concat (map reply_bulk as))" by simp
      with st False Cons.IH [of "m - length (reply_bulk a)" "pre @ reply_bulk a"] Cons.prems show ?thesis by simp
    qed
  qed
qed simp

lemma framed_header:
  assumes "wire_ok as" "inp = reply_array_header (length as) @ x"
  shows "framed_length inp = frame_bulks inp (length as) (length (reply_array_header (length as)))"
proof -
  let ?D = "to_string_nat (length as)"
  have H: "inp = (CHR ''*'' # ?D) @ kCrlf @ x" using assms(2) by (simp add: reply_array_header_def)
  have "find_crlf inp = Some (1 + length ?D)"
    unfolding H using find_crlf_no_cr [of "CHR ''*'' # ?D" x] cr_not_digit by simp
  moreover have "frame_digits (1024 * 1024) 0 ?D = Some (length as)"
    by (rule frame_digits_to_string) (use assms(1) in \<open>simp add: wire_ok_def kMaxMultibulkLength_def\<close>)
  moreover have "take (length ?D) (drop 1 inp) = ?D" "inp \<noteq> []" "hd inp = CHR ''*''" by (simp_all add: H)
  ultimately show ?thesis by (simp add: framed_length_def reply_array_header_def kCrlf_def)
qed

lemma framed_length_request: "wire_ok as \<Longrightarrow> framed_length (resp_array as @ rest) = length (resp_array as)"
  using framed_header [of as "resp_array as @ rest"] frame_bulks_all [of as "reply_array_header (length as)" rest]
  by (simp add: resp_array_def wire_ok_def)

lemma framed_length_torn:
  assumes ok: "wire_ok as" and m: "m < length (resp_array as)"
  shows "framed_length (take m (resp_array as)) = 0"
proof (cases "m < length (reply_array_header (length as))")
  case True
  let ?D = "to_string_nat (length as)"
  have H: "reply_array_header (length as) = (CHR ''*'' # ?D) @ kCrlf @ []" by (simp add: reply_array_header_def)
  have T: "take m (resp_array as) = take m ((CHR ''*'' # ?D) @ kCrlf @ [])"
    using True by (simp only: resp_array_def H take_append) simp
  have "find_crlf (take m ((CHR ''*'' # ?D) @ kCrlf @ [])) = None"
    by (rule find_crlf_torn) (use True cr_not_digit in \<open>auto simp: H kCrlf_def\<close>)
  then show ?thesis by (simp add: framed_length_def T)
next
  case False
  let ?H = "reply_array_header (length as)"
  have T: "take m (resp_array as) = ?H @ take (m - length ?H) (concat (map reply_bulk as))"
    using False by (simp add: resp_array_def)
  show ?thesis
    unfolding framed_header [OF ok T] unfolding T
    by (rule frame_bulks_torn) (use ok m False in \<open>auto simp: wire_ok_def resp_array_def\<close>)
qed

text \<open>Framing as a wire format; the state is the output and the count.\<close>

definition pingpong_frame :: "string \<Rightarrow> string framed" where
  "pingpong_frame inp = (let n = framed_length inp in if n = 0 then Wait else Request (take n inp) n)"

definition pingpong_handle :: "(nat \<Rightarrow> nat) \<Rightarrow> stats \<Rightarrow> buffer \<times> nat \<Rightarrow> string \<Rightarrow> buffer \<times> nat" where
  "pingpong_handle uptime st = (\<lambda>(out, handled) request.
     (foldl buf_append out (pingpong_reply (uptime handled) st request), handled + 1))"

definition pingpong_run :: "(nat \<Rightarrow> nat) \<Rightarrow> stats \<Rightarrow> buffer \<times> nat \<Rightarrow> string \<Rightarrow> (buffer \<times> nat) \<times> string" where
  "pingpong_run uptime st = (\<lambda>(out, handled) inp.
     (case pingpong_on_data uptime st \<lparr>buf_data = inp, buf_pos = 0\<rparr> out handled of (inb, res) \<Rightarrow> (res, buf_readable inb)))"

lemma pingpong_content:
  assumes "buf_inv b1" "buf_inv b2" "buf_readable b1 = buf_readable b2"
  shows "snd (pingpong_on_data uptime st b1 out handled) = snd (pingpong_on_data uptime st b2 out handled) \<and>
    buf_readable (fst (pingpong_on_data uptime st b1 out handled)) = buf_readable (fst (pingpong_on_data uptime st b2 out handled)) \<and>
    buf_inv (fst (pingpong_on_data uptime st b1 out handled))"
  using assms
proof (induction uptime st b1 out handled arbitrary: b2 rule: pingpong_on_data.induct)
  case (1 uptime st b1 out handled)
  let ?n = "framed_length (buf_readable b1)"
  show ?case
  proof (cases "?n = 0")
    case True
    with "1.prems" show ?thesis by (subst (1 2 3 4 5) pingpong_on_data.simps) (simp add: Let_def)
  next
    case False
    have c: "buf_inv (buf_consume b1 ?n)" "buf_inv (buf_consume b2 ?n)"
      "buf_readable (buf_consume b1 ?n) = buf_readable (buf_consume b2 ?n)" using "1.prems" by simp_all
    from "1.IH" [OF refl False c] False "1.prems"(3) show ?thesis
      by (subst (1 2 3 4 5) pingpong_on_data.simps) (simp add: Let_def)
  qed
qed

lemma pingpong_run_eq:
  assumes "buf_inv inb"
  shows "pingpong_run uptime st (out, handled) (buf_readable inb) =
    (snd (pingpong_on_data uptime st inb out handled), buf_readable (fst (pingpong_on_data uptime st inb out handled)))"
proof -
  have "buf_inv \<lparr>buf_data = buf_readable inb, buf_pos = 0\<rparr>"
    "buf_readable \<lparr>buf_data = buf_readable inb, buf_pos = 0\<rparr> = buf_readable inb"
    by (simp_all add: buf_inv_def buf_readable_def buf_size_def)
  from pingpong_content [OF this(1) assms this(2), of uptime st out handled]
  show ?thesis by (simp add: pingpong_run_def case_prod_unfold)
qed

lemma pingpong_run_take:
  assumes "pingpong_frame inp = Request r n"
  shows "pingpong_run uptime st s inp = pingpong_run uptime st (pingpong_handle uptime st s r) (drop n inp)"
proof -
  obtain out handled where s: "s = (out, handled)" by fastforce
  let ?b = "\<lparr>buf_data = inp, buf_pos = 0\<rparr>"
  have b: "buf_inv ?b" "buf_readable ?b = inp" by (simp_all add: buf_inv_def buf_readable_def buf_size_def)
  have n: "n = framed_length inp" "n \<noteq> 0" "r = take n inp"
    using assms by (auto simp: pingpong_frame_def Let_def split: if_splits)
  have c: "buf_inv (buf_consume ?b n)" "buf_readable (buf_consume ?b n) = drop n inp" using b by simp_all
  have "pingpong_on_data uptime st ?b out handled = pingpong_on_data uptime st (buf_consume ?b n)
      (foldl buf_append out (pingpong_reply (uptime handled) st r)) (handled + 1)"
    by (subst pingpong_on_data.simps) (use n b in \<open>simp add: Let_def\<close>)
  with pingpong_run_eq [OF b(1), of uptime st out handled] pingpong_run_eq [OF c(1), of uptime st] b(2) c(2) s
  show ?thesis by (simp add: pingpong_handle_def)
qed

lemma pingpong_run_wait:
  assumes "pingpong_frame inp = Wait"
  shows "pingpong_run uptime st s inp = (s, inp)"
proof -
  have "framed_length inp = 0" using assms by (auto simp: pingpong_frame_def Let_def split: if_splits)
  then have "pingpong_on_data uptime st \<lparr>buf_data = inp, buf_pos = 0\<rparr> out handled = (\<lparr>buf_data = inp, buf_pos = 0\<rparr>, out, handled)"
    for out handled by (subst pingpong_on_data.simps) (simp add: buf_readable_def buf_size_def)
  then show ?thesis by (simp add: pingpong_run_def buf_readable_def buf_size_def split: prod.split)
qed

interpretation pp: stream_consumer pingpong_frame resp_array resp_array wire_ok
  "pingpong_run uptime st" "pingpong_handle uptime st" for uptime st
proof
  show "pingpong_frame (resp_array as @ rest) = Request (resp_array as) (length (resp_array as))" if "wire_ok as" for as rest
    using framed_length_request [OF that] that by (auto simp: pingpong_frame_def Let_def resp_array_def reply_array_header_def)
  show "pingpong_frame (take n (resp_array as)) = Wait" if "wire_ok as" "n < length (resp_array as)" for as n
    using framed_length_torn [OF that] by (simp add: pingpong_frame_def)
  show "pingpong_frame [] = Wait" by (simp add: pingpong_frame_def framed_length_def)
qed (rule pingpong_run_take pingpong_run_wait, assumption)+

section \<open>Properties\<close>

text \<open>A piece of input arrives and is handled.\<close>

definition pingpong_receive :: "(nat \<Rightarrow> nat) \<Rightarrow> stats \<Rightarrow> buffer \<times> buffer \<times> nat \<Rightarrow> string \<Rightarrow> buffer \<times> buffer \<times> nat" where
  "pingpong_receive uptime st = (\<lambda>(inb, out, handled) piece. pingpong_on_data uptime st (buf_append inb piece) out handled)"

lemma pingpong_receive_feed:
  assumes "buf_inv inb" "foldl (pingpong_receive uptime st) (inb, s) pieces = (inb', s')"
  shows "buf_inv inb' \<and> (s', buf_readable inb') = pp.feed uptime st s (buf_readable inb) pieces"
  using assms
proof (induction pieces arbitrary: inb s)
  case (Cons x pieces)
  obtain out handled where s: "s = (out, handled)" by fastforce
  obtain inb1 s1 where d: "pingpong_on_data uptime st (buf_append inb x) out handled = (inb1, s1)" by (metis prod.collapse)
  have i: "buf_inv (buf_append inb x)" "buf_readable (buf_append inb x) = buf_readable inb @ x" using Cons.prems(1) by simp_all
  have inv1: "buf_inv inb1" using pingpong_content [OF i(1) i(1) refl, of uptime st out handled] d by simp
  have "pingpong_run uptime st s (buf_readable inb @ x) = (s1, buf_readable inb1)"
    using pingpong_run_eq [OF i(1), of uptime st out handled] d i(2) s by simp
  moreover have "foldl (pingpong_receive uptime st) (inb1, s1) pieces = (inb', s')"
    using Cons.prems(2) d by (simp add: pingpong_receive_def s)
  ultimately show ?case using Cons.IH [OF inv1] by simp
qed simp

text \<open>
  C40: The placeholder handler keeps the contract of \<open>on_data\<close>: however the network cuts a pipeline
  of requests into pieces, it consumes each request whole and exactly once, answers them in order
  and leaves no input; the count it returns is the number of requests.
\<close>
theorem pingpong_requests_in_order:
  assumes "\<forall>c \<in> set cs. wire_ok c" "concat pieces = concat (map resp_array cs)"
    and "foldl (pingpong_receive uptime st) (buf_new, out, handled) pieces = (inb', out', handled')"
  shows "(out', handled') = foldl (\<lambda>s c. pingpong_handle uptime st s (resp_array c)) (out, handled) cs \<and>
    handled' = handled + length cs \<and> buf_readable inb' = []"
proof -
  have "pp.feed uptime st (out, handled) [] pieces = (pp.handle_all uptime st (out, handled) cs, [])"
    by (rule pp.feed_pieces) (use assms(1,2) in \<open>simp_all add: pp.stream_def\<close>)
  with pingpong_receive_feed [OF _ assms(3)] have f: "(out', handled') = pp.handle_all uptime st (out, handled) cs" "buf_readable inb' = []"
    by simp_all
  have h: "snd (pingpong_handle uptime st s r) = snd s + 1" for s r by (simp add: pingpong_handle_def split: prod.split)
  have "snd (pp.handle_all uptime st s cs) = snd s + length cs" for s
    by (induction cs arbitrary: s) (simp_all add: h)
  from this [of "(out, handled)"] f show ?thesis by (simp add: pp.handle_all_def) (metis snd_conv)
qed

theorem pingpong_requests_in_order_witness:
  "\<exists>inb' out'. foldl (pingpong_receive (\<lambda>_. 0) stats_new) (buf_new, buf_new, 0)
     [take 5 (resp_array [''PING'']), drop 5 (resp_array [''PING''])] = (inb', out', 1) \<and> buf_readable inb' = []"
proof -
  obtain inb' out' n where r: "foldl (pingpong_receive (\<lambda>_. 0) stats_new) (buf_new, buf_new, 0)
     [take 5 (resp_array [''PING'']), drop 5 (resp_array [''PING''])] = (inb', out', n)" by (metis prod_cases3)
  from pingpong_requests_in_order [OF _ _ r, of "[[''PING'']]"] r show ?thesis
    by (simp add: wire_ok_def kMaxMultibulkLength_def kMaxBulkLength_def)
qed

end
