(* ===== verification/Poll_Server.thy ===== *)
theory Poll_Server
  imports Handler Replica_Link
begin

text \<open>
  The \<open>poll(2)\<close> backend, \<open>src/poll_server.cpp\<close>: connections, the sweep over the ready descriptors,
  partial reads and writes, posted tasks, the cron and the deferred closing of connections. What the
  system calls return is an input of every round; setting up the listening socket is not modelled.
  A connection is named by its descriptor. Handlers keep pointers to connections
  (\<open>ClientLink*\<close>): a push to a connection that is no longer there is a use after free, and is the
  result \<open>None\<close> here.
\<close>

section \<open>Handlers\<close>

text \<open>\<open>CommandHandler\<close> of \<open>include/rp/handler.hpp\<close>; both handlers inherit an empty \<open>on_connect\<close>.\<close>

record handler =
  h_data :: "env stream \<Rightarrow> link \<Rightarrow> world \<Rightarrow> buffer \<Rightarrow> buffer \<Rightarrow> world \<times> buffer \<times> buffer \<times> nat"
  h_disconnect :: "link \<Rightarrow> world \<Rightarrow> world"

definition resp_handler :: handler where
  "resp_handler =
     \<lparr>h_data = (\<lambda>es l w inb out. snd (on_data es (Some l) w inb out 0)),
      h_disconnect = (\<lambda>l. handler_on_disconnect (Some l))\<rparr>"

definition pingpong_handler :: handler where
  "pingpong_handler =
     \<lparr>h_data = (\<lambda>es l w inb out. (w, pingpong_on_data (\<lambda>n. e_uptime (es !! n)) (w_stats w) inb out 0)),
      h_disconnect = (\<lambda>l w. w)\<rparr>"

section \<open>State\<close>

record poll_conn =
  c_peer :: string
  c_in :: buffer
  c_out :: buffer
  c_close_after_flush :: bool

definition conn_new :: "string \<Rightarrow> poll_conn" where
  "conn_new peer = \<lparr>c_peer = peer, c_in = buf_new, c_out = buf_new, c_close_after_flush = False\<rparr>"

definition conn_send :: "string \<Rightarrow> poll_conn \<Rightarrow> poll_conn" where
  "conn_send data c = c\<lparr>c_out := buf_append (c_out c) data\<rparr>"

definition conn_close :: "poll_conn \<Rightarrow> poll_conn" where
  "conn_close c = c\<lparr>c_close_after_flush := True\<rparr>"

record poll_server =
  ps_cfg :: server_config
  ps_handler :: handler
  ps_cron :: "(env \<Rightarrow> world \<Rightarrow> world) option"
  ps_last_cron :: int
  ps_conns :: "link \<rightharpoonup> poll_conn"
  ps_posted :: "(world \<Rightarrow> world) list"
  ps_world :: world

definition on_stats :: "(stats \<Rightarrow> stats) \<Rightarrow> poll_server \<Rightarrow> poll_server" where
  "on_stats f ps = ps\<lparr>ps_world := (ps_world ps)\<lparr>w_stats := f (w_stats (ps_world ps))\<rparr>\<rparr>"

text \<open>The pushes the handler made, in order.\<close>

fun push_all :: "sends \<Rightarrow> (link \<rightharpoonup> poll_conn) \<Rightarrow> (link \<rightharpoonup> poll_conn) option" where
  "push_all [] conns = Some conns"
| "push_all ((l, data) # out) conns =
     (case conns l of
        None \<Rightarrow> None
      | Some c \<Rightarrow> push_all out (conns(l \<mapsto> conn_send data c)))"

definition deliver :: "poll_server \<Rightarrow> poll_server option" where
  "deliver ps =
     map_option (\<lambda>conns. ps\<lparr>ps_conns := conns, ps_world := (ps_world ps)\<lparr>w_sent := []\<rparr>\<rparr>)
       (push_all (w_sent (ps_world ps)) (ps_conns ps))"

section \<open>Reading and writing\<close>

text \<open>What \<open>recv\<close> gives: bytes (none: the peer closed), or an error. With no outcome left it would block.\<close>

datatype recv_outcome = Recv string | RecvAgain | RecvIntr | RecvError

fun recv_loop :: "nat \<Rightarrow> recv_outcome list \<Rightarrow> buffer \<Rightarrow> nat \<Rightarrow> bool \<times> buffer \<times> nat" where
  "recv_loop chunk [] b received = (True, b, received)"
| "recv_loop chunk (RecvAgain # rs) b received = (True, b, received)"
| "recv_loop chunk (RecvIntr # rs) b received = recv_loop chunk rs b received"
| "recv_loop chunk (RecvError # rs) b received = (False, b, received)"
| "recv_loop chunk (Recv data # rs) b received =
     (if data = [] then (False, b, received)
      else (let b1 = buf_append b data; received1 = received + length data
            in if length data < chunk then (True, b1, received1) else recv_loop chunk rs b1 received1))"

datatype send_outcome = Sent nat | SendAgain | SendIntr | SendError

datatype send_status = Drained | Blocked | Failed

text \<open>The bytes given to the system are the last component.\<close>

fun send_loop :: "send_outcome list \<Rightarrow> buffer \<Rightarrow> send_status \<times> buffer \<times> string" where
  "send_loop outs b =
     (if buf_empty b then (Drained, b, [])
      else
        (case outs of
           [] \<Rightarrow> (Blocked, b, [])
         | Sent n # rest \<Rightarrow>
             if n = 0 then (Failed, b, [])
             else (let (status, b1, written) = send_loop rest (buf_consume b (min n (buf_size b)))
                   in (status, b1, take n (buf_readable b) @ written))
         | SendAgain # rest \<Rightarrow> (Blocked, b, [])
         | SendIntr # rest \<Rightarrow> send_loop rest b
         | SendError # rest \<Rightarrow> (Failed, b, [])))"

declare send_loop.simps [simp del]

definition handle_write :: "link \<Rightarrow> send_outcome list \<Rightarrow> poll_server \<Rightarrow> bool \<times> poll_server" where
  "handle_write l outs ps =
     (case ps_conns ps l of
        None \<Rightarrow> (False, ps)
      | Some c \<Rightarrow>
          (let (status, b, written) = send_loop outs (c_out c);
               ps1 = on_stats (\<lambda>st. st\<lparr>bytes_written := bytes_written st + length written\<rparr>)
                       (ps\<lparr>ps_conns := (ps_conns ps)(l \<mapsto> c\<lparr>c_out := b\<rparr>)\<rparr>)
           in (case status of Drained \<Rightarrow> \<not> c_close_after_flush c | Blocked \<Rightarrow> True | Failed \<Rightarrow> False, ps1)))"

definition handle_read ::
  "env stream \<Rightarrow> link \<Rightarrow> recv_outcome list \<Rightarrow> send_outcome list \<Rightarrow> poll_server \<Rightarrow> (bool \<times> poll_server) option" where
  "handle_read es l ins outs ps =
     (case ps_conns ps l of
        None \<Rightarrow> Some (False, ps)
      | Some c \<Rightarrow>
          (let (ok, inb, n) = recv_loop (cfg_read_chunk (ps_cfg ps)) ins (c_in c) 0;
               ps1 = on_stats (\<lambda>st. st\<lparr>bytes_read := bytes_read st + n\<rparr>)
                       (ps\<lparr>ps_conns := (ps_conns ps)(l \<mapsto> c\<lparr>c_in := inb\<rparr>)\<rparr>)
           in if \<not> ok then Some (False, ps1)
              else
                (let (w, inb1, out1, handled) = h_data (ps_handler ps) es l (ps_world ps1) inb (c_out c);
                     ps2 = ps1\<lparr>ps_world := w, ps_conns := (ps_conns ps)(l \<mapsto> c\<lparr>c_in := inb1, c_out := out1\<rparr>)\<rparr>
                 in case deliver ps2 of
                      None \<Rightarrow> None
                    | Some ps3 \<Rightarrow>
                        (let ps4 = on_stats (\<lambda>st. st\<lparr>commands_processed := commands_processed st + handled\<rparr>) ps3
                         in if (case ps_conns ps4 l of Some c4 \<Rightarrow> buf_size (c_out c4) | None \<Rightarrow> 0) > cfg_max_output_buffer (ps_cfg ps)
                            then Some (False, on_stats (\<lambda>st. st\<lparr>output_buffer_overflows := output_buffer_overflows st + 1\<rparr>) ps4)
                            else Some (handle_write l outs ps4)))))"

section \<open>The loop\<close>

datatype accept_outcome = Accepted link string | AcceptAgain | AcceptFull | AcceptError

fun accept_ready :: "accept_outcome list \<Rightarrow> poll_server \<Rightarrow> poll_server" where
  "accept_ready [] ps = ps"
| "accept_ready (AcceptAgain # as) ps = ps"
| "accept_ready (AcceptFull # as) ps = on_stats (\<lambda>st. st\<lparr>connections_rejected := connections_rejected st + 1\<rparr>) ps"
| "accept_ready (AcceptError # as) ps = ps"
| "accept_ready (Accepted l peer # as) ps =
     (let conns = (if ps_conns ps l = None then (ps_conns ps)(l \<mapsto> conn_new peer) else ps_conns ps)
      in accept_ready as (on_stats stats_on_connect (ps\<lparr>ps_conns := conns\<rparr>)))"

definition drop_conn :: "link \<Rightarrow> poll_server \<Rightarrow> poll_server" where
  "drop_conn l ps =
     (case ps_conns ps l of
        None \<Rightarrow> ps
      | Some c \<Rightarrow>
          on_stats stats_on_disconnect
            (ps\<lparr>ps_world := h_disconnect (ps_handler ps) l (ps_world ps), ps_conns := (ps_conns ps)(l := None)\<rparr>))"

definition poll_post :: "(world \<Rightarrow> world) \<Rightarrow> poll_server \<Rightarrow> poll_server" where
  "poll_post task ps = ps\<lparr>ps_posted := ps_posted ps @ [task]\<rparr>"

fun run_tasks :: "(world \<Rightarrow> world) list \<Rightarrow> poll_server \<Rightarrow> poll_server option" where
  "run_tasks [] ps = Some ps"
| "run_tasks (task # tasks) ps =
     Option.bind (deliver (ps\<lparr>ps_world := task (ps_world ps)\<rparr>)) (run_tasks tasks)"

definition drain_posted :: "poll_server \<Rightarrow> poll_server option" where
  "drain_posted ps = run_tasks (ps_posted ps) (ps\<lparr>ps_posted := []\<rparr>)"

definition run_cron_if_due :: "env \<Rightarrow> int \<Rightarrow> poll_server \<Rightarrow> poll_server option" where
  "run_cron_if_due e now ps =
     (case ps_cron ps of
        None \<Rightarrow> Some ps
      | Some cron \<Rightarrow>
          if now - ps_last_cron ps < cfg_cron_interval_ms (ps_cfg ps) then Some ps
          else deliver (ps\<lparr>ps_world := cron e (ps_world ps), ps_last_cron := now\<rparr>))"

text \<open>
  What \<open>poll\<close> reports for a descriptor: a hang-up or an error, or that it can be read (with the
  outcomes of the calls that follow) and that it can be written.
\<close>

datatype poll_event =
  Hup
| Io "(env stream \<times> recv_outcome list \<times> send_outcome list) option" "send_outcome list option"

fun sweep_one :: "link \<Rightarrow> poll_event \<Rightarrow> poll_server \<Rightarrow> (bool \<times> poll_server) option" where
  "sweep_one l Hup ps = Some (False, ps)"
| "sweep_one l (Io rd wr) ps =
     Option.bind (case rd of None \<Rightarrow> Some (True, ps) | Some (es, ins, outs) \<Rightarrow> handle_read es l ins outs ps)
       (\<lambda>(ok, ps1).
          if \<not> ok then Some (False, ps1)
          else (case wr of None \<Rightarrow> Some (True, ps1) | Some outs \<Rightarrow> Some (handle_write l outs ps1)))"

fun sweep :: "(link \<times> poll_event) list \<Rightarrow> link list \<Rightarrow> poll_server \<Rightarrow> (link list \<times> poll_server) option" where
  "sweep [] dead ps = Some (dead, ps)"
| "sweep ((l, ev) # evs) dead ps =
     Option.bind (sweep_one l ev ps) (\<lambda>(ok, ps1). sweep evs (if ok then dead else dead @ [l]) ps1)"

datatype poll_result = Interrupted | PollFailed | Swept "accept_outcome list" "(link \<times> poll_event) list"

record poll_round =
  rd_env :: env
  rd_now :: int
  rd_result :: poll_result

text \<open>One turn of \<open>run\<close>: whether the loop goes on.\<close>

definition poll_turn :: "poll_round \<Rightarrow> poll_server \<Rightarrow> (bool \<times> poll_server) option" where
  "poll_turn rd ps =
     Option.bind (drain_posted ps) (\<lambda>ps1.
     Option.bind (run_cron_if_due (rd_env rd) (rd_now rd) ps1) (\<lambda>ps2.
       case rd_result rd of
         Interrupted \<Rightarrow> Some (True, ps2)
       | PollFailed \<Rightarrow> Some (False, ps2)
       | Swept accepts evs \<Rightarrow>
           map_option (\<lambda>(dead, ps3). (True, foldl (\<lambda>s l. drop_conn l s) ps3 dead)) (sweep evs [] (accept_ready accepts ps2))))"

text \<open>Between the turns other threads post tasks.\<close>

fun poll_run :: "((world \<Rightarrow> world) list \<times> poll_round) list \<Rightarrow> poll_server \<Rightarrow> poll_server option" where
  "poll_run [] ps = Some ps"
| "poll_run ((tasks, rd) # rounds) ps =
     Option.bind (poll_turn rd (foldl (\<lambda>s task. poll_post task s) ps tasks))
       (\<lambda>(go, ps1). if go then poll_run rounds ps1 else Some ps1)"

definition poll_server_new :: "server_config \<Rightarrow> handler \<Rightarrow> (env \<Rightarrow> world \<Rightarrow> world) option \<Rightarrow> int \<Rightarrow> world \<Rightarrow> poll_server" where
  "poll_server_new cfg h cron now w =
     \<lparr>ps_cfg = cfg, ps_handler = h, ps_cron = cron, ps_last_cron = now, ps_conns = Map.empty, ps_posted = [], ps_world = w\<rparr>"

section \<open>Handlers hold only pointers to open connections\<close>

text \<open>
  The contract of a handler: the connections it may push to (\<open>links\<close>) grow only by the connection
  whose data it is given, and shrink by the one that disconnects; it pushes only to those.
\<close>

definition targets :: "world \<Rightarrow> link set" where
  "targets w = fst ` set (w_sent w)"

locale link_handler =
  fixes h :: handler and links :: "world \<Rightarrow> link set"
  assumes data_links: "h_data h es l w inb out = (w', r) \<Longrightarrow> links w' \<subseteq> insert l (links w)"
    and data_targets: "h_data h es l w inb out = (w', r) \<Longrightarrow> targets w' \<subseteq> insert l (links w \<union> targets w)"
    and gone_links: "links (h_disconnect h l w) \<subseteq> links w - {l}"
    and gone_targets: "w_sent (h_disconnect h l w) = w_sent w"
    and links_frame: "links (w\<lparr>w_stats := st\<rparr>) = links w" "links (w\<lparr>w_sent := x\<rparr>) = links w"
begin

text \<open>Work that leaves the handler's pointers alone and pushes only to them.\<close>

definition link_safe :: "(world \<Rightarrow> world) \<Rightarrow> bool" where
  "link_safe f \<longleftrightarrow> (\<forall>w. links (f w) \<subseteq> links w \<and> targets (f w) \<subseteq> links w \<union> targets w)"

definition alive :: "poll_server \<Rightarrow> bool" where
  "alive ps \<longleftrightarrow> ps_handler ps = h \<and> links (ps_world ps) \<subseteq> dom (ps_conns ps) \<and> w_sent (ps_world ps) = [] \<and>
     (\<forall>task \<in> set (ps_posted ps). link_safe task) \<and> (\<forall>cron e. ps_cron ps = Some cron \<longrightarrow> link_safe (cron e))"

text \<open>A step that returns, with a good state.\<close>

definition fine :: "('x \<times> poll_server) option \<Rightarrow> bool" where
  "fine x \<longleftrightarrow> (case x of None \<Rightarrow> False | Some (_, ps) \<Rightarrow> alive ps)"

lemma fine_simps [simp]: "fine (Some (b, ps)) = alive ps" "fine (Some p) = alive (snd p)" "\<not> fine None"
  by (simp_all add: fine_def split: prod.split)

lemma fineE: "fine x \<Longrightarrow> (\<And>b ps. x = Some (b, ps) \<Longrightarrow> alive ps \<Longrightarrow> thesis) \<Longrightarrow> thesis"
  by (auto simp: fine_def split: option.splits)

lemma push_all_open:
  "fst ` set out \<subseteq> dom conns \<Longrightarrow> \<exists>conns'. push_all out conns = Some conns' \<and> dom conns' = dom conns"
proof (induction out arbitrary: conns)
  case (Cons x out)
  obtain l data where x: "x = (l, data)" by fastforce
  obtain c where c: "conns l = Some c" using Cons.prems x by auto
  define conns1 where "conns1 = conns(l \<mapsto> conn_send data c)"
  have d: "dom conns1 = dom conns" using c by (auto simp: conns1_def)
  have "push_all (x # out) conns = push_all out conns1" by (simp add: x c conns1_def)
  with Cons.IH [of conns1] Cons.prems d show ?case by simp
qed simp

lemma deliver_alive:
  assumes "links w \<subseteq> dom conns" "targets w \<subseteq> dom conns" "alive ps" "ps1 = ps\<lparr>ps_world := w, ps_conns := conns, ps_last_cron := t\<rparr>"
  shows "\<exists>ps'. deliver ps1 = Some ps' \<and> alive ps' \<and> dom (ps_conns ps') = dom conns"
proof -
  obtain conns' where "push_all (w_sent w) conns = Some conns'" "dom conns' = dom conns"
    using push_all_open [of "w_sent w" conns] assms(2) by (auto simp: targets_def)
  with assms show ?thesis by (auto simp: deliver_def alive_def links_frame)
qed

lemma on_stats_alive [simp]: "alive (on_stats f ps) = alive ps"
  by (simp add: on_stats_def alive_def links_frame)

lemma handle_write_alive: "alive ps \<Longrightarrow> alive (snd (handle_write l outs ps))"
  by (auto simp: handle_write_def alive_def on_stats_def links_frame case_prod_unfold Let_def split: option.split)

lemma handle_read_alive:
  assumes "alive ps"
  shows "fine (handle_read es l ins outs ps)"
proof (cases "ps_conns ps l")
  case None
  with assms show ?thesis by (simp add: handle_read_def)
next
  case (Some c)
  obtain ok inb n where r: "recv_loop (cfg_read_chunk (ps_cfg ps)) ins (c_in c) 0 = (ok, inb, n)" by (metis prod_cases3)
  define ps1 where "ps1 = on_stats (\<lambda>st. st\<lparr>bytes_read := bytes_read st + n\<rparr>)
    (ps\<lparr>ps_conns := (ps_conns ps)(l \<mapsto> c\<lparr>c_in := inb\<rparr>)\<rparr>)"
  have a1: "alive ps1" unfolding ps1_def on_stats_alive using assms Some by (auto simp: alive_def)
  obtain w inb1 out1 k where d: "h_data h es l (ps_world ps1) inb (c_out c) = (w, inb1, out1, k)" by (metis prod_cases4)
  define conns where "conns = (ps_conns ps)(l \<mapsto> c\<lparr>c_in := inb1, c_out := out1\<rparr>)"
  have dm: "dom conns = dom (ps_conns ps1)" by (auto simp: conns_def ps1_def on_stats_def)
  have "insert l (links (ps_world ps1)) \<subseteq> dom conns" "targets (ps_world ps1) = {}"
    using a1 dm by (auto simp: alive_def conns_def targets_def)
  then have "links w \<subseteq> dom conns" "targets w \<subseteq> dom conns"
    using data_links [OF d] data_targets [OF d] by auto
  from deliver_alive [OF this a1 refl, of "ps_last_cron ps1"]
  obtain ps3 where "deliver (ps1\<lparr>ps_world := w, ps_conns := conns\<rparr>) = Some ps3" "alive ps3" by auto
  moreover have "ps_handler ps = h" using assms by (simp add: alive_def)
  ultimately show ?thesis
    using Some r d a1 handle_write_alive unfolding ps1_def conns_def
    by (cases ok) (simp_all add: handle_read_def Let_def)
qed

lemma sweep_one_alive: "alive ps \<Longrightarrow> fine (sweep_one l ev ps)"
proof (cases ev)
  case (Io rd wr)
  assume "alive ps"
  then have "fine (case rd of None \<Rightarrow> Some (True, ps) | Some (es, ins, outs) \<Rightarrow> handle_read es l ins outs ps)"
    using handle_read_alive by (auto split: option.split)
  then show ?thesis
    unfolding Io sweep_one.simps by (rule fineE) (simp add: handle_write_alive split: option.split)
qed simp

lemma sweep_alive: "alive ps \<Longrightarrow> fine (sweep evs dead ps)"
proof (induction evs dead ps rule: sweep.induct)
  case (2 l ev evs dead ps)
  show ?case using sweep_one_alive [OF "2.prems", of l ev] by (rule fineE) (simp add: "2.IH")
qed simp

lemma accept_alive: "alive ps \<Longrightarrow> alive (accept_ready as ps)"
proof (induction as ps rule: accept_ready.induct)
  case (5 l peer as ps)
  have "alive (ps\<lparr>ps_conns := (if ps_conns ps l = None then (ps_conns ps)(l \<mapsto> conn_new peer) else ps_conns ps)\<rparr>)"
    using "5.prems" by (auto simp: alive_def)
  with "5.IH" [OF refl] show ?case by (simp add: Let_def)
qed simp_all

lemma drop_alive: "alive ps \<Longrightarrow> alive (drop_conn l ps)"
proof (cases "ps_conns ps l")
  case (Some c)
  assume "alive ps"
  then have "alive (ps\<lparr>ps_world := h_disconnect h l (ps_world ps), ps_conns := (ps_conns ps)(l := None)\<rparr>)"
    using gone_links [of l "ps_world ps"] by (auto simp: alive_def gone_targets)
  with \<open>alive ps\<close> Some show ?thesis by (simp add: drop_conn_def) (simp add: alive_def)
qed (simp add: drop_conn_def)

lemma drop_all_alive: "alive ps \<Longrightarrow> alive (foldl (\<lambda>s l. drop_conn l s) ps dead)"
  by (induction dead arbitrary: ps) (simp_all add: drop_alive)

lemma link_safe_dom:
  assumes "link_safe f" "alive ps"
  shows "links (f (ps_world ps)) \<subseteq> dom (ps_conns ps)" "targets (f (ps_world ps)) \<subseteq> dom (ps_conns ps)"
proof -
  have f: "links (f (ps_world ps)) \<subseteq> links (ps_world ps)"
    "targets (f (ps_world ps)) \<subseteq> links (ps_world ps) \<union> targets (ps_world ps)"
    using assms(1) unfolding link_safe_def by blast+
  have "links (ps_world ps) \<subseteq> dom (ps_conns ps)" "targets (ps_world ps) = {}"
    using assms(2) by (simp_all add: alive_def targets_def)
  with f show "links (f (ps_world ps)) \<subseteq> dom (ps_conns ps)" "targets (f (ps_world ps)) \<subseteq> dom (ps_conns ps)" by blast+
qed

lemma run_tasks_alive:
  "alive ps \<Longrightarrow> \<forall>task \<in> set tasks. link_safe task \<Longrightarrow> \<exists>ps'. run_tasks tasks ps = Some ps' \<and> alive ps'"
proof (induction tasks arbitrary: ps)
  case (Cons task tasks)
  have "link_safe task" using Cons.prems(2) by simp
  note d = link_safe_dom [OF this Cons.prems(1)]
  from deliver_alive [OF d Cons.prems(1) refl, of "ps_last_cron ps"]
  obtain ps1 where "deliver (ps\<lparr>ps_world := task (ps_world ps)\<rparr>) = Some ps1" "alive ps1" by auto
  with Cons.IH [of ps1] Cons.prems(2) show ?case by simp
qed simp

lemma poll_turn_alive:
  assumes "alive ps"
  shows "fine (poll_turn rd ps)"
proof -
  have "alive (ps\<lparr>ps_posted := []\<rparr>)" using assms by (simp add: alive_def)
  then obtain ps1 where p1: "drain_posted ps = Some ps1" "alive ps1"
    using run_tasks_alive [of "ps\<lparr>ps_posted := []\<rparr>" "ps_posted ps"] assms unfolding drain_posted_def alive_def [of ps] by blast
  obtain ps2 where p2: "run_cron_if_due (rd_env rd) (rd_now rd) ps1 = Some ps2" "alive ps2"
  proof (cases "\<exists>cron. ps_cron ps1 = Some cron \<and> \<not> rd_now rd - ps_last_cron ps1 < cfg_cron_interval_ms (ps_cfg ps1)")
    case True
    then obtain cron where c: "ps_cron ps1 = Some cron" "\<not> rd_now rd - ps_last_cron ps1 < cfg_cron_interval_ms (ps_cfg ps1)" by blast
    let ?w = "cron (rd_env rd) (ps_world ps1)"
    have "link_safe (cron (rd_env rd))" using p1(2) c(1) by (simp add: alive_def)
    from deliver_alive [OF link_safe_dom [OF this p1(2)] p1(2) refl, of "rd_now rd"]
    obtain ps2 where "deliver (ps1\<lparr>ps_world := ?w, ps_conns := ps_conns ps1, ps_last_cron := rd_now rd\<rparr>) = Some ps2" "alive ps2" by blast
    with c show ?thesis by (intro that [of ps2]) (simp_all add: run_cron_if_due_def)
  next
    case False
    then have "run_cron_if_due (rd_env rd) (rd_now rd) ps1 = Some ps1" by (cases "ps_cron ps1") (simp_all add: run_cron_if_due_def)
    then show ?thesis using p1(2) that by blast
  qed
  show ?thesis
  proof (cases "rd_result rd")
    case (Swept accepts evs)
    show ?thesis
      using sweep_alive [OF accept_alive [OF p2(2)], of evs "[]" accepts]
      by (rule fineE) (simp add: poll_turn_def Swept p1(1) p2(1) drop_all_alive)
  next
    case Interrupted
    then show ?thesis using p1(1) p2 by (simp add: poll_turn_def)
  next
    case PollFailed
    then show ?thesis using p1(1) p2 by (simp add: poll_turn_def)
  qed
qed

lemma post_alive: "alive ps \<Longrightarrow> \<forall>task \<in> set tasks. link_safe task \<Longrightarrow> alive (foldl (\<lambda>s task. poll_post task s) ps tasks)"
proof (induction tasks arbitrary: ps)
  case (Cons task tasks)
  have "alive (poll_post task ps)"
    using Cons.prems unfolding alive_def poll_post_def by simp
  with Cons show ?case by simp
qed simp

lemma poll_run_alive:
  "alive ps \<Longrightarrow> \<forall>(tasks, rd) \<in> set rounds. \<forall>task \<in> set tasks. link_safe task \<Longrightarrow>
    \<exists>ps'. poll_run rounds ps = Some ps' \<and> alive ps'"
proof (induction rounds arbitrary: ps)
  case (Cons x rounds)
  obtain tasks rd where x: "x = (tasks, rd)" by fastforce
  have "alive (foldl (\<lambda>s task. poll_post task s) ps tasks)" by (rule post_alive) (use Cons.prems x in auto)
  from poll_turn_alive [OF this, of rd]
  obtain go ps1 where "poll_turn rd (foldl (\<lambda>s task. poll_post task s) ps tasks) = Some (go, ps1)" "alive ps1" by (rule fineE)
  with Cons.IH [of ps1] Cons.prems(2) x show ?case by (cases go) auto
qed simp

end

section \<open>Both handlers keep the contract\<close>

text \<open>The pointers \<open>RespHandler\<close> may push to are those of the attached replicas.\<close>

definition replica_links :: "world \<Rightarrow> link set" where
  "replica_links w = (case w_repl w of None \<Rightarrow> {} | Some r \<Rightarrow> rep_link ` set (r_replicas r))"

definition link_step_ok :: "link set \<Rightarrow> world \<Rightarrow> world \<Rightarrow> bool" where
  "link_step_ok L w w' \<longleftrightarrow> replica_links w' \<subseteq> L \<union> replica_links w \<and> targets w' \<subseteq> L \<union> replica_links w \<union> targets w"

lemma link_step_frame: "w_repl w' = w_repl w \<Longrightarrow> w_sent w' = w_sent w \<Longrightarrow> link_step_ok L w w'"
  by (auto simp: link_step_ok_def replica_links_def targets_def)

lemma link_step_refl [simp]: "link_step_ok L w w" "link_step_ok L w (w\<lparr>w_store := s\<rparr>)"
  by (simp_all add: link_step_frame)

lemma link_step_trans: "link_step_ok L w w1 \<Longrightarrow> link_step_ok L w1 w2 \<Longrightarrow> link_step_ok L w w2"
  unfolding link_step_ok_def by blast

lemma replica_ports [simp]:
  "rep_link ` set (r_replicas (on_replica_ack now link offset r)) = rep_link ` set (r_replicas r)"
  "rep_link ` set (r_replicas (set_replica_port link port r)) = rep_link ` set (r_replicas r)"
proof -
  have "map rep_link (r_replicas (on_replica_ack now link offset r)) = map rep_link (r_replicas r)"
    "map rep_link (r_replicas (set_replica_port link port r)) = map rep_link (r_replicas r)"
    by (simp_all add: on_replica_ack_def set_replica_port_def)
  then show "rep_link ` set (r_replicas (on_replica_ack now link offset r)) = rep_link ` set (r_replicas r)"
    "rep_link ` set (r_replicas (set_replica_port link port r)) = rep_link ` set (r_replicas r)"
    by (metis set_map)+
qed

lemma link_step_replconf: "link_step_ok L w (snd (cmd_replconf e a link w))"
proof (cases "w_repl w")
  case (Some r)
  then have "replica_links (snd (cmd_replconf e a link w)) = replica_links w" "w_sent (snd (cmd_replconf e a link w)) = w_sent w"
    by (simp_all add: cmd_replconf_def replica_links_def Let_def split: option.split)
  then show ?thesis by (simp add: link_step_ok_def targets_def le_supI2 le_supI1)
qed (simp add: cmd_replconf_def)

lemma link_step_psync: "link_step_ok (set_option link) w (snd (cmd_psync e link w))"
  by (cases link) (auto simp: link_step_ok_def replica_links_def targets_def cmd_psync_def start_full_resync_def
      case_prod_unfold Let_def split: option.split)

lemma link_step_replicaof: "link_step_ok L w (snd (cmd_replicaof a w))"
  by (auto simp: link_step_ok_def replica_links_def targets_def cmd_replicaof_def replicaof_def stop_replication_def
      split: option.split)

lemma link_step_persistence: "link_step_ok L w (snd (cmd_persistence e name w))"
  by (rule link_step_frame) (simp_all add: cmd_persistence_def case_prod_unfold Let_def split: option.split)

lemma link_step_info: "link_step_ok L w (snd (cmd_info uptime w))"
  by (rule link_step_frame) (simp_all add: cmd_info_def case_prod_unfold Let_def split: option.split)

lemmas link_step_commands = link_step_replconf link_step_psync link_step_replicaof link_step_persistence link_step_info

lemma link_step_dispatch: "link_step_ok (set_option link) w (snd (dispatch e a link w))"
proof -
  define name where "name = upper (hd a)"
  show ?thesis
    unfolding dispatch_def name_def [symmetric] Let_def
    by (simp add: case_prod_unfold link_step_commands split: option.split)
qed

lemma link_step_hook: "link_step_ok L w (propagate_hook as w)"
  by (auto simp: link_step_ok_def replica_links_def targets_def propagate_hook_def repl_propagate_def Let_def split: option.split)

lemma link_step_own: "link_step_ok L w (fst (own_sends link w out))"
  by (auto simp: link_step_ok_def replica_links_def targets_def own_sends_def)

lemma link_step_handle: "link_step_ok (set_option link) w (fst (handle_command e link a w out))"
proof -
  let ?w1 = "snd (dispatch e a link w)"
  let ?w2 = "fst (own_sends link ?w1 out)"
  have s: "link_step_ok (set_option link) w ?w2"
    by (rule link_step_trans [OF link_step_dispatch link_step_own])
  note h = link_step_trans [OF link_step_trans [OF s link_step_hook] link_step_own]
  show ?thesis using s h by (simp add: handle_command_def case_prod_unfold Let_def)
qed

lemma link_step_data: "link_step_ok (set_option link) w (fst (snd (on_data es link w inb out handled)))"
proof (induction es link w inb out handled rule: on_data.induct)
  case (1 es link w inb out handled)
  show ?case
  proof (cases "resp_frame (buf_readable inb)")
    case (Request a n)
    show ?thesis
    proof (cases "a = []")
      case True
      from "1.IH"(1) [OF Request True] show ?thesis by (subst on_data.simps) (simp add: Request True)
    next
      case False
      obtain w1 out1 where h: "handle_command (shd es) link a w out = (w1, out1)" by fastforce
      have "link_step_ok (set_option link) w w1" using link_step_handle [of link w "shd es" a out] h by simp
      from link_step_trans [OF this "1.IH"(2) [OF Request False h [symmetric] refl]] show ?thesis
        by (subst on_data.simps) (simp add: Request False h)
    qed
  qed (subst on_data.simps, simp)+
qed

interpretation rh: link_handler resp_handler replica_links
proof
  fix es l w inb out w' r
  assume "h_data resp_handler es l w inb out = (w', r)"
  then have "link_step_ok {l} w w'"
    using link_step_data [of "Some l" w es inb out 0] by (simp add: resp_handler_def)
  then show "replica_links w' \<subseteq> insert l (replica_links w)" "targets w' \<subseteq> insert l (replica_links w \<union> targets w)"
    by (auto simp: link_step_ok_def)
next
  show "replica_links (h_disconnect resp_handler l w) \<subseteq> replica_links w - {l}"
    "w_sent (h_disconnect resp_handler l w) = w_sent w" for l w
    by (auto simp: resp_handler_def handler_on_disconnect_def repl_on_disconnect_def replica_links_def split: option.split)
qed (simp_all add: replica_links_def)

interpretation ph: link_handler pingpong_handler "\<lambda>_. {}"
  by unfold_locales (auto simp: pingpong_handler_def)

lemma cron_task_link_safe: "rh.link_safe (cron_task e)"
proof -
  have "w_repl (cron_task e w) = w_repl w" "w_sent (cron_task e w) = w_sent w" for w
    by (simp_all add: cron_task_def case_prod_unfold Let_def split: option.split)
  then show ?thesis by (auto simp: rh.link_safe_def replica_links_def targets_def)
qed

lemma run_task_link_safe: "rh.link_safe (\<lambda>w. run_task e w task)"
proof -
  have "link_step_ok {} w (run_task e w task)" for w
    using link_step_dispatch [of None w e] by (cases task) (simp_all add: apply_silently_def)
  then show ?thesis by (auto simp: rh.link_safe_def link_step_ok_def)
qed

section \<open>Writing keeps the order\<close>

text \<open>Whatever parts of the output the system takes, what it took and what is left is the output.\<close>

lemma send_loop_order:
  assumes "buf_inv b" "send_loop outs b = (res, b', taken)"
  shows "taken @ buf_readable b' = buf_readable b \<and> buf_inv b' \<and> (res = Drained \<longrightarrow> buf_readable b' = [])"
  using assms
proof (induction outs b arbitrary: res b' taken rule: send_loop.induct)
  case (1 outs b)
  note e = "1.prems"(2) [unfolded send_loop.simps [of outs b]]
  show ?case
  proof (cases "buf_empty b")
    case True
    then show ?thesis using e "1.prems"(1) by (auto simp: buf_empty_def buf_size_readable)
  next
    case ne: False
    show ?thesis
    proof (cases outs)
      case Nil
      then show ?thesis using e ne "1.prems"(1) by auto
    next
      case (Cons x rest)
      show ?thesis
      proof (cases x)
        case (Sent n)
        obtain b1 st1 w1 where r: "send_loop rest (buf_consume b (min n (buf_size b))) = (st1, b1, w1)" by (metis prod_cases3)
        show ?thesis
        proof (cases "n = 0")
          case False
          have "buf_inv (buf_consume b (min n (buf_size b)))"
            "buf_readable (buf_consume b (min n (buf_size b))) = drop n (buf_readable b)"
            using "1.prems"(1) by (simp_all add: buf_size_readable min_def)
          with "1.IH"(1) [OF ne Cons Sent False _ r] e ne Cons Sent False r show ?thesis
            by (auto simp: Let_def)
        qed (use e "1.prems"(1) ne Cons Sent in auto)
      next
        case SendIntr
        with "1.IH"(2) [OF ne Cons SendIntr "1.prems"(1)] e ne Cons show ?thesis by auto
      qed (use e "1.prems"(1) ne Cons in auto)
    qed
  qed
qed

section \<open>Properties\<close>

text \<open>
  C4: The poll backend never pushes to a connection that is gone. For every sequence of turns of the
  loop, whatever \<open>accept\<close>, \<open>poll\<close>, \<open>recv\<close> and \<open>send\<close> return, whatever the clients send, with the cron
  of the server and any tasks posted by a replica link, the run returns, and afterwards every
  replica the master would feed is an open connection.
\<close>
theorem poll_server_no_dangling:
  assumes "replica_links w = {}" "w_sent w = []"
    and "\<forall>(tasks, rd) \<in> set rounds. \<forall>f \<in> set tasks. \<exists>e task. f = (\<lambda>w. run_task e w task)"
  shows "\<exists>ps. poll_run rounds (poll_server_new cfg resp_handler (Some cron_task) now w) = Some ps \<and>
    replica_links (ps_world ps) \<subseteq> dom (ps_conns ps)"
proof -
  have a: "rh.alive (poll_server_new cfg resp_handler (Some cron_task) now w)"
    unfolding rh.alive_def using assms(1,2) cron_task_link_safe by (simp add: poll_server_new_def)
  have "\<forall>(tasks, rd) \<in> set rounds. \<forall>f \<in> set tasks. rh.link_safe f" using assms(3) run_task_link_safe by fastforce
  from rh.poll_run_alive [OF a this] show ?thesis unfolding rh.alive_def by blast
qed

theorem poll_server_no_dangling_witness:
  "\<exists>ps. poll_run [([\<lambda>w. run_task quiet_env w (Apply [''FLUSHALL''])],
      \<lparr>rd_env = quiet_env, rd_now = 200,
       rd_result = Swept [Accepted 7 ''p''] [(7, Io (Some (sconst quiet_env, [Recv (aof_encode [''PSYNC'', ''?'', ''-1''])], [SendAgain])) None)]\<rparr>)]
     (poll_server_new default_server_config resp_handler (Some cron_task) 0
       ((bare_world (sample_store 4 5) Map.empty)\<lparr>w_repl := Some (repl_new ''id'')\<rparr>)) = Some ps \<and>
     replica_links (ps_world ps) \<subseteq> dom (ps_conns ps)"
proof (rule poll_server_no_dangling)
  let ?tasks = "[\<lambda>w. run_task quiet_env w (Apply [''FLUSHALL''])]"
  have "\<forall>f \<in> set ?tasks. \<exists>e task. f = (\<lambda>w. run_task e w task)" by (metis empty_iff list.set(1) set_ConsD)
  then show "\<forall>(tasks, rd) \<in> set [(?tasks, \<lparr>rd_env = quiet_env, rd_now = 200,
      rd_result = Swept [Accepted 7 ''p''] [(7, Io (Some (sconst quiet_env, [Recv (aof_encode [''PSYNC'', ''?'', ''-1''])], [SendAgain])) None)]\<rparr>)].
      \<forall>f \<in> set tasks. \<exists>e task. f = (\<lambda>w. run_task e w task)" by simp
qed (simp_all add: replica_links_def bare_world_def repl_new_def)

end
