(* ===== verification/Asio_Session.thy ===== *)
theory Asio_Session
  imports Poll_Server "HOL-Library.Sublist"
begin

text \<open>
  The connections of the asio backend, class \<open>Session\<close> of \<open>src/asio_server.cpp\<close>: at most one write is
  in flight, everything else waits in a second buffer. Asio itself is not under \<open>src/\<close>: what it
  promises about asynchronous operations is the guards of the step relation \<open>session_step\<close>, namely
  that an operation completes only if it was started, that a write without an error has written the
  whole range it was given, and that a write started on a closed socket fails and writes nothing.
  The fields \<open>s_held\<close> (the buffer whose range was handed to the write in flight), \<open>s_doomed\<close> (that write was started
  after the close), \<open>s_wire\<close> (what the peer was given) and \<open>s_queued\<close> (all output ever queued) record
  what happens; the code has no such variables.
\<close>

section \<open>State and operations\<close>

record session =
  s_peer :: string
  s_in :: buffer
  s_out :: buffer
  s_pending :: buffer
  s_writing :: bool
  s_closed :: bool
  s_reading :: bool
  s_held :: buffer
  s_doomed :: bool
  s_wire :: string
  s_queued :: string

definition session_new :: "string \<Rightarrow> session" where
  "session_new peer =
     \<lparr>s_peer = peer, s_in = buf_new, s_out = buf_new, s_pending = buf_new, s_writing = False, s_closed = False,
      s_reading = False, s_held = buf_new, s_doomed = False, s_wire = [], s_queued = []\<rparr>"

definition counted :: "(stats \<Rightarrow> stats) \<Rightarrow> world \<Rightarrow> world" where
  "counted f w = w\<lparr>w_stats := f (w_stats w)\<rparr>"

definition session_start :: "session \<times> world \<Rightarrow> session \<times> world" where
  "session_start = (\<lambda>(s, w). (s\<lparr>s_reading := True\<rparr>, counted stats_on_connect w))"

definition session_flush :: "session \<Rightarrow> session" where
  "session_flush s =
     (if s_writing s then s
      else
        (let s1 = (if \<not> buf_empty (s_pending s)
                   then s\<lparr>s_out := buf_append (s_out s) (buf_readable (s_pending s)), s_pending := buf_clear (s_pending s)\<rparr>
                   else s)
         in if buf_empty (s_out s1) then s1
            else s1\<lparr>s_writing := True, s_held := s_out s1, s_doomed := s_closed s1\<rparr>))"

definition session_do_close :: "handler \<Rightarrow> link \<Rightarrow> session \<times> world \<Rightarrow> session \<times> world" where
  "session_do_close h l = (\<lambda>(s, w).
     if s_closed s then (s, w) else (s\<lparr>s_closed := True\<rparr>, counted stats_on_disconnect (h_disconnect h l w)))"

definition over_limit :: "server_config \<Rightarrow> session \<Rightarrow> bool" where
  "over_limit cfg s \<longleftrightarrow> buf_size (s_out s) + buf_size (s_pending s) > cfg_max_output_buffer cfg"

definition overflowed :: "stats \<Rightarrow> stats" where
  "overflowed st = st\<lparr>output_buffer_overflows := output_buffer_overflows st + 1\<rparr>"

definition session_send :: "server_config \<Rightarrow> handler \<Rightarrow> link \<Rightarrow> string \<Rightarrow> session \<times> world \<Rightarrow> session \<times> world" where
  "session_send cfg h l data = (\<lambda>(s, w).
     if s_closed s then (s, w)
     else
       (let s1 = s\<lparr>s_pending := buf_append (s_pending s) data, s_queued := s_queued s @ data\<rparr>
        in if over_limit cfg s1 then session_do_close h l (s1, counted overflowed w)
           else (session_flush s1, w)))"

text \<open>A read completes: with an error, or with bytes.\<close>

definition session_read_done ::
  "server_config \<Rightarrow> handler \<Rightarrow> env stream \<Rightarrow> link \<Rightarrow> string option \<Rightarrow> session \<times> world \<Rightarrow> session \<times> world" where
  "session_read_done cfg h es l result = (\<lambda>(s, w).
     let s0 = s\<lparr>s_reading := False\<rparr>
     in case result of
          None \<Rightarrow> session_do_close h l (s0, w)
        | Some data \<Rightarrow>
            (let w1 = counted (\<lambda>st. st\<lparr>bytes_read := bytes_read st + length data\<rparr>) w;
                 (w2, inb, pending, handled) = h_data h es l w1 (buf_append (s_in s0) data) (s_pending s0);
                 w3 = counted (\<lambda>st. st\<lparr>commands_processed := commands_processed st + handled\<rparr>) w2;
                 s1 = s0\<lparr>s_in := inb, s_pending := pending,
                        s_queued := s_queued s @ drop (buf_size (s_pending s)) (buf_readable pending)\<rparr>
             in if over_limit cfg s1 then session_do_close h l (s1, counted overflowed w3)
                else ((session_flush s1)\<lparr>s_reading := True\<rparr>, w3)))"

text \<open>A write completes: with an error after some bytes, or with the whole range.\<close>

definition session_write_done :: "handler \<Rightarrow> link \<Rightarrow> nat option \<Rightarrow> session \<times> world \<Rightarrow> session \<times> world" where
  "session_write_done h l failed_at = (\<lambda>(s, w).
     let amount = (case failed_at of None \<Rightarrow> buf_size (s_held s) | Some k \<Rightarrow> k);
         s1 = s\<lparr>s_writing := False, s_wire := s_wire s @ take amount (buf_readable (s_held s))\<rparr>;
         w1 = counted (\<lambda>st. st\<lparr>bytes_written := bytes_written st + amount\<rparr>) w
     in case failed_at of
          Some k \<Rightarrow> session_do_close h l (s1, w1)
        | None \<Rightarrow> (session_flush (s1\<lparr>s_out := buf_consume (s_out s1) (buf_size (s_held s))\<rparr>), w1))"

text \<open>\<open>AsioServer::accept\<close>: a new session, or an error that is not the one of the shutdown.\<close>

datatype asio_accept = Connected string | Aborted | Accept_failed

fun asio_accept_done :: "asio_accept \<Rightarrow> world \<Rightarrow> session option \<times> world" where
  "asio_accept_done (Connected peer) w = (let (s, w1) = session_start (session_new peer, w) in (Some s, w1))"
| "asio_accept_done Aborted w = (None, w)"
| "asio_accept_done Accept_failed w =
     (None, counted (\<lambda>st. st\<lparr>connections_rejected := connections_rejected st + 1\<rparr>) w)"

text \<open>
  \<open>Replication::start_full_resync\<close> on a session: the three sends one after the other, each of which
  may close the session and thereby call \<open>on_disconnect\<close>, and then the new replica is attached.
\<close>

definition asio_full_resync :: "server_config \<Rightarrow> env \<Rightarrow> link \<Rightarrow> session \<times> world \<Rightarrow> session \<times> world" where
  "asio_full_resync cfg e l = (\<lambda>(s, w).
     case w_repl w of
       None \<Rightarrow> (s, w)
     | Some r \<Rightarrow>
         (let (r1, st1, out) = start_full_resync (e_now e) (e_peer e) (Some l) r (w_store w);
              (s1, w1) = foldl (\<lambda>sw x. session_send cfg resp_handler l (snd x) sw) (s, w\<lparr>w_store := st1\<rparr>) out
          in (s1, w1\<lparr>w_repl := map_option (\<lambda>r2. r2\<lparr>r_replicas := r_replicas r2 @ [last (r_replicas r1)]\<rparr>) (w_repl w1)\<rparr>)))"

section \<open>Steps\<close>

inductive session_step :: "server_config \<Rightarrow> handler \<Rightarrow> link \<Rightarrow> session \<times> world \<Rightarrow> session \<times> world \<Rightarrow> bool" for cfg h l where
  push: "session_step cfg h l (s, w) (session_send cfg h l data (s, w))"
| read: "s_reading s \<Longrightarrow> session_step cfg h l (s, w) (session_read_done cfg h es l result (s, w))"
| wrote_all: "s_writing s \<Longrightarrow> \<not> s_doomed s \<Longrightarrow> session_step cfg h l (s, w) (session_write_done h l None (s, w))"
| write_failed: "s_writing s \<Longrightarrow> k \<le> buf_size (s_held s) \<Longrightarrow> s_doomed s \<longrightarrow> k = 0 \<Longrightarrow>
    session_step cfg h l (s, w) (session_write_done h l (Some k) (s, w))"
| close: "session_step cfg h l (s, w) (session_do_close h l (s, w))"
| other: "session_step cfg h l (s, w) (s, w')"

inductive session_reach :: "server_config \<Rightarrow> handler \<Rightarrow> link \<Rightarrow> session \<Rightarrow> world \<Rightarrow> bool" for cfg h l where
  start: "session_start (session_new peer, w) = (s, w') \<Longrightarrow> session_reach cfg h l s w'"
| step: "session_reach cfg h l s w \<Longrightarrow> session_step cfg h l (s, w) (s', w') \<Longrightarrow> session_reach cfg h l s' w'"

inductive_cases session_stepE: "session_step cfg h l (s, w) (s', w')"

section \<open>Output is queued, never rewritten\<close>

text \<open>The contract of a handler about its buffers: it only appends to the output.\<close>

locale output_handler =
  fixes h :: handler
  assumes data_appends: "h_data h es l w inb out = (w', inb', out', n) \<Longrightarrow> buf_inv inb \<Longrightarrow> buf_inv out \<Longrightarrow>
    buf_inv inb' \<and> buf_inv out' \<and> prefix (buf_readable out) (buf_readable out')"
begin

text \<open>All output is accounted for, as long as no write has failed.\<close>

definition exact :: "session \<Rightarrow> bool" where
  "exact s \<longleftrightarrow> s_wire s @ buf_readable (s_out s) @ buf_readable (s_pending s) = s_queued s"

definition broken :: "session \<Rightarrow> bool" where
  "broken s \<longleftrightarrow> s_closed s \<and> (s_writing s \<longrightarrow> s_doomed s) \<and> prefix (s_wire s) (s_queued s)"

definition session_inv :: "server_config \<Rightarrow> session \<Rightarrow> bool" where
  "session_inv cfg s \<longleftrightarrow> buf_inv (s_in s) \<and> buf_inv (s_out s) \<and> buf_inv (s_pending s) \<and>
     (s_writing s \<longrightarrow> s_held s = s_out s) \<and> (exact s \<or> broken s) \<and> (s_closed s \<or> \<not> over_limit cfg s)"

lemma flush_inv: "session_inv cfg s \<Longrightarrow> session_inv cfg (session_flush s)"
  by (auto simp: session_inv_def session_flush_def exact_def broken_def over_limit_def buf_size_readable
      buf_append_readable buf_append_inv buf_clear_simps Let_def)

lemma flush_closed [simp]: "s_closed (session_flush s) = s_closed s"
  by (simp add: session_flush_def Let_def)

lemma close_inv:
  assumes "session_inv cfg (s\<lparr>s_closed := True\<rparr>)" "session_do_close h l (s, w) = (s', w')"
  shows "session_inv cfg s'"
  using assms by (cases s) (auto simp: session_do_close_def session_inv_def exact_def broken_def over_limit_def split: if_splits)

lemma session_inv_close: "session_inv cfg s \<Longrightarrow> session_inv cfg (s\<lparr>s_closed := True\<rparr>)"
  by (auto simp: session_inv_def exact_def broken_def)

text \<open>Queueing more output, up to the limit.\<close>

lemma queue_inv:
  assumes "session_inv cfg s" "buf_inv pending" "buf_readable pending = buf_readable (s_pending s) @ data" "buf_inv inb"
    and "s1 = s\<lparr>s_reading := r, s_in := inb, s_pending := pending, s_queued := s_queued s @ data\<rparr>"
  shows "session_inv cfg (s1\<lparr>s_closed := True\<rparr>)" and "\<not> over_limit cfg s1 \<Longrightarrow> session_inv cfg s1"
  using assms by (auto simp: session_inv_def exact_def broken_def over_limit_def buf_size_readable)

lemma send_inv:
  assumes "session_inv cfg s" "session_send cfg h l data (s, w) = (s', w')"
  shows "session_inv cfg s'"
proof (cases "s_closed s")
  case True
  with assms show ?thesis by (simp add: session_send_def)
next
  case False
  define s1 where "s1 = s\<lparr>s_reading := s_reading s, s_in := s_in s, s_pending := buf_append (s_pending s) data, s_queued := s_queued s @ data\<rparr>"
  have "buf_inv (s_pending s)" "buf_inv (s_in s)" using assms(1) by (simp_all add: session_inv_def)
  then have q: "session_inv cfg (s1\<lparr>s_closed := True\<rparr>)" "\<not> over_limit cfg s1 \<Longrightarrow> session_inv cfg s1"
    using queue_inv [OF assms(1), of "buf_append (s_pending s) data" data "s_in s" s1 "s_reading s"]
    by (simp_all add: s1_def buf_append_readable buf_append_inv)
  have "(if over_limit cfg s1 then session_do_close h l (s1, counted overflowed w) else (session_flush s1, w)) = (s', w')"
    using assms(2) False by (simp add: session_send_def s1_def Let_def cong: if_cong)
  with q close_inv [OF q(1)] flush_inv show ?thesis by (auto split: if_splits)
qed

lemma read_inv:
  assumes "session_inv cfg s" "session_read_done cfg h es l result (s, w) = (s', w')"
  shows "session_inv cfg s'"
proof (cases result)
  case None
  have "session_inv cfg (s\<lparr>s_reading := False\<rparr>)"
    using assms(1) by (simp add: session_inv_def exact_def broken_def over_limit_def)
  then have i: "session_inv cfg (s\<lparr>s_reading := False, s_closed := True\<rparr>)" using session_inv_close by blast
  have "session_do_close h l (s\<lparr>s_reading := False\<rparr>, w) = (s', w')"
    using assms(2) unfolding session_read_done_def None by (simp only: prod.case option.case Let_def)
  then show ?thesis by (rule close_inv [OF i])
next
  case (Some data)
  define w1 where "w1 = counted (\<lambda>st. st\<lparr>bytes_read := bytes_read st + length data\<rparr>) w"
  obtain w2 inb pending n where d: "h_data h es l w1 (buf_append (s_in s) data) (s_pending s) = (w2, inb, pending, n)"
    by (metis prod_cases4)
  have i: "buf_inv (s_pending s)" "buf_inv (buf_append (s_in s) data)" using assms(1) by (simp_all add: session_inv_def)
  let ?new = "drop (buf_size (s_pending s)) (buf_readable pending)"
  have p: "buf_inv pending" "buf_inv inb" "buf_readable pending = buf_readable (s_pending s) @ ?new"
    using data_appends [OF d i(2,1)] by (auto simp: buf_size_readable prefix_def)
  define s1 where "s1 = s\<lparr>s_reading := False, s_in := inb, s_pending := pending, s_queued := s_queued s @ ?new\<rparr>"
  have q: "session_inv cfg (s1\<lparr>s_closed := True\<rparr>)" "\<not> over_limit cfg s1 \<Longrightarrow> session_inv cfg s1"
    using queue_inv [of cfg s pending ?new inb s1 False] assms(1) p s1_def by blast+
  define w3 where "w3 = counted (\<lambda>st. st\<lparr>commands_processed := commands_processed st + n\<rparr>) w2"
  have f: "s_in (s\<lparr>s_reading := False\<rparr>) = s_in s" "s_pending (s\<lparr>s_reading := False\<rparr>) = s_pending s" by simp_all
  have r: "session_read_done cfg h es l result (s, w) = (if over_limit cfg s1 then session_do_close h l (s1, counted overflowed w3)
      else ((session_flush s1)\<lparr>s_reading := True\<rparr>, w3))"
    unfolding session_read_done_def Some s1_def w3_def by (simp only: prod.case option.case Let_def f d flip: w1_def)
  show ?thesis
  proof (cases "over_limit cfg s1")
    case True
    then have "session_do_close h l (s1, counted overflowed w3) = (s', w')" using r assms(2) by simp
    then show ?thesis by (rule close_inv [OF q(1)])
  next
    case False
    then have "s' = (session_flush s1)\<lparr>s_reading := True\<rparr>" using r assms(2) by simp
    moreover have "session_inv cfg (session_flush s1)" by (rule flush_inv [OF q(2) [OF False]])
    ultimately show ?thesis by (simp add: session_inv_def exact_def broken_def over_limit_def)
  qed
qed

lemma wrote_all_inv:
  assumes "session_inv cfg s" "s_writing s" "\<not> s_doomed s" "session_write_done h l None (s, w) = (s', w')"
  shows "session_inv cfg s'"
proof -
  have e: "exact s" "s_held s = s_out s" using assms(1-3) by (auto simp: session_inv_def broken_def)
  let ?s = "s\<lparr>s_writing := False, s_wire := s_wire s @ buf_readable (s_out s), s_out := buf_consume (s_out s) (buf_size (s_out s))\<rparr>"
  have "session_inv cfg ?s"
    using assms(1) e by (auto simp: session_inv_def exact_def over_limit_def buf_size_readable)
  moreover have "s' = session_flush ?s"
    using assms(4) e(2) by (simp add: session_write_done_def Let_def buf_size_readable)
  ultimately show ?thesis by (simp add: flush_inv)
qed

lemma write_failed_inv:
  assumes "session_inv cfg s" "s_writing s" "s_doomed s \<longrightarrow> k = 0" "session_write_done h l (Some k) (s, w) = (s', w')"
  shows "session_inv cfg s'"
proof -
  let ?s = "s\<lparr>s_writing := False, s_wire := s_wire s @ take k (buf_readable (s_out s))\<rparr>"
  have "prefix (s_wire s @ take k (buf_readable (s_out s))) (s_queued s)"
  proof (cases "exact s")
    case True
    then have "s_queued s = (s_wire s @ take k (buf_readable (s_out s))) @ drop k (buf_readable (s_out s)) @ buf_readable (s_pending s)"
      unfolding exact_def by (metis append_assoc append_take_drop_id)
    then show ?thesis unfolding prefix_def by blast
  next
    case False
    with assms show ?thesis by (auto simp: session_inv_def broken_def)
  qed
  then have "session_inv cfg (?s\<lparr>s_closed := True\<rparr>)" using assms(1) by (auto simp: session_inv_def broken_def)
  from close_inv [OF this] assms(1,2,4) show ?thesis by (auto simp: session_write_done_def session_inv_def Let_def)
qed

lemma reach_inv: "session_reach cfg h l s w \<Longrightarrow> session_inv cfg s"
proof (induction rule: session_reach.induct)
  case (start peer w s w')
  then show ?case by (auto simp: session_start_def session_new_def session_inv_def exact_def over_limit_def buf_size_readable)
next
  case (step s w s' w')
  from step.hyps(2) step.IH show ?case
    by (elim session_stepE)
       (blast intro: send_inv [OF _ sym] read_inv [OF _ sym] wrote_all_inv [OF _ _ _ sym] write_failed_inv [OF _ _ _ sym]
          close_inv [OF session_inv_close sym])+
qed

end

lemma prefix_append_trans: "prefix x y \<Longrightarrow> prefix x (y @ z)"
  by (auto simp: prefix_def)

lemma own_sends_appends:
  assumes "buf_inv out"
  shows "buf_inv (snd (own_sends link w out)) \<and> prefix (buf_readable out) (buf_readable (snd (own_sends link w out)))"
proof -
  have "buf_inv (foldl (\<lambda>b x. buf_append b (snd x)) b xs) \<and>
      prefix (buf_readable b) (buf_readable (foldl (\<lambda>b x. buf_append b (snd x)) b xs))" if "buf_inv b" for b and xs :: sends
    using that
  proof (induction xs arbitrary: b)
    case (Cons x xs)
    then show ?case using Cons.IH [of "buf_append b (snd x)"]
      by (auto simp: buf_append_readable buf_append_inv intro: append_prefixD)
  qed simp
  from this [OF assms] show ?thesis by (simp add: own_sends_def)
qed

lemma handle_command_appends:
  assumes "buf_inv out"
  shows "buf_inv (snd (handle_command e link a w out)) \<and>
    prefix (buf_readable out) (buf_readable (snd (handle_command e link a w out)))"
proof -
  let ?d = "dispatch e a link w"
  define out2 where "out2 = snd (own_sends link (snd ?d) out)"
  define out3 where "out3 = buf_append out2 (cr_reply (fst ?d))"
  have o2: "buf_inv out2" "prefix (buf_readable out) (buf_readable out2)"
    using own_sends_appends [OF assms] by (simp_all add: out2_def)
  then have o3: "buf_inv out3" "prefix (buf_readable out) (buf_readable out3)"
    by (simp_all add: out3_def buf_append_readable buf_append_inv prefix_append_trans)
  have "snd (handle_command e link a w out) = out3 \<or>
      (\<exists>w'. snd (handle_command e link a w out) = snd (own_sends link w' out3))"
    by (auto simp: handle_command_def out2_def out3_def case_prod_unfold Let_def)
  then show ?thesis using o3 own_sends_appends [OF o3(1), of link] by (auto intro: prefix_order.trans)
qed

lemma on_data_appends:
  assumes "buf_inv out" "buf_inv inb" "on_data es link w inb out n = (es', w', inb', out', n')"
  shows "buf_inv out' \<and> prefix (buf_readable out) (buf_readable out')"
  using assms
proof (induction es link w inb out n rule: on_data.induct)
  case (1 es link w inb out n)
  note e = "1.prems"(3) [unfolded on_data.simps [of es link w inb out n]]
  show ?case
  proof (cases "resp_frame (buf_readable inb)")
    case (Request a k)
    have c: "buf_inv (buf_consume inb k)" using "1.prems"(2) by simp
    show ?thesis
    proof (cases "a = []")
      case True
      from "1.IH"(1) [OF Request True "1.prems"(1) c] e Request True show ?thesis by simp
    next
      case False
      obtain w1 out1 where h: "handle_command (shd es) link a w out = (w1, out1)" by fastforce
      have o: "buf_inv out1" "prefix (buf_readable out) (buf_readable out1)"
        using handle_command_appends [OF "1.prems"(1), of "shd es" link a w] h by simp_all
      from "1.IH"(2) [OF Request False h [symmetric] refl o(1) c] e Request False h o(2) show ?thesis
        by (auto intro: prefix_order.trans)
    qed
  qed (use e "1.prems"(1) in \<open>auto simp: buf_append_readable buf_append_inv\<close>)
qed

lemma pingpong_appends:
  assumes "buf_inv out" "buf_inv inb" "pingpong_on_data uptime st inb out n = (inb', out', n')"
  shows "buf_inv out' \<and> prefix (buf_readable out) (buf_readable out')"
  using assms
proof (induction uptime st inb out n rule: pingpong_on_data.induct)
  case (1 uptime st inb out n)
  note e = "1.prems"(3) [unfolded pingpong_on_data.simps [of uptime st inb out n] Let_def]
  let ?k = "framed_length (buf_readable inb)"
  have fold: "buf_inv (foldl buf_append b xs) \<and> prefix (buf_readable b) (buf_readable (foldl buf_append b xs))" if "buf_inv b" for b xs
    using that
  proof (induction xs arbitrary: b)
    case (Cons x xs)
    then show ?case using Cons.IH [of "buf_append b x"]
      by (auto simp: buf_append_readable buf_append_inv intro: append_prefixD)
  qed simp
  let ?out = "foldl buf_append out (pingpong_reply (uptime n) st (take ?k (buf_readable inb)))"
  have o: "buf_inv ?out" "prefix (buf_readable out) (buf_readable ?out)" using fold [OF "1.prems"(1)] by simp_all
  show ?case
  proof (cases "?k = 0")
    case False
    have c: "buf_inv (buf_consume inb ?k)" using "1.prems"(2) by simp
    from "1.IH" [OF refl False o(1) c] e False o(2) show ?thesis by (auto intro: prefix_order.trans)
  qed (use e "1.prems"(1) in auto)
qed

interpretation ro: output_handler resp_handler
proof
  fix es l w inb out w' inb' out' n
  assume d: "h_data resp_handler es l w inb out = (w', inb', out', n)" and i: "buf_inv inb" "buf_inv out"
  obtain es' where o: "on_data es (Some l) w inb out 0 = (es', w', inb', out', n)"
    using d by (cases "on_data es (Some l) w inb out 0") (auto simp: resp_handler_def)
  from on_data_appends [OF i(2,1) o] on_data_inv [OF i(1), of es "Some l" w out 0] o
  show "buf_inv inb' \<and> buf_inv out' \<and> prefix (buf_readable out) (buf_readable out')" by simp
qed

interpretation po: output_handler pingpong_handler
proof
  fix es l w inb out w' inb' out' n
  assume d: "h_data pingpong_handler es l w inb out = (w', inb', out', n)" and i: "buf_inv inb" "buf_inv out"
  let ?u = "\<lambda>k. e_uptime (es !! k)"
  have p: "pingpong_on_data ?u (w_stats w) inb out 0 = (inb', out', n)" using d by (auto simp: pingpong_handler_def)
  from pingpong_appends [OF i(2,1) p] pingpong_content [OF i(1,1) refl, of ?u "w_stats w" out 0] p
  show "buf_inv inb' \<and> buf_inv out' \<and> prefix (buf_readable out) (buf_readable out')" by simp
qed

section \<open>Properties\<close>



text \<open>
  A resynchronisation whose snapshot is larger than the output limit: the session is closed while the
  snapshot is sent, and attached as a replica after that. Nothing detaches it again, and the next
  write is pushed to a session that no longer exists.
\<close>

lemma session_send_closes:
  assumes "session_send cfg h l data (s, w) = (s', w')"
  shows "s_closed s \<Longrightarrow> s_closed s'" and "buf_inv (s_pending s) \<Longrightarrow> length data > cfg_max_output_buffer cfg \<Longrightarrow> s_closed s'"
    and "buf_inv (s_pending s) \<Longrightarrow> buf_inv (s_pending s')"
  using assms
  by (auto simp: session_send_def session_do_close_def session_flush_def over_limit_def buf_size_readable
      buf_append_readable buf_append_inv buf_clear_simps Let_def split: if_splits)

lemma session_send_repl:
  assumes "session_send cfg resp_handler l data (s, w) = (s', w')"
  shows "(w_repl w' = None) = (w_repl w = None)"
  using assms
  by (auto simp: session_send_def session_do_close_def counted_def resp_handler_def handler_on_disconnect_def Let_def
      split: if_splits option.splits)

theorem asio_large_resync_dangles:
  assumes "w_repl w = Some r" "buf_inv (s_pending s)"
    and "length (rdb_serialize (fst (store_snapshot (w_store w)))) > cfg_max_output_buffer cfg"
    and "asio_full_resync cfg e l (s, w) = (s', w')"
  shows "s_closed s' \<and> l \<in> replica_links w'"
proof -
  obtain r1 st1 out where r: "start_full_resync (e_now e) (e_peer e) (Some l) r (w_store w) = (r1, st1, out)" by (metis prod_cases3)
  then obtain hd ln where o: "out = [(l, hd), (l, ln), (l, rdb_serialize (fst (store_snapshot (w_store w))))]"
    "rep_link (last (r_replicas r1)) = l"
    by (auto simp: start_full_resync_def case_prod_unfold Let_def)
  obtain s1 w1 where a: "session_send cfg resp_handler l hd (s, w\<lparr>w_store := st1\<rparr>) = (s1, w1)" by fastforce
  obtain s2 w2 where b: "session_send cfg resp_handler l ln (s1, w1) = (s2, w2)" by fastforce
  obtain s3 w3 where c: "session_send cfg resp_handler l (rdb_serialize (fst (store_snapshot (w_store w)))) (s2, w2) = (s3, w3)" by fastforce
  have "buf_inv (s_pending s2)" using session_send_closes(3) [OF a] session_send_closes(3) [OF b] assms(2) by blast
  then have "s_closed s3" using session_send_closes(2) [OF c] assms(3) by blast
  moreover obtain r3 where "w_repl w3 = Some r3"
    using session_send_repl [OF a] session_send_repl [OF b] session_send_repl [OF c] assms(1) by auto
  moreover have "(s', w') = (s3, w3\<lparr>w_repl := map_option (\<lambda>r2. r2\<lparr>r_replicas := r_replicas r2 @ [last (r_replicas r1)]\<rparr>) (w_repl w3)\<rparr>)"
    using assms(1,4) r o(1) a b c by (simp add: asio_full_resync_def)
  ultimately show ?thesis using o(2) by (simp add: replica_links_def)
qed

end
