(* ===== verification/Spec2Isabelle.thy ===== *)
theory Spec2Isabelle
  imports Buffer Resp Rdb Stats Aof Mirror Asio_Session
begin

text \<open>
  redis-plus is a key-value server that speaks the Redis protocol. One event-loop thread owns the
  keyspace, the log, the snapshots and the master side of replication; a saver thread writes
  snapshots and a link thread of a replica follows its master, and both reach the event loop only
  through flags and posted tasks. This development models the program under \<open>src/src\<close> and
  \<open>src/include/rp\<close> as functions on explicit states and proves what makes each part correct, and what
  the parts guarantee together. A property is a theorem after a text that starts with its number.

  \<^bold>\<open>The parts and their theories\<close>

  \<^item> \<open>Prelude\<close>: characters, decimal numbers, 64-bit integers (\<open>int\<close> with \<open>wrap64\<close>, \<open>in_int64\<close>), the search
    for a line end. \<open>Umap\<close>: \<open>std::unordered_map\<close> as a table of buckets, with its order of iteration.
  \<^item> \<open>Buffer\<close>: the byte buffer of a connection (\<open>buffer.hpp\<close>), a refinement of a byte queue.
  \<^item> \<open>Resp\<close>, \<open>Glob\<close>: the request parser, the replies and the pattern matcher (\<open>resp.cpp\<close>): round trip,
    framing, prefixes are incomplete, no access out of bounds, the matcher returns and agrees with its
    declarative meaning.
  \<^item> \<open>Store\<close>: the keyspace with lazy and active expiry (\<open>store.cpp\<close>): it refines a map whose entries vanish
    at their deadline, keeps its tables well formed, and the expiry cycle is safe, bounded and makes
    progress.
  \<^item> \<open>Crc\<close>, \<open>Files\<close>, \<open>Rdb\<close>: the checksum, the file system, and snapshots (\<open>rdb.cpp\<close>): round trip, detection
    of damage, termination, what a failed save leaves.
  \<^item> \<open>Wire\<close>: the interface between a stream of encoded requests and a loop that consumes it, which
    the log, both handlers and the link thread implement. \<open>Aof\<close>: the append-only log (\<open>aof.cpp\<close>):
    what a crash leaves is a whole prefix, \<open>always\<close> is durable after a flush.
  \<^item> \<open>Stats\<close>: the counters (\<open>stats.hpp\<close>, \<open>stats.cpp\<close>).
  \<^item> \<open>Commands\<close>, \<open>Dispatch\<close>: the commands on the keyspace, the command table and \<open>RespHandler\<close>
    (\<open>commands.cpp\<close>): the meaning of \<open>SET\<close>, \<open>DEL\<close>, \<open>EXPIRE\<close>; a command that is not logged changes nothing;
    the logged form of a write, applied later, has its effect; requests are handled once and in
    order however they arrive; a replica is read-only.
  \<^item> \<open>Persistence\<close>: snapshots in the background, the log and the cron (\<open>persistence.cpp\<close>).
    \<open>Replication\<close>: the master side and the start and stop of a link (\<open>replication.cpp\<close>).
    \<open>Replica_Link\<close>: the link thread. \<open>Boot\<close>: the command line, \<open>Persistence::load\<close> and \<open>main\<close>.
  \<^item> \<open>Handler\<close>: the placeholder handler (\<open>handler.cpp\<close>). \<open>Poll_Server\<close>: the poll backend
    (\<open>poll_server.cpp\<close>), which never uses a connection that is gone. \<open>Asio_Session\<close>: the connections of
    the asio backend (\<open>asio_server.cpp\<close>), whose output is in order and bounded.
  \<^item> \<open>Recovery\<close>, \<open>Mirror\<close> and this theory: the parts together. \<open>Recovery\<close> keeps the invariant that replaying
    the log gives the keyspace; \<open>Mirror\<close> keeps the one that the bytes sent to a replica turn the
    snapshot into the present keyspace. The two theorems below say what a restart and a replica find.

  \<^bold>\<open>How the state is modelled\<close>

  A class is a record and a method a function from the old to the new state. The \<open>world\<close> of \<open>Dispatch\<close>
  holds all that the event loop shares: the store, persistence, replication, counters, the files and
  the bytes pushed to connections. Readings of the clock are a stream in the store and fields of \<open>env\<close>
  elsewhere; \<open>frozen t\<close> says that the clock stands at \<open>t\<close> during a command. \<open>view t s\<close> is the keyspace
  a client sees at \<open>t\<close>. File operations and system calls take their outcome as an argument, so every
  failure is a case of the model. Errors are values; exceptions that leave \<open>main\<close> are \<open>Uncaught\<close>. The
  saver thread is a job that a later step completes; the link thread yields the tasks it posts; the
  sessions of the asio backend are a step relation. The interfaces are the locales \<open>assoc_map\<close>,
  \<open>byte_queue\<close>, \<open>ttl_store\<close>, \<open>wire_format\<close>, \<open>stream_consumer\<close>, \<open>link_handler\<close> and \<open>output_handler\<close>, each
  interpreted on the definitions that model the code.

  \<^bold>\<open>Loops and bounds\<close>

  No loop is cut off by fuel. Loops that end for every input are functions with a termination proof.
  The matcher and the snapshot reader are partial functions into \<open>option\<close>: the matcher is proved to
  return always, the snapshot reader on every payload without a 64-bit length, and a payload on which
  it does not return is exhibited. Sizes are natural numbers; 64-bit arithmetic wraps where the
  code's can (\<open>wrap64\<close>, the word type in \<open>Crc\<close>, the reader's position in \<open>Rdb\<close>, the replica's offset).
  The master's offset and the counters of bytes are unbounded.

  \<^bold>\<open>What the theorems assume\<close>

  The conditions of a theorem are in its statement and its text. The two that matter most: the
  recovery and replication theorems exclude a \<open>PERSIST\<close> or a new deadline that keeps a key alive past
  the time of the replay, since the program loses such a key (\<open>persisted_key_lost_on_replay\<close>); and a
  replica applies what it received at one time \<open>T\<close>. \<open>asio_large_resync_dangles\<close> shows that what is
  proved of the poll backend, that no closed connection is used, does not hold of the asio backend.

  \<^bold>\<open>Not modelled\<close>

  Creating sockets and setting their options, sleeping and console output, which have no effect on
  the states above. Asio itself, which is not part of the repository: its promises about
  asynchronous operations are the guards of \<open>session_step\<close>, and \<open>AsioServer::run\<close>, \<open>stop\<close>, \<open>post\<close> and the
  cron timer only call it. \<open>make_server\<close> (\<open>server.cpp\<close>), a choice between two constructors.
  \<open>random_replid\<close>, whose result is a parameter. Pushes of one session that close another in the middle
  of \<open>Replication::propagate\<close>, which is undefined behaviour in the code. Data races: every state is
  touched by one thread at a time, as the code intends. The benchmarks, the tests and the fuzzer.
\<close>

section \<open>Recovery from the log\<close>

definition aof_config :: main_config where
  "aof_config = main_config_new\<lparr>mc_pers := default_persistence_config\<lparr>pc_aof_enabled := True, pc_fsync_policy := kAlways\<rparr>\<rparr>"

lemma aof_config_simps [simp]:
  "pc_aof_enabled (mc_pers aof_config)" "pc_fsync_policy (mc_pers aof_config) = kAlways"
  "mc_replicaof_host aof_config = []" "paths_ok (mc_pers aof_config)"
  by (auto simp: aof_config_def main_config_new_def default_persistence_config_def paths_ok_def aof_path_def
      rdb_path_def rdb_temp_def)

lemma blank_sample [simp]: "0 \<le> t \<Longrightarrow> blank t (sample_store n t)"
  by (simp add: shows_from_def)

lemma plain_set:
  assumes "frozen t (w_store w)" "store_inv (w_store w)"
  shows "fst (dispatch e [''SET'', k, v] None w) = wrote reply_ok [''SET'', k, v]"
proof -
  have so: "set_opts_at t (drop 3 [''SET'', k, v]) = Inr set_opts_new" by (simp add: set_opts_at_def)
  have "fst (cmd_set (w_store w) [''SET'', k, v]) = wrote reply_ok [''SET'', k, v]"
    using cmd_set_frozen(1) [OF assms _ so]
    by (simp add: set_opts_new_def set_refused_def set_expire_at_def set_propagate_def kNoExpiry_def)
  moreover have "store_command ''SET'' a s = Some (cmd_set s a)" for a s by (simp add: store_command_def)
  ultimately show ?thesis
    by (simp add: dispatch_def refused_on_replica_def Let_def case_prod_unfold wrote_def)
qed

text \<open>
  C2: A server that logs its writes can be restarted without loss. Start it on an empty log, let it
  handle commands, cron ticks (which expire keys, flush and rewrite the log) and completions of
  background saves at non-decreasing times, and stop it after a tick, under a policy that hands
  every write to the system at each tick. A process started on the files it leaves, at a later time
  \<open>T\<close>, comes up and shows from then on exactly the keyspace the first one would show. The conditions
  of \<open>run_ok\<close>: file operations succeed; every logged command is within the limits of the protocol
  and does not carry the deadline \<open>INT64_MIN\<close>; and no \<open>PERSIST\<close> or change of deadline keeps alive at
  \<open>T\<close> a key that would be dead at \<open>T\<close> without it (\<open>persisted_key_lost_on_replay\<close> shows that such a
  key is lost).
\<close>
theorem aof_recovery_exact:
  assumes "pc_aof_enabled (mc_pers mc)" "pc_fsync_policy (mc_pers mc) \<noteq> kEverySec" "paths_ok (mc_pers mc)"
    and "mc_replicaof_host mc = []" "io_open (e_io e)" "io_open (e_io e2)"
    and "blank t q" "0 \<le> t" "contents fs (aof_path (mc_pers mc)) = []" "boot e mc replid q fs = Some (Inr w)"
    and "run_ok T t w (evs @ [(t', Tick e')])" "w' = world_run w (evs @ [(t', Tick e')])" "blank T q2"
  shows "\<exists>w2. boot e2 mc replid2 q2 (w_fs w') = Some (Inr w2) \<and>
    (\<forall>u \<ge> T. view u (w_store w2) = view u (w_store w'))"
proof -
  have "recovers (mc_pers mc) T t w"
    by (rule boot_recovers [OF refl assms(1,4,5,7) run_sat_le [OF assms(11)] assms(9,10)])
  from recovers_run_tick [OF assms(3) this assms(8,11,2)]
  obtain p cs where "w_pers w' = Some p" "contents (w_fs w') (aof_path (mc_pers mc)) = log_of p (w_fs w')"
    "log_of p (w_fs w') = concat (map aof_encode cs)" "replays T (w_store w') cs"
    unfolding recovers_def flushed_def assms(12) [symmetric] by auto
  then show ?thesis by (intro boot_replays [OF refl assms(1,4,6,13)]) simp_all
qed

theorem aof_recovery_exact_witness:
  "\<exists>w w2. boot quiet_env aof_config ''id'' (sample_store 4 5) Map.empty = Some (Inr w) \<and>
     run_ok 10 5 w [(6, Cmd quiet_env None [''SET'', ''k'', ''v'']), (7, Tick quiet_env)] \<and>
     boot quiet_env aof_config ''id'' (sample_store 4 10)
       (w_fs (world_run w [(6, Cmd quiet_env None [''SET'', ''k'', ''v'']), (7, Tick quiet_env)])) = Some (Inr w2) \<and>
     view 10 (w_store w2) =
       view 10 (w_store (world_run w [(6, Cmd quiet_env None [''SET'', ''k'', ''v'']), (7, Tick quiet_env)]))"
proof -
  let ?a = "[''SET'', ''k'', ''v'']"
  have io: "io_open (e_io quiet_env)" "env_fine quiet_env"
    by (simp_all add: quiet_env_def good_io_def env_fine_def io_fine_def)
  have c: "contents Map.empty (aof_path (mc_pers aof_config)) = []" by (simp add: contents_def)
  obtain w where w: "boot quiet_env aof_config ''id'' (sample_store 4 5) Map.empty = Some (Inr w)"
    using boot_replays [of aof_config _ quiet_env 5 "sample_store 4 5" Map.empty "[]" "sample_store 4 5" "''id''"] c io
    by (auto simp: follows_def shows_from_def)
  have "recovers (mc_pers aof_config) 10 5 w" by (rule boot_recovers [OF refl _ _ io(1) _ _ c w]) simp_all
  from recovers_clock [OF this, of 6]
  have "frozen 6 (w_store (set_clock 6 w))" "store_inv (w_store (set_clock 6 w))" by (simp_all add: recovers_def)
  then have s: "fst (dispatch quiet_env ?a None (set_clock 6 w)) = wrote reply_ok ?a" by (rule plain_set)
  have r: "run_ok 10 5 w ([(6, Cmd quiet_env None ?a)] @ [(7, Tick quiet_env)])"
    using s io by (simp add: case_prod_unfold Let_def wrote_def wire_ok_def log_ok_def no_revival_def
        kMaxBulkLength_def kMaxMultibulkLength_def)
  from aof_recovery_exact [OF _ _ _ _ io(1,1) _ _ c w r refl, of "sample_store 4 10" "''id''"] w r
  show ?thesis by fastforce
qed

section \<open>Convergence of a replica\<close>

text \<open>
  C3: A replica converges to its master. A master answers \<open>PSYNC\<close> on a connection and then serves
  other clients, cron ticks, savers and disconnections of others. Whatever pieces the bytes of
  the handshake, the snapshot and the stream arrive in, the replica's link posts tasks which, run by
  its event loop at a later time \<open>T\<close>, leave from \<open>T\<close> on exactly the master's keyspace, whatever the
  replica held before; and the two offsets agree (as 64-bit numbers). The conditions: the
  connection is not attached already, stays open and sends nothing that matters; the replica's
  writes to the socket succeed and it reads all pieces; the replication id has no carriage return;
  the snapshot is shorter than \<open>2 ^ 64\<close> bytes and its data is within the limits of the protocol; and
  every propagated write can be carried to \<open>T\<close>, as for the recovery of the log.
\<close>
theorem replica_converges:
  assumes "w_repl w = Some r" "l \<notin> rep_link ` set (r_replicas r)" "sent_to l (w_sent w) = []"
    and "frozen t (w_store w)" "store_inv (w_store w)" "data_ok t (w_store w)" "0 \<le> t"
    and "CR \<notin> set (r_replid r)" "0 \<le> r_master_offset r" "r_master_offset r \<le> int64_max"
    and "length (rdb_serialize (fst (store_snapshot (w_store w)))) < 2 ^ 64"
    and "handle_command e (Some l) [''PSYNC'', ''?'', ''-1''] w buf_new = (w1, out)"
    and "run_sat (mirror_ok l T) T t w1 evs" "w2 = world_run w1 evs"
    and "sk_writes sk = sconst True" "concat (sk_in sk) = greeting @ buf_readable out @ sent_to l (w_sent w2)"
    and "steady rounds" "length (sk_in sk) \<le> readies rounds"
    and "frozen T (w_store v)" "store_inv (w_store v)"
  shows "\<exists>tasks q' r2. link_attempt (Established sk now (rounds @ [(now', Would_block)])) q = Some (tasks, q') \<and>
    (\<forall>u \<ge> T. view u (w_store (foldl (run_task e') v tasks)) = view u (w_store w2)) \<and>
    w_repl w2 = Some r2 \<and> wrap64 (r_replica_offset q') = wrap64 (r_master_offset r2)"
proof -
  let ?s = "w_store w"
  have tT: "t \<le> T" by (rule run_sat_le [OF assms(13)])
  note ps = psync_mirrored [OF assms(1-5) tT assms(12)]
  from mirrored_run [OF ps(2) assms(7,13)] obtain r2 cs where m: "w_repl w2 = Some r2" "follows T (\<lambda>u. view u ?s) (w_store w2) cs"
    "sent_to l (w_sent w2) = concat (map aof_encode cs)"
    "r_master_offset r2 = r_master_offset r + int (length (concat (map aof_encode cs)))"
    by (auto simp: mirrored_def assms(14))
  have now: "store_now ?s = t" using assms(4) by (simp add: store_now_def frozen_now)
  have "\<forall>x \<in> set (fst (store_snapshot ?s)). in_int64 (rec_expire_at x)"
    using snapshot_record [OF assms(5)] assms(6) now
    by (fastforce simp: data_ok_def deadline_opt_def kNoExpiry_def int64_defs split: if_splits)
  moreover have lg: "\<forall>c \<in> set cs. wire_ok c \<and> is_write_command (upper (hd c))" using m(2) by (simp add: follows_def)
  ultimately obtain q' where q: "link_attempt (Established sk now (rounds @ [(now', Would_block)])) q =
      Some (Replace (fst (store_snapshot ?s)) # map Apply cs, q')"
    "wrap64 (r_replica_offset q') = wrap64 (r_master_offset r2)"
    using link_attempt_posts [OF assms(15) _ assms(8-11) _ _ assms(17,18), of cs now now' q] assms(16) ps(1) m(3,4)
    by (auto simp: is_logged_def)
  define s1 where "s1 = foldl load_record (store_clear (w_store v)) (fst (store_snapshot ?s))"
  have "shows_from T (\<lambda>u. view u ?s) s1"
    unfolding shows_from_def s1_def
    using load_snapshot_view [OF assms(5,20,19)] load_all_inv [of T "store_clear (w_store v)"] assms(19,20) now tT by (auto simp: frozen_simps)
  with m(2) have "\<forall>u \<ge> T. view u (replay_store cs s1) = view u (w_store w2)" by (simp add: follows_def)
  with q m(1) run_tasks_apply [OF lg, of e'] show ?thesis by (auto simp: s1_def)
qed

theorem replica_converges_witness:
  "\<exists>w1 out tasks q'.
     handle_command quiet_env (Some 7) [''PSYNC'', ''?'', ''-1'']
       ((bare_world (sample_store 4 5) Map.empty)\<lparr>w_repl := Some (repl_new ''id'')\<rparr>) buf_new = (w1, out) \<and>
     link_attempt (Established
       \<lparr>sk_in = [greeting, buf_readable out @
          sent_to 7 (w_sent (world_run w1 [(6, Cmd quiet_env None [''SET'', ''k'', ''v''])]))],
        sk_out = [], sk_writes = sconst True\<rparr> 0 ([(0, Ready), (0, Ready)] @ [(1, Would_block)])) (repl_new ''x'') = Some (tasks, q') \<and>
     view 10 (w_store (foldl (run_task quiet_env) (bare_world (sample_store 4 10) Map.empty) tasks)) =
       view 10 (w_store (world_run w1 [(6, Cmd quiet_env None [''SET'', ''k'', ''v''])]))"
proof -
  let ?w = "(bare_world (sample_store 4 5) Map.empty)\<lparr>w_repl := Some (repl_new ''id'')\<rparr>"
  let ?evs = "[(6, Cmd quiet_env None [''SET'', ''k'', ''v''])]"
  let ?v = "bare_world (sample_store 4 10) Map.empty"
  obtain w1 out where h: "handle_command quiet_env (Some 7) [''PSYNC'', ''?'', ''-1''] ?w buf_new = (w1, out)" by fastforce
  have w: "w_repl ?w = Some (repl_new ''id'')" "7 \<notin> rep_link ` set (r_replicas (repl_new ''id''))"
    "sent_to 7 (w_sent ?w) = []" "frozen 5 (w_store ?w)" "store_inv (w_store ?w)" "data_ok 5 (w_store ?w)"
    by (simp_all add: bare_world_def repl_new_def data_ok_def)
  have id: "CR \<notin> set (r_replid (repl_new ''id''))" "0 \<le> r_master_offset (repl_new ''id'')"
    "r_master_offset (repl_new ''id'') \<le> int64_max" by (simp_all add: repl_new_def int64_defs)
  have len: "length (rdb_serialize (fst (store_snapshot (w_store ?w)))) < 2 ^ 64"
    by (simp add: bare_world_def rdb_serialize_eq enc_body_def enc_preamble_def enc_string_def enc_length_cases Let_def
        kRdbMagic_def kRdbVersion_def)
  have "mirrored 10 7 (\<lambda>u. view u (w_store ?w)) (r_master_offset (repl_new ''id'')) w1"
    by (rule psync_mirrored(2) [OF w(1-5) _ h]) simp
  then have "store_inv (w_store (set_clock 6 w1))" by (auto simp: mirrored_def set_clock_def store_inv_def)
  then have "fst (dispatch quiet_env [''SET'', ''k'', ''v''] None (set_clock 6 w1)) = wrote reply_ok [''SET'', ''k'', ''v'']"
    by (intro plain_set [of 6]) (simp_all add: set_clock_def frozen_def)
  then have r: "run_sat (mirror_ok 7 10) 10 5 w1 ?evs"
    by (simp add: case_prod_unfold wrote_def wire_ok_def log_ok_def no_revival_def kMaxBulkLength_def kMaxMultibulkLength_def)
  have v: "frozen 10 (w_store ?v)" "store_inv (w_store ?v)" by (simp_all add: bare_world_def)
  let ?sk = "\<lparr>sk_in = [greeting, buf_readable out @ sent_to 7 (w_sent (world_run w1 ?evs))],
    sk_out = [], sk_writes = sconst True\<rparr>"
  have sk: "sk_writes ?sk = sconst True" "concat (sk_in ?sk) = greeting @ buf_readable out @ sent_to 7 (w_sent (world_run w1 ?evs))"
    "steady [(0, Ready), (0, Ready)]" "length (sk_in ?sk) \<le> readies [(0, Ready), (0, Ready)]"
    by (simp_all add: steady_def readies_def)
  from replica_converges [OF w _ id len h r refl sk v, of 0 1 "repl_new ''x''" quiet_env]
  obtain tasks q' where "link_attempt (Established ?sk 0 ([(0, Ready), (0, Ready)] @ [(1, Would_block)])) (repl_new ''x'') = Some (tasks, q')"
    "view 10 (w_store (foldl (run_task quiet_env) ?v tasks)) = view 10 (w_store (world_run w1 ?evs))" by auto
  with h show ?thesis by (intro exI conjI)
qed

end
